(* ===== verification/Prelude.thy ===== *)
theory Prelude
  imports Main "HOL-Library.Word" "HOL-Library.Product_Lexorder" "HOL-Library.Multiset"
begin

text \<open>
  What every component of the development shares.

  \<^item> Machine integers. \<open>usize\<close> and \<open>u64\<close> are 64 bits wide on every platform the addons are
    packaged for, \<open>u32\<close> is 32 bits. They are natural numbers here, with the width written out
    in the operation: \<open>checked_add\<close>, \<open>checked_mul\<close>, \<open>checked_sub\<close> are Rust's methods of that
    name (\<open>None\<close> on overflow), \<open>wrapping_add\<close> and \<open>wrapping_mul\<close> are the plain \<open>+\<close> and \<open>*\<close> of
    a release build (the workspace's \<open>Cargo.toml\<close> sets no \<open>overflow-checks\<close>).
  \<^item> Results. \<open>outcome\<close> is Rust's \<open>Result\<close> with a third case for a panic, so that every
    \<open>assert!\<close>, \<open>expect\<close> and index out of range of the source is a branch of the model.
    \<open>and_then\<close> is the \<open>?\<close> operator.
  \<^item> The two loop shapes of the source: a fold that stops at the first failure, over options
    (\<open>fold_opt\<close>) and over outcomes (\<open>fold_outcome\<close>).
\<close>

named_theorems outcome_iff \<open>inversion of a successful or failed outcome\<close>
named_theorems checked_simps \<open>evaluation of checked machine arithmetic\<close>

section \<open>Machine integers\<close>

definition usize_max :: nat where
  "usize_max = 18446744073709551615"

definition u32_max :: nat where
  "u32_max = 4294967295"

definition checked_add :: "nat \<Rightarrow> nat \<Rightarrow> nat option" where
  "checked_add a b = (if a + b \<le> usize_max then Some (a + b) else None)"

definition checked_mul :: "nat \<Rightarrow> nat \<Rightarrow> nat option" where
  "checked_mul a b = (if a * b \<le> usize_max then Some (a * b) else None)"

definition checked_sub :: "nat \<Rightarrow> nat \<Rightarrow> nat option" where
  "checked_sub a b = (if b \<le> a then Some (a - b) else None)"

definition checked_add_u32 :: "nat \<Rightarrow> nat \<Rightarrow> nat option" where
  "checked_add_u32 a b = (if a + b \<le> u32_max then Some (a + b) else None)"

definition wrapping_add :: "nat \<Rightarrow> nat \<Rightarrow> nat" where
  "wrapping_add a b = (a + b) mod (usize_max + 1)"

definition wrapping_mul :: "nat \<Rightarrow> nat \<Rightarrow> nat" where
  "wrapping_mul a b = (a * b) mod (usize_max + 1)"

definition u32_try_from :: "nat \<Rightarrow> nat option" where
  "u32_try_from n = (if n \<le> u32_max then Some n else None)"

lemma u32_max_le_usize_max: "u32_max \<le> usize_max"
  by (simp add: u32_max_def usize_max_def)

lemma checked_add_Some [checked_simps]:
  "checked_add a b = Some c \<longleftrightarrow> c = a + b \<and> a + b \<le> usize_max"
  by (auto simp: checked_add_def)

lemma checked_add_None [checked_simps]: "checked_add a b = None \<longleftrightarrow> usize_max < a + b"
  by (auto simp: checked_add_def)

lemma checked_mul_Some [checked_simps]:
  "checked_mul a b = Some c \<longleftrightarrow> c = a * b \<and> a * b \<le> usize_max"
  by (auto simp: checked_mul_def)

lemma checked_mul_None [checked_simps]: "checked_mul a b = None \<longleftrightarrow> usize_max < a * b"
  by (auto simp: checked_mul_def)

lemma checked_sub_Some [checked_simps]: "checked_sub a b = Some c \<longleftrightarrow> c = a - b \<and> b \<le> a"
  by (auto simp: checked_sub_def)

lemma checked_sub_None [checked_simps]: "checked_sub a b = None \<longleftrightarrow> a < b"
  by (auto simp: checked_sub_def)

lemma checked_add_u32_Some [checked_simps]:
  "checked_add_u32 a b = Some c \<longleftrightarrow> c = a + b \<and> a + b \<le> u32_max"
  by (auto simp: checked_add_u32_def)

lemma u32_try_from_Some [checked_simps]: "u32_try_from n = Some m \<longleftrightarrow> m = n \<and> n \<le> u32_max"
  by (auto simp: u32_try_from_def)

lemma wrapping_add_exact [simp]: "a + b \<le> usize_max \<Longrightarrow> wrapping_add a b = a + b"
  by (simp add: wrapping_add_def)

lemma wrapping_mul_exact [simp]: "a * b \<le> usize_max \<Longrightarrow> wrapping_mul a b = a * b"
  by (simp add: wrapping_mul_def)

subsection \<open>Powers of two\<close>

text \<open>\<open>usize::count_ones\<close> and \<open>usize::is_power_of_two\<close> of the standard library.\<close>

fun count_ones :: "nat \<Rightarrow> nat" where
  "count_ones n = (if n = 0 then 0 else n mod 2 + count_ones (n div 2))"

declare count_ones.simps [simp del]

definition is_power_of_two :: "nat \<Rightarrow> bool" where
  "is_power_of_two n \<longleftrightarrow> count_ones n = 1"

lemma count_ones_0 [simp]: "count_ones 0 = 0"
  by (simp add: count_ones.simps)

lemma count_ones_zero [simp]: "count_ones n = 0 \<longleftrightarrow> n = 0"
proof (induction n rule: count_ones.induct)
  case (1 n)
  show ?case
  proof (cases "n = 0")
    case False
    then have "n div 2 = 0 \<Longrightarrow> n mod 2 \<noteq> 0" by arith
    with False "1.IH" show ?thesis by (auto simp: count_ones.simps [of n])
  qed (simp add: count_ones.simps)
qed

lemma count_ones_double: "count_ones (2 * n) = count_ones n"
  by (cases "n = 0") (simp_all add: count_ones.simps [of "2 * n"])

lemma count_ones_power: "count_ones (2 ^ k) = 1"
proof (induction k)
  case 0
  show ?case by (simp add: count_ones.simps)
next
  case (Suc k)
  then show ?case by (simp add: count_ones_double)
qed

lemma count_ones_one: "count_ones n = 1 \<Longrightarrow> \<exists>k. n = 2 ^ k"
proof (induction n rule: count_ones.induct)
  case (1 n)
  from "1.prems" have nz: "n \<noteq> 0" by (cases n) auto
  have split_n: "n = 2 * (n div 2) + n mod 2" by simp
  from "1.prems" nz have sum: "n mod 2 + count_ones (n div 2) = 1"
    by (simp add: count_ones.simps [of n])
  show ?case
  proof (cases "n mod 2 = 0")
    case True
    with sum nz "1.IH" obtain k where "n div 2 = 2 ^ k" by auto
    with True split_n have "n = 2 ^ Suc k" by simp
    then show ?thesis by blast
  next
    case False
    with sum have "n div 2 = 0" by simp
    with split_n False have "n = 2 ^ 0" by simp
    then show ?thesis by blast
  qed
qed

lemma is_power_of_two_iff: "is_power_of_two n \<longleftrightarrow> (\<exists>k. n = 2 ^ k)"
  using count_ones_one count_ones_power by (auto simp: is_power_of_two_def)

lemma is_power_of_two_pos: "is_power_of_two n \<Longrightarrow> 0 < n"
  by (cases n) (auto simp: is_power_of_two_def)

lemma power_of_two_dvd:
  assumes "is_power_of_two a" and "is_power_of_two b" and "a \<le> b"
  shows "a dvd b"
proof -
  from assms obtain i j where ij: "a = 2 ^ i" "b = 2 ^ j"
    by (auto simp: is_power_of_two_iff)
  with assms(3) have "i \<le> j" by simp
  with ij show ?thesis by (simp add: le_imp_power_dvd)
qed

lemma is_power_of_two_max:
  "is_power_of_two a \<Longrightarrow> is_power_of_two b \<Longrightarrow> is_power_of_two (max a b)"
  by (simp add: max_def)

section \<open>Outcomes\<close>

datatype ('a, 'e) outcome = Ok 'a | Err 'e | Panic

fun and_then :: "('a, 'e) outcome \<Rightarrow> ('a \<Rightarrow> ('b, 'e) outcome) \<Rightarrow> ('b, 'e) outcome" where
  "and_then (Ok x) f = f x"
| "and_then (Err e) f = Err e"
| "and_then Panic f = Panic"

definition ok_or :: "'e \<Rightarrow> 'a option \<Rightarrow> ('a, 'e) outcome" where
  "ok_or e x = (case x of None \<Rightarrow> Err e | Some y \<Rightarrow> Ok y)"

definition expect :: "'a option \<Rightarrow> ('a, 'e) outcome" where
  "expect x = (case x of None \<Rightarrow> Panic | Some y \<Rightarrow> Ok y)"

fun map_err :: "('e \<Rightarrow> 'f) \<Rightarrow> ('a, 'e) outcome \<Rightarrow> ('a, 'f) outcome" where
  "map_err f (Ok x) = Ok x"
| "map_err f (Err e) = Err (f e)"
| "map_err f Panic = Panic"

definition nth_opt :: "'a list \<Rightarrow> nat \<Rightarrow> 'a option" where
  "nth_opt xs i = (if i < length xs then Some (xs ! i) else None)"

lemma nth_opt_Some [simp]: "nth_opt xs i = Some x \<longleftrightarrow> i < length xs \<and> xs ! i = x"
  by (auto simp: nth_opt_def)

lemma nth_opt_None [simp]: "nth_opt xs i = None \<longleftrightarrow> length xs \<le> i"
  by (auto simp: nth_opt_def)

lemma and_then_Ok [outcome_iff]:
  "and_then m f = Ok y \<longleftrightarrow> (\<exists>x. m = Ok x \<and> f x = Ok y)"
  by (cases m) auto

lemma and_then_Err [outcome_iff]:
  "and_then m f = Err e \<longleftrightarrow> m = Err e \<or> (\<exists>x. m = Ok x \<and> f x = Err e)"
  by (cases m) auto

lemma and_then_Panic [outcome_iff]:
  "and_then m f = Panic \<longleftrightarrow> m = Panic \<or> (\<exists>x. m = Ok x \<and> f x = Panic)"
  by (cases m) auto

lemma ok_or_Ok [outcome_iff]: "ok_or e x = Ok y \<longleftrightarrow> x = Some y"
  by (auto simp: ok_or_def split: option.splits)

lemma ok_or_Err [outcome_iff]: "ok_or e x = Err e' \<longleftrightarrow> x = None \<and> e' = e"
  by (auto simp: ok_or_def split: option.splits)

lemma ok_or_Panic [outcome_iff]: "ok_or e x = Panic \<longleftrightarrow> False"
  by (auto simp: ok_or_def split: option.splits)

lemma expect_Ok [outcome_iff]: "expect x = Ok y \<longleftrightarrow> x = Some y"
  by (auto simp: expect_def split: option.splits)

lemma expect_Err [outcome_iff]: "expect x = Err e \<longleftrightarrow> False"
  by (auto simp: expect_def split: option.splits)

lemma expect_Panic [outcome_iff]: "expect x = Panic \<longleftrightarrow> x = None"
  by (auto simp: expect_def split: option.splits)

lemma map_err_Ok [outcome_iff]: "map_err f m = Ok x \<longleftrightarrow> m = Ok x"
  by (cases m) auto

lemma map_err_Err [outcome_iff]: "map_err f m = Err e \<longleftrightarrow> (\<exists>e'. m = Err e' \<and> e = f e')"
  by (cases m) auto

lemma map_err_Panic [outcome_iff]: "map_err f m = Panic \<longleftrightarrow> m = Panic"
  by (cases m) auto

lemma ex_unit: "(\<exists>u :: unit. P u) \<longleftrightarrow> P ()"
  by auto

lemma if_Err_Ok: "(if P then Err e else m) = Ok y \<longleftrightarrow> \<not> P \<and> m = Ok y"
  by simp

lemma and_then_cong [fundef_cong]:
  "m = m' \<Longrightarrow> (\<And>x. m' = Ok x \<Longrightarrow> f x = g x) \<Longrightarrow> and_then m f = and_then m' g"
  by (cases m') auto

section \<open>Loops\<close>

primrec fold_opt :: "('s \<Rightarrow> 'a \<Rightarrow> 's option) \<Rightarrow> 's \<Rightarrow> 'a list \<Rightarrow> 's option" where
  "fold_opt f s [] = Some s"
| "fold_opt f s (x # xs) = (case f s x of None \<Rightarrow> None | Some s' \<Rightarrow> fold_opt f s' xs)"

primrec fold_outcome ::
    "('s \<Rightarrow> 'a \<Rightarrow> ('s, 'e) outcome) \<Rightarrow> 's \<Rightarrow> 'a list \<Rightarrow> ('s, 'e) outcome" where
  "fold_outcome f s [] = Ok s"
| "fold_outcome f s (x # xs) = and_then (f s x) (\<lambda>s'. fold_outcome f s' xs)"

primrec each_outcome :: "('a \<Rightarrow> (unit, 'e) outcome) \<Rightarrow> 'a list \<Rightarrow> (unit, 'e) outcome" where
  "each_outcome f [] = Ok ()"
| "each_outcome f (x # xs) = and_then (f x) (\<lambda>_. each_outcome f xs)"

primrec traverse :: "('a \<Rightarrow> ('b, 'e) outcome) \<Rightarrow> 'a list \<Rightarrow> ('b list, 'e) outcome" where
  "traverse f [] = Ok []"
| "traverse f (x # xs) =
     and_then (f x) (\<lambda>y. and_then (traverse f xs) (\<lambda>ys. Ok (y # ys)))"

lemma traverse_Ok:
  "traverse f xs = Ok ys \<longleftrightarrow>
    length ys = length xs \<and> (\<forall>i < length xs. f (xs ! i) = Ok (ys ! i))"
proof (induction xs arbitrary: ys)
  case (Cons x xs)
  show ?case
    by (cases ys) (auto simp: outcome_iff Cons.IH nth_Cons less_Suc_eq_0_disj split: nat.splits)
qed (auto simp: outcome_iff)

lemma traverse_Panic:
  "(\<And>x. x \<in> set xs \<Longrightarrow> f x \<noteq> Panic) \<Longrightarrow> traverse f xs \<noteq> Panic"
  by (induction xs) (auto simp: outcome_iff)

lemma traverse_Err:
  "traverse f xs = Err e \<Longrightarrow> \<exists>x \<in> set xs. f x = Err e"
  by (induction xs) (auto simp: outcome_iff)

lemma each_outcome_Ok [outcome_iff]:
  "each_outcome f xs = Ok u \<longleftrightarrow> (\<forall>x \<in> set xs. f x = Ok ())"
  by (induction xs) (auto simp: outcome_iff)

lemma each_outcome_Panic:
  "(\<And>x. x \<in> set xs \<Longrightarrow> f x \<noteq> Panic) \<Longrightarrow> each_outcome f xs \<noteq> Panic"
  by (induction xs) (auto simp: outcome_iff)

lemma each_outcome_Err:
  "each_outcome f xs = Err e \<Longrightarrow> \<exists>x \<in> set xs. f x = Err e"
  by (induction xs) (auto simp: outcome_iff)

lemma fold_outcome_append:
  "fold_outcome f s (xs @ ys) = and_then (fold_outcome f s xs) (\<lambda>t. fold_outcome f t ys)"
proof (induction xs arbitrary: s)
  case (Cons x xs)
  then show ?case by (cases "f s x") simp_all
qed simp

lemma fold_outcome_inv:
  assumes "fold_outcome f s xs = Ok t" and "I s"
    and "\<And>s x s'. x \<in> set xs \<Longrightarrow> I s \<Longrightarrow> f s x = Ok s' \<Longrightarrow> I s'"
  shows "I t"
  using assms by (induction xs arbitrary: s) (auto simp: outcome_iff)

lemma fold_outcome_safe:
  assumes "I s"
    and "\<And>s x. x \<in> set xs \<Longrightarrow> I s \<Longrightarrow> f s x \<noteq> Panic"
    and "\<And>s x s'. x \<in> set xs \<Longrightarrow> I s \<Longrightarrow> f s x = Ok s' \<Longrightarrow> I s'"
  shows "fold_outcome f s xs \<noteq> Panic"
  using assms
proof (induction xs arbitrary: s)
  case (Cons x xs)
  have "fold_outcome f s' xs \<noteq> Panic" if "f s x = Ok s'" for s'
  proof (rule Cons.IH)
    show "I s'" using Cons.prems(1,3) that by auto
  next
    show "f t y \<noteq> Panic" if "y \<in> set xs" "I t" for t y
      using Cons.prems(2) that by simp
  next
    show "I t'" if "y \<in> set xs" "I t" "f t y = Ok t'" for t y t'
      using Cons.prems(3) that by (meson list.set_intros(2))
  qed
  moreover have "f s x \<noteq> Panic" using Cons.prems by simp
  ultimately show ?case by (auto simp: outcome_iff)
qed simp

lemma fold_outcome_Err:
  "fold_outcome f s xs = Err e \<Longrightarrow> \<exists>t. \<exists>x \<in> set xs. f t x = Err e"
proof (induction xs arbitrary: s)
  case (Cons x xs)
  show ?case
  proof (cases "f s x")
    case (Ok s')
    with Cons show ?thesis by simp blast
  next
    case (Err e')
    with Cons.prems have "f s x = Err e" by simp
    then show ?thesis by (meson list.set_intros(1))
  qed (use Cons.prems in simp)
qed simp

lemma fold_outcome_case:
  assumes "I s"
    and "\<And>s x. x \<in> set xs \<Longrightarrow> I s \<Longrightarrow>
      case f s x of Ok s' \<Rightarrow> I s' | Err e \<Rightarrow> E e | Panic \<Rightarrow> False"
  shows "case fold_outcome f s xs of Ok s' \<Rightarrow> I s' | Err e \<Rightarrow> E e | Panic \<Rightarrow> False"
  using assms
proof (induction xs arbitrary: s)
  case (Cons x xs)
  from Cons.prems have step: "case f s x of Ok s' \<Rightarrow> I s' | Err e \<Rightarrow> E e | Panic \<Rightarrow> False" by simp
  show ?case
  proof (cases "f s x")
    case (Ok s')
    have "case fold_outcome f s' xs of Ok s' \<Rightarrow> I s' | Err e \<Rightarrow> E e | Panic \<Rightarrow> False"
      by (rule Cons.IH) (use step Ok Cons.prems in auto)
    with Ok show ?thesis by simp
  qed (use step in auto)
qed simp

lemma fold_outcome_upto:
  fixes f :: "'b \<Rightarrow> nat \<Rightarrow> ('b, 'c) outcome"
  assumes "P 0 s"
    and "\<And>k s. k < n \<Longrightarrow> P k s \<Longrightarrow>
      case f s k of Ok s' \<Rightarrow> P (Suc k) s' | Err x \<Rightarrow> E x | Panic \<Rightarrow> False"
  shows "case fold_outcome f s [0..<n] of Ok s' \<Rightarrow> P n s' | Err x \<Rightarrow> E x | Panic \<Rightarrow> False"
  using assms(2)
proof (induction n)
  case (Suc n)
  have "case fold_outcome f s [0..<n] of Ok s' \<Rightarrow> P n s' | Err x \<Rightarrow> E x | Panic \<Rightarrow> False"
    using Suc by (meson less_SucI)
  moreover have "and_then m Ok = m" for m :: "('b, 'c) outcome" by (cases m) simp_all
  ultimately show ?case using Suc.prems
    by (cases "fold_outcome f s [0..<n]") (auto simp: fold_outcome_append)
qed (simp add: assms(1))

lemma fold_opt_append:
  "fold_opt f s (xs @ ys) = (case fold_opt f s xs of None \<Rightarrow> None | Some t \<Rightarrow> fold_opt f t ys)"
  by (induction xs arbitrary: s) (auto split: option.splits)

subsection \<open>Checked sums and products\<close>

lemma fold_opt_checked_add:
  "fold_opt (\<lambda>t x. checked_add t (g x)) s xs =
     (if xs = [] \<or> s + sum_list (map g xs) \<le> usize_max then Some (s + sum_list (map g xs)) else None)"
  by (induction xs arbitrary: s) (auto simp: checked_add_def split: option.splits)

lemma prod_list_pos: "0 < prod_list xs \<longleftrightarrow> 0 \<notin> set xs" for xs :: "nat list"
  by (induction xs) auto

lemma fold_opt_checked_mul:
  assumes "0 \<notin> set xs" and "s \<noteq> 0"
  shows "fold_opt checked_mul s xs =
    (if xs = [] \<or> s * prod_list xs \<le> usize_max then Some (s * prod_list xs) else None)"
  using assms
proof (induction xs arbitrary: s)
  case (Cons x xs)
  then have x: "x \<noteq> 0" and xs: "0 \<notin> set xs" by auto
  have "prod_list xs \<noteq> 0" using xs by (simp add: prod_list_zero_iff)
  then have "1 \<le> prod_list xs" by simp
  then have le: "s * x \<le> s * (x * prod_list xs)" by simp
  show ?case
  proof (cases "s * x \<le> usize_max")
    case True
    with Cons x xs show ?thesis by (simp add: checked_mul_def mult.assoc)
  next
    case False
    with le have "\<not> s * (x * prod_list xs) \<le> usize_max" by linarith
    with False show ?thesis by (simp add: checked_mul_def)
  qed
qed simp

section \<open>Iterators\<close>

text \<open>
  \<open>Iterator::min_by_key\<close> (the first of several minima), \<open>Vec::remove\<close>, and the order
  \<open>(a, b, ..)\<close> of Rust's tuples, which is lexicographic (\<open>Product_Lexorder\<close>).
\<close>

fun min_by_key :: "('a \<Rightarrow> 'b::linorder) \<Rightarrow> 'a list \<Rightarrow> 'a option" where
  "min_by_key k [] = None"
| "min_by_key k (x # xs) = (case min_by_key k xs of
     None \<Rightarrow> Some x
   | Some y \<Rightarrow> if k x \<le> k y then Some x else Some y)"

definition remove_nth :: "nat \<Rightarrow> 'a list \<Rightarrow> 'a list" where
  "remove_nth i xs = take i xs @ drop (Suc i) xs"

lemma enumerate_member [simp]: "(i, e) \<in> set (enumerate 0 xs) \<longleftrightarrow> i < length xs \<and> xs ! i = e"
  by (auto simp: in_set_enumerate_eq)

lemma enumerate_Nil [simp]: "enumerate n xs = [] \<longleftrightarrow> xs = []"
  by (metis length_0_conv length_enumerate)

lemma enumerate_obtain:
  assumes "e \<in> set xs"
  obtains i where "(i, e) \<in> set (enumerate 0 xs)"
proof -
  from assms obtain i where "i < length xs" and "xs ! i = e" by (auto simp: in_set_conv_nth)
  then have "(i, e) \<in> set (enumerate 0 xs)" by simp
  then show ?thesis by (rule that)
qed

lemma ball_enumerate: "(\<forall>x \<in> set (enumerate 0 xs). P x) \<longleftrightarrow> (\<forall>i < length xs. P (i, xs ! i))"
  by (metis enumerate_member surj_pair)

lemma min_by_key_None [simp]: "min_by_key k xs = None \<longleftrightarrow> xs = []"
  by (cases xs) (auto split: option.splits)

lemma min_by_key_Some:
  "min_by_key k xs = Some x \<Longrightarrow> x \<in> set xs \<and> (\<forall>y \<in> set xs. k x \<le> k y)"
proof (induction xs arbitrary: x)
  case (Cons a xs)
  show ?case
  proof (cases "min_by_key k xs")
    case None
    with Cons.prems show ?thesis by simp
  next
    case (Some y)
    with Cons.IH have "y \<in> set xs" "\<forall>z \<in> set xs. k y \<le> k z" by auto
    with Some Cons.prems show ?thesis by (force split: if_splits)
  qed
qed simp

lemma remove_nth_perm:
  "i < length xs \<Longrightarrow> mset xs = add_mset (xs ! i) (mset (remove_nth i xs))"
proof -
  assume i: "i < length xs"
  then have "mset xs = mset (take i xs @ xs ! i # drop (Suc i) xs)"
    by (simp add: id_take_nth_drop [symmetric])
  then show ?thesis by (simp add: remove_nth_def)
qed

lemma set_remove_nth: "set (remove_nth i xs) \<subseteq> set xs"
  by (auto simp: remove_nth_def dest: in_set_takeD in_set_dropD)

lemma length_remove_nth [simp]: "i < length xs \<Longrightarrow> length (remove_nth i xs) = length xs - 1"
  by (simp add: remove_nth_def)

lemma sum_list_remove_nth:
  "i < length xs \<Longrightarrow> sum_list (map f xs) = f (xs ! i) + sum_list (map f (remove_nth i xs))"
  for f :: "'a \<Rightarrow> nat"
proof -
  assume i: "i < length xs"
  have "sum_mset (image_mset f (mset xs)) = f (xs ! i) + sum_mset (image_mset f (mset (remove_nth i xs)))"
    unfolding remove_nth_perm [OF i] by simp
  then show ?thesis
    by (simp add: sum_mset_sum_list [symmetric])
qed

section \<open>Systems with an invariant\<close>

text \<open>
  The contract of a component that changes state: what holds at the start and is kept by every
  step holds in every state that the component can reach.
\<close>

locale invariant_system =
  fixes init :: "'s \<Rightarrow> bool"
    and step :: "'s \<Rightarrow> 's \<Rightarrow> bool"
    and inv :: "'s \<Rightarrow> bool"
  assumes init_inv: "init s \<Longrightarrow> inv s"
    and step_inv: "inv s \<Longrightarrow> step s t \<Longrightarrow> inv t"
begin

lemma steps_inv: "step\<^sup>*\<^sup>* s t \<Longrightarrow> inv s \<Longrightarrow> inv t"
  by (induction rule: rtranclp_induct) (auto intro: step_inv)

lemma reachable_inv: "init s \<Longrightarrow> step\<^sup>*\<^sup>* s t \<Longrightarrow> inv t"
  by (blast intro: steps_inv init_inv)

end

section \<open>Generic lemmas\<close>

lemma mod_add_gap: "(m::nat) > 0 \<Longrightarrow> n mod m \<noteq> 0 \<Longrightarrow> (n + (m - n mod m)) mod m = 0"
proof -
  assume m: "m > 0" and nz: "n mod m \<noteq> 0"
  have "n mod m < m" using m by simp
  then have "n + (m - n mod m) = m * (n div m) + m"
    using mult_div_mod_eq [of m n] by linarith
  then show ?thesis by simp
qed

text \<open>The first index of a list that holds a value.\<close>

definition position :: "nat list \<Rightarrow> nat \<Rightarrow> nat" where
  "position xs d = length (takeWhile (\<lambda>a. a \<noteq> d) xs)"

lemma position_nth: "distinct xs \<Longrightarrow> i < length xs \<Longrightarrow> position xs (xs ! i) = i"
proof -
  assume dist: "distinct xs" and i: "i < length xs"
  have "takeWhile (\<lambda>a. a \<noteq> xs ! i) xs = take i xs"
    by (rule takeWhile_eq_take_P_nth) (use dist i in \<open>auto simp: nth_eq_iff_index_eq\<close>)
  with i show ?thesis by (simp add: position_def)
qed

lemma position_member: "d \<in> set xs \<Longrightarrow> position xs d < length xs \<and> xs ! position xs d = d"
  by (induction xs) (auto simp: position_def)

lemma sum_list_filter_le: "sum_list (map (f :: _ \<Rightarrow> nat) (filter P xs)) \<le> sum_list (map f xs)"
  by (induction xs) auto

end
