(* ===== verification/Floats.thy ===== *)
theory Floats
  imports "HOL-Library.Word"
begin

unbundle bit_operations_syntax

text \<open>
  IEEE binary32 and binary64 arithmetic with rounding to nearest, ties to even, as far as the code
  uses it: the products and differences of the block decoders, and the element count of \<open>arange\<close>.
\<close>

section \<open>Single precision\<close>

text \<open>
  A finite number is a sign and a magnitude in units of \<open>2 ^ -149\<close>, the least positive number. The
  payload of a NaN is not kept.
\<close>

datatype f32 = NaN | Infinite bool | Finite bool nat

definition f32_from_bits :: "32 word \<Rightarrow> f32" where
  "f32_from_bits w =
     (let s = bit w 31; e = unat (take_bit 8 (drop_bit 23 w)); m = unat (take_bit 23 w) in
      if e = 255 then (if m = 0 then Infinite s else NaN)
      else if e = 0 then Finite s m
      else Finite s ((2 ^ 23 + m) * 2 ^ (e - 1)))"

fun bit_length :: "nat \<Rightarrow> nat" where
  "bit_length n = (if n = 0 then 0 else Suc (bit_length (n div 2)))"

declare bit_length.simps [simp del]

definition nearest :: "nat \<Rightarrow> nat \<Rightarrow> nat" where
  "nearest n s = (let q = n div 2 ^ s; r = 2 * (n mod 2 ^ s) in
     if r > 2 ^ s \<or> r = 2 ^ s \<and> odd q then q + 1 else q)"

lemma bit_length_le: "bit_length n \<le> b \<longleftrightarrow> n < 2 ^ b"
proof (induction n arbitrary: b rule: bit_length.induct)
  case (1 n)
  show ?case
  proof (cases "n = 0 \<or> b = 0")
    case True
    then show ?thesis by (auto simp: bit_length.simps [of n])
  next
    case False
    then have "bit_length n \<le> b \<longleftrightarrow> bit_length (n div 2) \<le> b - 1"
      by (cases b) (simp_all add: bit_length.simps [of n])
    also have "\<dots> \<longleftrightarrow> n div 2 < 2 ^ (b - 1)" using 1 False by simp
    also have "\<dots> \<longleftrightarrow> n < 2 ^ b" using False by (cases b) (auto simp: less_mult_imp_div_less)
    finally show ?thesis .
  qed
qed

lemma bit_length_0 [simp]: "bit_length 0 = 0"
  by (simp add: bit_length.simps)

lemma nearest_exact [simp]: "nearest (q * 2 ^ s) s = q"
  by (simp add: nearest_def Let_def)

text \<open>The number \<open>n * 2 ^ -(149 + k)\<close>, rounded to 24 significant bits.\<close>

definition round_f32 :: "bool \<Rightarrow> nat \<Rightarrow> nat \<Rightarrow> f32" where
  "round_f32 s n k =
     (let sh = max (bit_length n - 24) k; m = nearest n sh * 2 ^ (sh - k) in
      if 2 ^ 277 \<le> m then Infinite s else Finite s m)"

definition f32_of_int :: "int \<Rightarrow> f32" where
  "f32_of_int i = round_f32 (i < 0) (nat \<bar>i\<bar> * 2 ^ 149) 0"

fun f32_mul :: "f32 \<Rightarrow> f32 \<Rightarrow> f32" where
  "f32_mul (Finite a m) (Finite b n) = round_f32 (a \<noteq> b) (m * n) 149"
| "f32_mul (Infinite a) (Finite b n) = (if n = 0 then NaN else Infinite (a \<noteq> b))"
| "f32_mul (Finite a m) (Infinite b) = (if m = 0 then NaN else Infinite (a \<noteq> b))"
| "f32_mul (Infinite a) (Infinite b) = Infinite (a \<noteq> b)"
| "f32_mul _ _ = NaN"

definition signed :: "bool \<Rightarrow> nat \<Rightarrow> int" where
  "signed s m = (if s then - int m else int m)"

fun f32_add :: "f32 \<Rightarrow> f32 \<Rightarrow> f32" where
  "f32_add (Finite a m) (Finite b n) =
     (let x = signed a m + signed b n in
      if x = 0 then Finite (a \<and> b) 0 else round_f32 (x < 0) (nat \<bar>x\<bar>) 0)"
| "f32_add (Infinite a) (Finite b n) = Infinite a"
| "f32_add (Finite a m) (Infinite b) = Infinite b"
| "f32_add (Infinite a) (Infinite b) = (if a = b then Infinite a else NaN)"
| "f32_add _ _ = NaN"

fun f32_neg :: "f32 \<Rightarrow> f32" where
  "f32_neg NaN = NaN"
| "f32_neg (Infinite s) = Infinite (\<not> s)"
| "f32_neg (Finite s m) = Finite (\<not> s) m"

definition f32_sub :: "f32 \<Rightarrow> f32 \<Rightarrow> f32" where
  "f32_sub x y = f32_add x (f32_neg y)"

section \<open>Double precision\<close>

text \<open>A finite number is a sign and a magnitude in units of \<open>2 ^ -1074\<close>.\<close>

datatype f64 = NaN64 | Infinite64 bool | Finite64 bool nat

text \<open>The number \<open>n * 2 ^ -(1074 + k)\<close>, rounded to 53 significant bits.\<close>

definition round_f64 :: "bool \<Rightarrow> nat \<Rightarrow> nat \<Rightarrow> f64" where
  "round_f64 s n k =
     (let sh = max (bit_length n - 53) k; m = nearest n sh * 2 ^ (sh - k) in
      if 2 ^ 2098 \<le> m then Infinite64 s else Finite64 s m)"

definition f64_of_int :: "int \<Rightarrow> f64" where
  "f64_of_int i = round_f64 (i < 0) (nat \<bar>i\<bar> * 2 ^ 1074) 0"

fun f64_neg :: "f64 \<Rightarrow> f64" where
  "f64_neg NaN64 = NaN64"
| "f64_neg (Infinite64 s) = Infinite64 (\<not> s)"
| "f64_neg (Finite64 s m) = Finite64 (\<not> s) m"

fun f64_add :: "f64 \<Rightarrow> f64 \<Rightarrow> f64" where
  "f64_add (Finite64 a m) (Finite64 b n) =
     (let x = signed a m + signed b n in
      if x = 0 then Finite64 (a \<and> b) 0 else round_f64 (x < 0) (nat \<bar>x\<bar>) 0)"
| "f64_add (Infinite64 a) (Finite64 b n) = Infinite64 a"
| "f64_add (Finite64 a m) (Infinite64 b) = Infinite64 b"
| "f64_add (Infinite64 a) (Infinite64 b) = (if a = b then Infinite64 a else NaN64)"
| "f64_add _ _ = NaN64"

definition f64_sub :: "f64 \<Rightarrow> f64 \<Rightarrow> f64" where
  "f64_sub x y = f64_add x (f64_neg y)"

text \<open>The quotient keeps one bit below the last unit and a sticky bit, which decide the rounding.\<close>

fun f64_div :: "f64 \<Rightarrow> f64 \<Rightarrow> f64" where
  "f64_div (Finite64 a m) (Finite64 b n) =
     (if n = 0 then (if m = 0 then NaN64 else Infinite64 (a \<noteq> b))
      else let d = m * 2 ^ 1075 in
        round_f64 (a \<noteq> b) (2 * (d div n) + (if d mod n = 0 then 0 else 1)) 2)"
| "f64_div (Infinite64 a) (Finite64 b n) = Infinite64 (a \<noteq> b)"
| "f64_div (Finite64 a m) (Infinite64 b) = Finite64 (a \<noteq> b) 0"
| "f64_div (Infinite64 a) (Infinite64 b) = NaN64"
| "f64_div _ _ = NaN64"

fun f64_ceil :: "f64 \<Rightarrow> f64" where
  "f64_ceil (Finite64 s m) =
     Finite64 s ((if s then m div 2 ^ 1074 else (m + (2 ^ 1074 - 1)) div 2 ^ 1074) * 2 ^ 1074)"
| "f64_ceil x = x"

text \<open>\<open>f64::max(x, 0.0)\<close>: the other operand when one is a NaN.\<close>

fun f64_max_zero :: "f64 \<Rightarrow> f64" where
  "f64_max_zero NaN64 = Finite64 False 0"
| "f64_max_zero (Infinite64 s) = (if s then Finite64 False 0 else Infinite64 False)"
| "f64_max_zero (Finite64 s m) = (if s then Finite64 False 0 else Finite64 False m)"

text \<open>The cast \<open>as usize\<close> truncates and saturates; a NaN becomes zero.\<close>

fun f64_to_unsigned :: "nat \<Rightarrow> f64 \<Rightarrow> nat" where
  "f64_to_unsigned most NaN64 = 0"
| "f64_to_unsigned most (Infinite64 s) = (if s then 0 else most)"
| "f64_to_unsigned most (Finite64 s m) = (if s then 0 else min most (m div 2 ^ 1074))"

fun f64_le :: "f64 \<Rightarrow> f64 \<Rightarrow> bool" where
  "f64_le (Finite64 a m) (Finite64 b n) = (signed a m \<le> signed b n)"
| "f64_le (Infinite64 a) (Finite64 b n) = a"
| "f64_le (Finite64 a m) (Infinite64 b) = (\<not> b)"
| "f64_le (Infinite64 a) (Infinite64 b) = (a \<or> \<not> b)"
| "f64_le _ _ = False"

fun f64_mul :: "f64 \<Rightarrow> f64 \<Rightarrow> f64" where
  "f64_mul (Finite64 a m) (Finite64 b n) = round_f64 (a \<noteq> b) (m * n) 1074"
| "f64_mul (Infinite64 a) (Finite64 b n) = (if n = 0 then NaN64 else Infinite64 (a \<noteq> b))"
| "f64_mul (Finite64 a m) (Infinite64 b) = (if m = 0 then NaN64 else Infinite64 (a \<noteq> b))"
| "f64_mul (Infinite64 a) (Infinite64 b) = Infinite64 (a \<noteq> b)"
| "f64_mul _ _ = NaN64"

fun f64_is_nan :: "f64 \<Rightarrow> bool" where
  "f64_is_nan NaN64 = True"
| "f64_is_nan _ = False"

fun f64_is_finite :: "f64 \<Rightarrow> bool" where
  "f64_is_finite (Finite64 _ _) = True"
| "f64_is_finite _ = False"

definition f64_lt :: "f64 \<Rightarrow> f64 \<Rightarrow> bool" where
  "f64_lt x y \<longleftrightarrow> \<not> f64_is_nan x \<and> \<not> f64_is_nan y \<and> \<not> f64_le y x"

definition f64_eq :: "f64 \<Rightarrow> f64 \<Rightarrow> bool" where
  "f64_eq x y \<longleftrightarrow> f64_le x y \<and> f64_le y x"

definition f64_max :: "f64 \<Rightarrow> f64 \<Rightarrow> f64" where
  "f64_max x y = (if f64_is_nan x then y else if f64_lt x y then y else x)"

definition zero64 :: f64 where
  "zero64 = Finite64 False 0"

definition one64 :: f64 where
  "one64 = Finite64 False (2 ^ 1074)"

end
