(* ===== verification/Sampling.thy ===== *)
theory Sampling
  imports Prelude Floats "HOL-Library.Product_Lexorder"
begin

text \<open>
  Next-token sampling (\<open>crates/runtime/src/sampling.rs\<close>): the stateless random numbers, the draw from
  logits with temperature, top-k and top-p, the draw from weights, and the two acceptance tests of
  speculative decoding.

  Logits are read through a function, the cancellation callback answers by the number of the poll,
  and the exponential function of the platform is a parameter. Numbers are binary64.
\<close>

section \<open>The order of candidates\<close>

text \<open>The total order of \<open>total_cmp\<close>: a negative zero is below a positive one.\<close>

fun total_key :: "f64 \<Rightarrow> int \<times> int" where
  "total_key NaN64 = (3, 0)"
| "total_key (Infinite64 s) = (if s then 0 else 2, 0)"
| "total_key (Finite64 s m) = (1, if s then - int m - 1 else int m)"

section \<open>Random numbers\<close>

datatype sampling_purpose = Proposal | Accept | Residual | Target

fun purpose_code :: "sampling_purpose \<Rightarrow> 64 word" where
  "purpose_code Proposal = 0x243f6a8885a308d3"
| "purpose_code Accept = 0x13198a2e03707344"
| "purpose_code Residual = 0xa4093822299f31d0"
| "purpose_code Target = 0x082efa98ec4e6c89"

record sampling_coordinate =
  coord_seed :: "64 word"
  sequence_id :: "64 word"
  absolute_position :: "64 word"
  coord_purpose :: sampling_purpose
  subcounter :: "64 word"

definition golden :: "64 word" where
  "golden = 0x9e3779b97f4a7c15"

definition finalize :: "64 word \<Rightarrow> 64 word" where
  "finalize v =
     (let v = (v XOR drop_bit 30 v) * 0xbf58476d1ce4e5b9;
          v = (v XOR drop_bit 27 v) * 0x94d049bb133111eb in
      v XOR drop_bit 31 v)"

definition purpose_counter :: "64 word \<Rightarrow> sampling_purpose \<Rightarrow> 64 word \<Rightarrow> 64 word" where
  "purpose_counter place purpose sub = finalize ((place XOR purpose_code purpose) + sub * golden)"

definition random_bits :: "64 word \<Rightarrow> 64 word \<Rightarrow> nat" where
  "random_bits seed counter = unat (drop_bit 11 (finalize ((seed XOR counter * golden) + golden)))"

definition random_unit :: "64 word \<Rightarrow> 64 word \<Rightarrow> f64" where
  "random_unit seed counter = f64_mul (f64_of_int (int (random_bits seed counter))) (Finite64 False (2 ^ 1021))"

definition random_unit_at :: "sampling_coordinate \<Rightarrow> f64" where
  "random_unit_at c =
     random_unit
       (fold (\<lambda>component key. purpose_counter key Target component)
         [sequence_id c, absolute_position c, purpose_code (coord_purpose c), subcounter c] (coord_seed c)) 0"

section \<open>Options, candidates and polls\<close>

definition max_sampling_vocabulary :: nat where
  "max_sampling_vocabulary = 1048576"

record sampling_options =
  temperature :: f64
  top_k :: "nat option"
  top_p :: f64
  option_seed :: "64 word"
  option_counter :: "64 word"

datatype sampling_error =
    EmptyLogits | VocabularyRange | VocabularyLimit nat | BadTemperature f64 | BadTopP f64 | BadTopK nat
  | NotFinite nat | Aborted | BadRow | BadProbability nat | NoMass | OutsideVocabulary | VocabulariesDiffer
  | BadCandidate

type_synonym 'a sampled = "('a, sampling_error) outcome"

datatype candidate = Candidate (cand_token: nat) (cand_value: f64)

text \<open>The order \<open>descending\<close>: larger values first, then smaller tokens.\<close>

definition cand_key :: "candidate \<Rightarrow> (int \<times> int) \<times> nat" where
  "cand_key c = ((- fst (total_key (cand_value c)), - snd (total_key (cand_value c))), cand_token c)"

lemma total_key_inject: "total_key x = total_key y \<longleftrightarrow> x = y"
  by (cases x; cases y) (auto split: if_splits)

lemma cand_key_inject: "cand_key c = cand_key d \<longleftrightarrow> c = d"
  by (cases c; cases d) (auto simp: cand_key_def total_key_inject prod_eq_iff [of "total_key _"] simp flip: total_key_inject)

instantiation candidate :: linorder
begin

definition less_eq_candidate :: "candidate \<Rightarrow> candidate \<Rightarrow> bool" where
  "less_eq_candidate c d \<longleftrightarrow> cand_key c \<le> cand_key d"

definition less_candidate :: "candidate \<Rightarrow> candidate \<Rightarrow> bool" where
  "less_candidate c d \<longleftrightarrow> cand_key c < cand_key d"

instance
  by intro_classes (auto simp: less_eq_candidate_def less_candidate_def cand_key_inject not_le less_le)

end

definition poll_flag :: "(nat \<Rightarrow> bool) \<Rightarrow> nat \<Rightarrow> nat sampled" where
  "poll_flag polls t = (if polls t then Err Aborted else Ok (t + 1))"

definition poll_every :: "(nat \<Rightarrow> bool) \<Rightarrow> nat \<Rightarrow> nat \<Rightarrow> nat sampled" where
  "poll_every polls index t = (if index mod 4096 = 0 then poll_flag polls t else Ok t)"

definition validate_sampling :: "nat \<Rightarrow> sampling_options \<Rightarrow> unit sampled" where
  "validate_sampling len options =
     (if len = 0 then Err EmptyLogits
      else if len > u32_max then Err VocabularyRange
      else if len > max_sampling_vocabulary then Err (VocabularyLimit len)
      else if \<not> f64_is_finite (temperature options) \<or> f64_lt (temperature options) zero64
      then Err (BadTemperature (temperature options))
      else if \<not> f64_is_finite (top_p options) \<or> f64_le (top_p options) zero64 \<or> f64_lt one64 (top_p options)
      then Err (BadTopP (top_p options))
      else (case top_k options of
          Some k \<Rightarrow> if k = 0 \<or> k > len then Err (BadTopK k) else Ok ()
        | None \<Rightarrow> Ok ()))"

section \<open>Sampling from logits\<close>

definition greedy_step ::
    "(nat \<Rightarrow> bool) \<Rightarrow> (nat \<Rightarrow> f64) \<Rightarrow> nat \<times> f64 \<times> nat \<Rightarrow> nat \<Rightarrow> (nat \<times> f64 \<times> nat) sampled" where
  "greedy_step polls value_at s token = (case s of (t, best, selected) \<Rightarrow>
     and_then (poll_every polls token t) (\<lambda>t.
     let v = value_at token in
     if \<not> f64_is_finite v then Err (NotFinite token)
     else if f64_lt best v then Ok (t, v, token) else Ok (t, best, selected)))"

definition max_step ::
    "(nat \<Rightarrow> bool) \<Rightarrow> (nat \<Rightarrow> f64) \<Rightarrow> nat \<times> f64 \<Rightarrow> nat \<Rightarrow> (nat \<times> f64) sampled" where
  "max_step polls value_at s token = (case s of (t, most) \<Rightarrow>
     and_then (poll_every polls token t) (\<lambda>t.
     if \<not> f64_is_finite (value_at token) then Err (NotFinite token)
     else Ok (t, f64_max most (value_at token))))"

definition weight_of :: "(f64 \<Rightarrow> f64) \<Rightarrow> sampling_options \<Rightarrow> f64 \<Rightarrow> f64 \<Rightarrow> f64" where
  "weight_of exp_of options most v = exp_of (f64_div (f64_sub v most) (temperature options))"

definition add_step :: "(nat \<Rightarrow> bool) \<Rightarrow> nat \<times> f64 \<Rightarrow> nat \<times> f64 \<Rightarrow> (nat \<times> f64) sampled" where
  "add_step polls s entry = (case s of (t, mass) \<Rightarrow> (case entry of (index, weight) \<Rightarrow>
     and_then (poll_every polls index t) (\<lambda>t. Ok (t, f64_add mass weight))))"

text \<open>The scan of the draw: the first index at which the remaining mass is negative.\<close>

fun draw_scan :: "(nat \<Rightarrow> bool) \<Rightarrow> nat \<Rightarrow> f64 \<Rightarrow> (nat \<times> f64) list \<Rightarrow> nat option sampled" where
  "draw_scan polls t draw [] = Ok None"
| "draw_scan polls t draw ((index, weight) # rest) =
     and_then (poll_every polls index t) (\<lambda>t.
     let draw = f64_sub draw weight in
     if f64_lt draw zero64 then Ok (Some index) else draw_scan polls t draw rest)"

definition sample_unfiltered ::
    "(f64 \<Rightarrow> f64) \<Rightarrow> (nat \<Rightarrow> bool) \<Rightarrow> nat \<Rightarrow> (nat \<Rightarrow> f64) \<Rightarrow> sampling_options \<Rightarrow> nat sampled" where
  "sample_unfiltered exp_of polls len value_at options =
     and_then (fold_outcome (max_step polls value_at) (0, Infinite64 True) [0..<len]) (\<lambda>(t, most).
     let weights = map (\<lambda>token. (token, weight_of exp_of options most (value_at token))) [0..<len] in
     and_then (fold_outcome (add_step polls) (t, zero64) weights) (\<lambda>(t, mass).
     and_then (draw_scan polls t (f64_mul (random_unit (option_seed options) (option_counter options)) mass) weights)
       (\<lambda>found. (case found of Some token \<Rightarrow> Ok token | None \<Rightarrow> Ok (len - 1)))))"

definition candidate_step ::
    "(nat \<Rightarrow> bool) \<Rightarrow> (nat \<Rightarrow> f64) \<Rightarrow> nat \<times> candidate list \<Rightarrow> nat \<Rightarrow> (nat \<times> candidate list) sampled" where
  "candidate_step polls value_at s token = (case s of (t, candidates) \<Rightarrow>
     and_then (poll_every polls token t) (\<lambda>t.
     if \<not> f64_is_finite (value_at token) then Err (NotFinite token)
     else Ok (t, candidates @ [Candidate token (value_at token)])))"

text \<open>
  \<open>select_nth_unstable_by\<close> with truncation leaves the least elements in some order; the sort that
  follows makes the order irrelevant, so the sorted ones stand for them.
\<close>

definition keep_top :: "nat option \<Rightarrow> candidate list \<Rightarrow> candidate list" where
  "keep_top k candidates = (case k of
     Some k \<Rightarrow> if k < length candidates then take k (sort candidates) else candidates
   | None \<Rightarrow> candidates)"

text \<open>The prefix that reaches the threshold, with its mass.\<close>

fun nucleus :: "(nat \<Rightarrow> bool) \<Rightarrow> nat \<Rightarrow> f64 \<Rightarrow> f64 \<Rightarrow> (nat \<times> f64) list \<Rightarrow> (nat \<times> (nat \<times> f64) option) sampled" where
  "nucleus polls t threshold cumulative [] = Ok (t, None)"
| "nucleus polls t threshold cumulative ((index, weight) # rest) =
     and_then (poll_every polls index t) (\<lambda>t.
     let cumulative = f64_add cumulative weight in
     if f64_le threshold cumulative then Ok (t, Some (index + 1, cumulative))
     else nucleus polls t threshold cumulative rest)"

definition retain_top_p ::
    "(nat \<Rightarrow> bool) \<Rightarrow> sampling_options \<Rightarrow> nat \<Rightarrow> f64 \<Rightarrow> f64 list \<Rightarrow> (nat \<times> nat \<times> f64) sampled" where
  "retain_top_p polls options t mass weights =
     (if f64_lt (top_p options) one64
      then and_then (nucleus polls t (f64_mul (top_p options) mass) zero64 (enumerate 0 weights)) (\<lambda>(t, found).
        (case found of
           Some (retained, mass) \<Rightarrow> Ok (t, retained, mass)
         | None \<Rightarrow> Ok (t, length weights, mass)))
      else Ok (t, length weights, mass))"

text \<open>The candidates in order with their weights, the retained prefix and its mass.\<close>

definition ranked_prefix ::
    "(f64 \<Rightarrow> f64) \<Rightarrow> (nat \<Rightarrow> bool) \<Rightarrow> nat \<Rightarrow> sampling_options \<Rightarrow> candidate list \<Rightarrow>
      (nat \<times> candidate list \<times> f64 list \<times> nat \<times> f64) sampled" where
  "ranked_prefix exp_of polls t options candidates =
     and_then (expect (nth_opt candidates 0)) (\<lambda>first.
     let weights = map (\<lambda>c. weight_of exp_of options (cand_value first) (cand_value c)) candidates in
     and_then (fold_outcome (add_step polls) (t, zero64) (enumerate 0 weights)) (\<lambda>(t, mass).
     and_then (retain_top_p polls options t mass weights) (\<lambda>(t, retained, mass).
     Ok (t, candidates, weights, retained, mass))))"

definition sample_filtered ::
    "(f64 \<Rightarrow> f64) \<Rightarrow> (nat \<Rightarrow> bool) \<Rightarrow> nat \<Rightarrow> (nat \<Rightarrow> f64) \<Rightarrow> sampling_options \<Rightarrow> nat sampled" where
  "sample_filtered exp_of polls len value_at options =
     and_then (fold_outcome (candidate_step polls value_at) (0, []) [0..<len]) (\<lambda>(t, candidates).
     and_then (poll_flag polls t) (\<lambda>t.
     let candidates = keep_top (top_k options) candidates in
     and_then (poll_flag polls t) (\<lambda>t.
     let candidates = sort candidates in
     and_then (poll_flag polls t) (\<lambda>t.
     and_then (ranked_prefix exp_of polls t options candidates) (\<lambda>(t, candidates, weights, retained, mass).
     and_then (draw_scan polls t (f64_mul (random_unit (option_seed options) (option_counter options)) mass)
         (enumerate 0 (take retained weights)))
       (\<lambda>found. (case found of
          Some index \<Rightarrow> and_then (expect (nth_opt candidates index)) (\<lambda>c. Ok (cand_token c))
        | None \<Rightarrow> and_then (expect (checked_sub retained 1)) (\<lambda>end_index.
            and_then (expect (nth_opt candidates end_index)) (\<lambda>c. Ok (cand_token c))))))))))"

definition sample_greedy :: "(nat \<Rightarrow> bool) \<Rightarrow> nat \<Rightarrow> (nat \<Rightarrow> f64) \<Rightarrow> nat sampled" where
  "sample_greedy polls len value_at =
     and_then (fold_outcome (greedy_step polls value_at) (0, Infinite64 True, 0) [0..<len])
       (\<lambda>(_, _, selected). Ok selected)"

definition sample_logits ::
    "(f64 \<Rightarrow> f64) \<Rightarrow> (nat \<Rightarrow> bool) \<Rightarrow> nat \<Rightarrow> (nat \<Rightarrow> f64) \<Rightarrow> sampling_options \<Rightarrow> nat sampled" where
  "sample_logits exp_of polls len value_at options =
     and_then (validate_sampling len options) (\<lambda>_.
     if f64_eq (temperature options) zero64 then sample_greedy polls len value_at
     else let filtered = (case top_k options of Some k \<Rightarrow> k < len | None \<Rightarrow> False) in
       if \<not> filtered \<and> \<not> f64_lt (top_p options) one64
       then sample_unfiltered exp_of polls len value_at options
       else sample_filtered exp_of polls len value_at options)"

text \<open>The distribution itself. Its polls differ from those of the draw by one before the sort.\<close>

definition effective_probabilities ::
    "(f64 \<Rightarrow> f64) \<Rightarrow> (nat \<Rightarrow> bool) \<Rightarrow> nat \<Rightarrow> (nat \<Rightarrow> f64) \<Rightarrow> sampling_options \<Rightarrow> f64 list sampled" where
  "effective_probabilities exp_of polls len value_at options =
     and_then (validate_sampling len options) (\<lambda>_.
     if f64_eq (temperature options) zero64
     then and_then (sample_logits exp_of polls len value_at options) (\<lambda>token.
       if token < len then Ok ((replicate len zero64)[token := one64]) else Panic)
     else and_then (fold_outcome (candidate_step polls value_at) (0, []) [0..<len]) (\<lambda>(t, candidates).
     and_then (poll_flag polls t) (\<lambda>t.
     let candidates = sort (keep_top (top_k options) candidates) in
     and_then (poll_flag polls t) (\<lambda>t.
     and_then (ranked_prefix exp_of polls t options candidates) (\<lambda>(t, candidates, weights, retained, mass).
     if retained \<le> length candidates
     then fold_outcome (\<lambda>row (c, weight).
         if cand_token c < len then Ok (row[cand_token c := f64_div weight mass]) else Panic)
       (replicate len zero64) (zip (take retained candidates) weights)
     else Panic)))))"

section \<open>Sampling from weights\<close>

definition mass_step :: "(nat \<Rightarrow> bool) \<Rightarrow> nat \<times> f64 \<Rightarrow> nat \<times> f64 \<Rightarrow> (nat \<times> f64) sampled" where
  "mass_step polls s entry = (case s of (t, mass) \<Rightarrow> (case entry of (index, p) \<Rightarrow>
     and_then (poll_every polls index t) (\<lambda>t.
     if \<not> f64_is_finite p \<or> f64_lt p zero64 then Err (BadProbability index)
     else Ok (t, f64_add mass p))))"

fun weight_scan :: "f64 \<Rightarrow> (nat \<times> f64) list \<Rightarrow> nat option" where
  "weight_scan draw [] = None"
| "weight_scan draw ((token, p) # rest) =
     (let draw = f64_sub draw p in if f64_lt draw zero64 then Some token else weight_scan draw rest)"

definition sample_with_draw :: "(nat \<Rightarrow> bool) \<Rightarrow> f64 list \<Rightarrow> f64 \<Rightarrow> nat sampled" where
  "sample_with_draw polls probabilities unit_draw =
     (if probabilities = [] \<or> length probabilities > u32_max then Err BadRow
      else and_then (fold_outcome (mass_step polls) (0, zero64) (enumerate 0 probabilities)) (\<lambda>(_, mass).
      if \<not> f64_is_finite mass \<or> f64_le mass zero64 then Err NoMass
      else (case weight_scan (f64_mul unit_draw mass) (enumerate 0 probabilities) of
          Some token \<Rightarrow> Ok token
        | None \<Rightarrow> Ok (length probabilities - 1))))"

definition sample_probabilities :: "(nat \<Rightarrow> bool) \<Rightarrow> f64 list \<Rightarrow> 64 word \<Rightarrow> 64 word \<Rightarrow> nat sampled" where
  "sample_probabilities polls probabilities seed counter =
     sample_with_draw polls probabilities (random_unit seed counter)"

definition sample_probabilities_at :: "(nat \<Rightarrow> bool) \<Rightarrow> f64 list \<Rightarrow> sampling_coordinate \<Rightarrow> nat sampled" where
  "sample_probabilities_at polls probabilities c = sample_with_draw polls probabilities (random_unit_at c)"

section \<open>Speculative acceptance\<close>

datatype acceptance = Accepted | Rejected nat

definition target_sample_match ::
    "(nat \<Rightarrow> bool) \<Rightarrow> f64 list \<Rightarrow> nat \<Rightarrow> sampling_coordinate \<Rightarrow> acceptance sampled" where
  "target_sample_match polls target candidate c =
     (if candidate \<ge> length target then Err OutsideVocabulary
      else and_then (sample_probabilities_at polls target c) (\<lambda>drawn.
        if drawn = candidate then Ok Accepted else Ok (Rejected drawn)))"

definition rejection_sample ::
    "(nat \<Rightarrow> bool) \<Rightarrow> f64 list \<Rightarrow> f64 list \<Rightarrow> nat \<Rightarrow> 64 word \<Rightarrow> 64 word \<Rightarrow> acceptance sampled" where
  "rejection_sample polls target proposal candidate seed place =
     (if length target \<noteq> length proposal \<or> target = [] then Err VocabulariesDiffer
      else (case (nth_opt target candidate, nth_opt proposal candidate) of
          (Some p, Some q) \<Rightarrow>
            if \<not> f64_is_finite q \<or> f64_le q zero64 \<or> \<not> f64_is_finite p \<or> f64_lt p zero64 then Err BadCandidate
            else if f64_le q p \<or> f64_lt (random_unit seed (purpose_counter place Accept 0)) (f64_div p q)
            then Ok Accepted
            else and_then (sample_probabilities polls (map2 (\<lambda>p q. f64_max_zero (f64_sub p q)) target proposal)
                seed (purpose_counter place Residual 0)) (\<lambda>token. Ok (Rejected token))
        | _ \<Rightarrow> Err OutsideVocabulary))"

section \<open>Rounding\<close>

text \<open>A number with at most 53 significant bits is not changed by rounding.\<close>

lemma round_f64_exact:
  assumes "i < 2 ^ 53" "k \<le> e" "e - k < 2045"
  shows "round_f64 s (i * 2 ^ e) k = Finite64 s (i * 2 ^ (e - k))"
proof -
  define sh where "sh = max (bit_length (i * 2 ^ e) - 53) k"
  have "bit_length (i * 2 ^ e) \<le> 53 + e" using assms(1) by (simp add: bit_length_le power_add)
  then have sh: "sh \<le> e" "k \<le> sh" using assms(2) by (auto simp: sh_def)
  then have "i * 2 ^ e = i * 2 ^ (e - sh) * 2 ^ sh" by (simp flip: power_add)
  then have "nearest (i * 2 ^ e) sh = i * 2 ^ (e - sh)" by (simp only: nearest_exact)
  then have m: "nearest (i * 2 ^ e) sh * 2 ^ (sh - k) = i * 2 ^ (e - k)"
    using sh by (simp flip: power_add)
  have "i * 2 ^ (e - k) < 2 ^ 53 * 2 ^ (e - k)" using assms(1) by simp
  also have "\<dots> = (2 :: nat) ^ (53 + (e - k))" by (simp add: power_add)
  also have "\<dots> \<le> 2 ^ 2098" by (rule power_increasing) (use assms(3) in simp_all)
  finally have "\<not> 2 ^ 2098 \<le> i * 2 ^ (e - k)" by linarith
  then show ?thesis unfolding round_f64_def sh_def [symmetric] Let_def m by simp
qed

section \<open>Random numbers\<close>

lemma xorshift_inject:
  fixes v w :: "'a :: len word"
  assumes "v XOR drop_bit k v = w XOR drop_bit k w" "0 < k"
  shows "v = w"
proof (rule bit_word_eqI)
  fix n
  show "bit v n \<longleftrightarrow> bit w n"
  proof (induction "LENGTH('a) - n" arbitrary: n rule: less_induct)
    case less
    show ?case
    proof (cases "n < LENGTH('a)")
      case True
      then have "bit v (n + k) \<longleftrightarrow> bit w (n + k)" using less assms(2) by simp
      moreover have "bit (v XOR drop_bit k v) n \<longleftrightarrow> bit (w XOR drop_bit k w) n" by (simp only: assms(1))
      ultimately show ?thesis by (auto simp: bit_simps add.commute)
    qed (auto dest: bit_imp_le_length)
  qed
qed

lemma word_mult_inject:
  fixes v w c d :: "'a :: len word"
  assumes "v * c = w * c" "c * d = 1"
  shows "v = w"
proof -
  have "v * (c * d) = w * (c * d)" using assms(1) by (simp only: mult.assoc [symmetric])
  then show ?thesis by (simp add: assms(2))
qed

lemma odd_multipliers:
  "(0xbf58476d1ce4e5b9 :: 64 word) * 0x96de1b173f119089 = 1"
  "(0x94d049bb133111eb :: 64 word) * 0x319642b2d24d8ec3 = 1"
  "golden * 0xf1de83e19937733d = 1"
  by (simp_all add: golden_def)

lemma finalize_inject: "finalize v = finalize w \<longleftrightarrow> v = w"
  unfolding finalize_def Let_def
  by (metis xorshift_inject odd_multipliers(1,2) word_mult_inject zero_less_numeral)

lemma golden_inject: "v * golden = w * golden \<longleftrightarrow> v = w"
  using word_mult_inject odd_multipliers(3) by blast

lemma purpose_code_inject: "purpose_code p = purpose_code q \<longleftrightarrow> p = q"
  by (cases p; cases q) simp_all

lemma xor_inject:
  fixes u v w :: "64 word"
  shows "v XOR u = w XOR u \<longleftrightarrow> v = w" "u XOR v = u XOR w \<longleftrightarrow> v = w"
  by (auto simp: bit_eq_iff bit_simps)

lemma random_bits_bound: "random_bits seed counter < 2 ^ 53"
proof -
  have "unat (drop_bit 11 v) < 2 ^ 53" for v :: "64 word"
  proof -
    have "unat v < 2 ^ 64" using unsigned_less [of v] by simp
    moreover have "unat (drop_bit 11 v) = unat v div 2 ^ 11" 
      using calculation by (simp only: unsigned_drop_bit_eq drop_bit_eq_div [where ?'a = nat]) (simp add: take_bit_eq_mod)
    ultimately show ?thesis by (simp add: less_mult_imp_div_less)
  qed
  then show ?thesis by (simp only: random_bits_def)
qed

lemma random_unit_eq: "random_unit seed counter = Finite64 False (random_bits seed counter * 2 ^ 1021)"
proof -
  let ?k = "random_bits seed counter"
  have "f64_of_int (int ?k) = Finite64 False (?k * 2 ^ 1074)"
    unfolding f64_of_int_def using round_f64_exact [OF random_bits_bound, of 0 1074 False seed counter] by simp
  then have "random_unit seed counter = round_f64 False (?k * 2 ^ 1074 * 2 ^ 1021) 1074"
    by (simp add: random_unit_def del: mult_numeral_left_semiring_numeral power_numeral)
  also have "?k * 2 ^ 1074 * 2 ^ 1021 = ?k * 2 ^ 2095" by (simp only: mult.assoc power_add [symmetric]) simp
  finally show ?thesis
    using round_f64_exact [OF random_bits_bound, of 1074 2095 False seed counter] by simp
qed


section \<open>Outcomes of the scans\<close>

text \<open>The result satisfies the one predicate or the error the other, without a panic.\<close>

definition settles :: "('e \<Rightarrow> bool) \<Rightarrow> ('a \<Rightarrow> bool) \<Rightarrow> ('a, 'e) outcome \<Rightarrow> bool" where
  "settles E P m = (case m of Ok x \<Rightarrow> P x | Err e \<Rightarrow> E e | Panic \<Rightarrow> False)"

lemma settles_simps [simp]:
  "settles E P (Ok x) \<longleftrightarrow> P x" "settles E P (Err e) \<longleftrightarrow> E e" "\<not> settles E P Panic"
  by (simp_all add: settles_def)

lemma settles_bind:
  "settles E P m \<Longrightarrow> (\<And>x. P x \<Longrightarrow> settles E Q (f x)) \<Longrightarrow> settles E Q (and_then m f)"
  by (cases m) simp_all

lemma settles_fold:
  "I s \<Longrightarrow> (\<And>s x. x \<in> set xs \<Longrightarrow> I s \<Longrightarrow> settles E I (f s x)) \<Longrightarrow> settles E I (fold_outcome f s xs)"
  unfolding settles_def by (rule fold_outcome_case)

lemma settles_upto:
  "P 0 s \<Longrightarrow> (\<And>k s. k < n \<Longrightarrow> P k s \<Longrightarrow> settles E (P (Suc k)) (f s k)) \<Longrightarrow>
    settles E (P n) (fold_outcome f s [0..<n])"
  unfolding settles_def by (rule fold_outcome_upto)

lemma settles_mono: "settles E P m \<Longrightarrow> (\<And>e. E e \<Longrightarrow> E' e) \<Longrightarrow> (\<And>x. P x \<Longrightarrow> Q x) \<Longrightarrow> settles E' Q m"
  by (cases m) simp_all

text \<open>A scan of logits fails only where a poll fires or at a logit that is not finite.\<close>

definition scan_failure :: "(nat \<Rightarrow> bool) \<Rightarrow> (nat \<Rightarrow> f64) \<Rightarrow> nat \<Rightarrow> sampling_error \<Rightarrow> bool" where
  "scan_failure polls value_at len e \<longleftrightarrow>
     e = Aborted \<and> (\<exists>t. polls t) \<or> (\<exists>i < len. e = NotFinite i \<and> \<not> f64_is_finite (value_at i))"

lemma poll_settles:
  "settles (scan_failure polls value_at len) (\<lambda>_. True) (poll_flag polls t)"
  "settles (scan_failure polls value_at len) (\<lambda>_. True) (poll_every polls i t)"
  by (auto simp: poll_flag_def poll_every_def scan_failure_def)

lemma add_step_settles: "settles (scan_failure polls value_at len) (\<lambda>_. True) (add_step polls s x)"
  by (cases s; cases x) (auto simp: add_step_def intro!: settles_bind [OF poll_settles(2)])

lemma add_steps_settle: "settles (scan_failure polls value_at len) (\<lambda>_. True) (fold_outcome (add_step polls) s xs)"
  by (rule settles_fold) (simp_all add: add_step_settles)

lemma draw_scan_settles:
  "settles (scan_failure polls value_at len) (\<lambda>found. \<forall>i. found = Some i \<longrightarrow> i \<in> fst ` set entries)
     (draw_scan polls t draw entries)"
proof (induction entries arbitrary: t draw)
  case (Cons entry entries)
  obtain i w where [simp]: "entry = (i, w)" by (cases entry)
  have "settles (scan_failure polls value_at len) (\<lambda>found. \<forall>j. found = Some j \<longrightarrow> j \<in> fst ` set (entry # entries))
      (draw_scan polls u rest entries)" for u rest
    by (rule settles_mono [OF Cons.IH]) auto
  then show ?case by (auto simp: Let_def intro!: settles_bind [OF poll_settles(2)])
qed simp

text \<open>The order of finite numbers.\<close>

fun scaled_value :: "f64 \<Rightarrow> int" where
  "scaled_value (Finite64 s m) = signed s m"
| "scaled_value _ = 0"

lemma finite_order:
  assumes "f64_is_finite x" "f64_is_finite y"
  shows "f64_le x y \<longleftrightarrow> scaled_value x \<le> scaled_value y" "f64_lt x y \<longleftrightarrow> scaled_value x < scaled_value y"
  using assms by (cases x; cases y; auto simp: f64_lt_def)+

lemma lowest_lt: "f64_is_finite x \<Longrightarrow> f64_lt (Infinite64 True) x"
  by (cases x) (simp_all add: f64_lt_def)

section \<open>Greedy choice\<close>

definition first_maximum :: "(nat \<Rightarrow> f64) \<Rightarrow> nat \<Rightarrow> nat \<Rightarrow> bool" where
  "first_maximum value_at n i \<longleftrightarrow> i < n \<and> (\<forall>j < n. f64_le (value_at j) (value_at i)) \<and>
     (\<forall>j < i. f64_lt (value_at j) (value_at i))"

definition greedy_inv :: "(nat \<Rightarrow> f64) \<Rightarrow> nat \<Rightarrow> nat \<times> f64 \<times> nat \<Rightarrow> bool" where
  "greedy_inv value_at n s = (case s of (_, best, selected) \<Rightarrow>
     (\<forall>i < n. f64_is_finite (value_at i)) \<and>
     (if n = 0 then best = Infinite64 True else best = value_at selected \<and> first_maximum value_at n selected))"

lemma first_maximum_step:
  assumes "first_maximum value_at n i" "\<forall>j < n. f64_is_finite (value_at j)" "f64_is_finite (value_at n)"
  shows "first_maximum value_at (Suc n) (if f64_lt (value_at i) (value_at n) then n else i)"
  using assms by (auto simp: first_maximum_def finite_order less_Suc_eq)

lemma greedy_step_settles:
  assumes "greedy_inv value_at n s" "n < len"
  shows "settles (scan_failure polls value_at len) (greedy_inv value_at (Suc n)) (greedy_step polls value_at s n)"
proof -
  obtain t best selected where s: "s = (t, best, selected)" by (cases s)
  have "greedy_inv value_at (Suc n) (u, if f64_lt best (value_at n) then value_at n else best,
      if f64_lt best (value_at n) then n else selected)" if "f64_is_finite (value_at n)" for u
  proof (cases "n = 0")
    case True
    with assms that show ?thesis
      by (auto simp: greedy_inv_def s lowest_lt first_maximum_def finite_order)
  next
    case False
    with assms that first_maximum_step [of value_at n selected] show ?thesis
      by (auto simp: greedy_inv_def s less_Suc_eq)
  qed
  then show ?thesis
    using assms(2) unfolding greedy_step_def s prod.case Let_def
    by (intro settles_bind [OF poll_settles(2)]) (auto simp: scan_failure_def split: if_splits)
qed

lemma sample_greedy_settles:
  "settles (scan_failure polls value_at len)
     (\<lambda>token. (\<forall>i < len. f64_is_finite (value_at i)) \<and> (0 < len \<longrightarrow> first_maximum value_at len token))
     (sample_greedy polls len value_at)"
  unfolding sample_greedy_def
  by (rule settles_bind [OF settles_upto [where P = "greedy_inv value_at"]])
    (auto simp: greedy_inv_def greedy_step_settles)


section \<open>Draws over all tokens\<close>

lemma sample_unfiltered_settles:
  assumes "0 < len"
  shows "settles (scan_failure polls value_at len)
     (\<lambda>token. (\<forall>i < len. f64_is_finite (value_at i)) \<and> token < len)
     (sample_unfiltered exp_of polls len value_at options)"
  unfolding sample_unfiltered_def
proof (rule settles_bind [OF settles_upto [where P = "\<lambda>n _. \<forall>i < n. f64_is_finite (value_at i)"]], goal_cases)
  case (2 k s)
  then show ?case
    by (cases s) (auto simp: max_step_def scan_failure_def less_Suc_eq intro!: settles_bind [OF poll_settles(2)])
next
  case (3 x)
  obtain t most where x: "x = (t, most)" by (cases x)
  show ?case
    unfolding x prod.case Let_def
    by (rule settles_bind [OF add_steps_settle], unfold split_beta, rule settles_bind [OF draw_scan_settles])
      (use 3 assms in \<open>auto split: option.split\<close>)
qed simp

section \<open>Draws over candidates\<close>

definition all_candidates :: "(nat \<Rightarrow> f64) \<Rightarrow> nat \<Rightarrow> candidate list" where
  "all_candidates value_at len = map (\<lambda>i. Candidate i (value_at i)) [0..<len]"

text \<open>The number of candidates that top-k keeps.\<close>

definition kept :: "nat option \<Rightarrow> nat \<Rightarrow> nat" where
  "kept k len = (case k of Some k \<Rightarrow> min k len | None \<Rightarrow> len)"

lemma candidates_settle:
  "settles (scan_failure polls value_at len)
     (\<lambda>(_, candidates). (\<forall>i < len. f64_is_finite (value_at i)) \<and> candidates = all_candidates value_at len)
     (fold_outcome (candidate_step polls value_at) (0, []) [0..<len])"
proof (rule settles_upto [where P = "\<lambda>n (_, candidates).
      (\<forall>i < n. f64_is_finite (value_at i)) \<and> candidates = all_candidates value_at n"], goal_cases)
  case (2 k s)
  then show ?case
    by (cases s) (auto simp: candidate_step_def scan_failure_def all_candidates_def less_Suc_eq
        intro!: settles_bind [OF poll_settles(2)])
qed (simp add: all_candidates_def)

lemma sort_keep_top:
  "sort (keep_top k (all_candidates value_at len)) = take (kept k len) (sort (all_candidates value_at len))"
  by (auto simp: keep_top_def kept_def all_candidates_def sorted_wrt_take sorted_sort_id min_def split: option.split)

lemma distinct_candidates: "distinct (all_candidates value_at len)"
  by (simp add: all_candidates_def distinct_map inj_on_def)

text \<open>The candidate at a place of the sorted list has that many candidates before it.\<close>

lemma sorted_rank:
  fixes xs :: "'a :: linorder list"
  assumes "distinct xs" "i < length xs"
  shows "card {x \<in> set xs. x < sort xs ! i} = i"
proof -
  let ?ys = "sort xs"
  have ys: "sorted ?ys" "distinct ?ys" "i < length ?ys" using assms by simp_all
  have "{x \<in> set xs. x < ?ys ! i} = set (take i ?ys)"
  proof
    show "{x \<in> set xs. x < ?ys ! i} \<subseteq> set (take i ?ys)"
    proof
      fix x assume "x \<in> {x \<in> set xs. x < ?ys ! i}"
      then have "x \<in> set ?ys" "x < ?ys ! i" by simp_all
      then obtain j where j: "j < length ?ys" "x = ?ys ! j" "?ys ! j < ?ys ! i" by (metis in_set_conv_nth)
      then have "j < i" using sorted_nth_mono [OF ys(1), of i j] by (meson leD leI)
      with j ys show "x \<in> set (take i ?ys)" by (auto simp: in_set_conv_nth)
    qed
    show "set (take i ?ys) \<subseteq> {x \<in> set xs. x < ?ys ! i}"
    proof
      fix x assume "x \<in> set (take i ?ys)"
      then obtain j where j: "j < i" "x = ?ys ! j" using ys by (auto simp: in_set_conv_nth)
      then have "x \<le> ?ys ! i" "x \<noteq> ?ys ! i" "x \<in> set ?ys"
        using sorted_nth_mono [OF ys(1), of j i] nth_eq_iff_index_eq [OF ys(2), of j i] ys(3) nth_mem [of j ?ys]
        by auto
      then show "x \<in> {x \<in> set xs. x < ?ys ! i}" by simp
    qed
  qed
  then show ?thesis using ys by (simp add: distinct_card)
qed


lemma nucleus_settles:
  "settles (scan_failure polls value_at len)
     (\<lambda>(_, found). \<forall>retained mass. found = Some (retained, mass) \<longrightarrow> (\<exists>i \<in> fst ` set entries. retained = i + 1))
     (nucleus polls t threshold cumulative entries)"
proof (induction entries arbitrary: t cumulative)
  case (Cons entry entries)
  have "settles (scan_failure polls value_at len)
      (\<lambda>(_, found). \<forall>retained mass. found = Some (retained, mass) \<longrightarrow>
        (\<exists>i \<in> fst ` set (entry # entries). retained = i + 1))
      (nucleus polls u threshold sum entries)" for u sum
    by (rule settles_mono [OF Cons.IH]) auto
  then show ?case by (cases entry) (auto simp: Let_def intro!: settles_bind [OF poll_settles(2)])
qed simp

lemma retain_top_p_settles:
  assumes "weights \<noteq> []"
  shows "settles (scan_failure polls value_at len)
     (\<lambda>(_, retained, _). 0 < retained \<and> retained \<le> length weights)
     (retain_top_p polls options t mass weights)"
  unfolding retain_top_p_def
  by (auto simp: assms intro!: settles_bind [OF nucleus_settles] split: option.split)

lemma ranked_settles:
  assumes "candidates \<noteq> []"
  shows "settles (scan_failure polls value_at len)
     (\<lambda>(_, cs, weights, retained, _). cs = candidates \<and> length weights = length candidates \<and>
        0 < retained \<and> retained \<le> length candidates)
     (ranked_prefix exp_of polls t options candidates)"
proof -
  have head: "expect (nth_opt candidates 0) = (Ok (hd candidates) :: (candidate, sampling_error) outcome)"
    using assms by (cases candidates) (simp_all add: nth_opt_def expect_def)
  show ?thesis
    unfolding ranked_prefix_def head and_then.simps Let_def
    by (rule settles_bind [OF add_steps_settle], unfold split_beta, rule settles_bind [OF retain_top_p_settles])
      (use assms in auto)
qed

text \<open>A draw from the candidates takes one of those that top-k keeps.\<close>

lemma sample_filtered_settles:
  assumes "0 < len" "\<And>k. top_k options = Some k \<Longrightarrow> 0 < k"
  shows "settles (scan_failure polls value_at len)
     (\<lambda>token. (\<forall>i < len. f64_is_finite (value_at i)) \<and>
        (\<exists>i < kept (top_k options) len. token = cand_token (sort (all_candidates value_at len) ! i)))
     (sample_filtered exp_of polls len value_at options)"
proof -
  let ?cs = "take (kept (top_k options) len) (sort (all_candidates value_at len))"
  have len: "length ?cs = kept (top_k options) len"
    by (auto simp: all_candidates_def kept_def split: option.split)
  moreover have "0 < kept (top_k options) len" using assms by (auto simp: kept_def split: option.split)
  ultimately have ne: "?cs \<noteq> []" by (metis length_greater_0_conv)
  have drawn: "settles (scan_failure polls value_at len) (\<lambda>token. \<exists>i < length ?cs. token = cand_token (?cs ! i))
      (and_then (draw_scan polls t draw (enumerate 0 (take retained weights)))
       (\<lambda>found. (case found of
          Some index \<Rightarrow> and_then (expect (nth_opt ?cs index)) (\<lambda>c. Ok (cand_token c))
        | None \<Rightarrow> and_then (expect (checked_sub retained 1)) (\<lambda>end_index.
            and_then (expect (nth_opt ?cs end_index)) (\<lambda>c. Ok (cand_token c))))))"
    if "0 < retained" "retained \<le> length ?cs" "length weights = length ?cs"
    for t draw retained and weights :: "f64 list"
    using that by (intro settles_bind [OF draw_scan_settles])
      (auto split: option.split simp: nth_opt_def checked_sub_def expect_def Suc_le_eq image_iff)
  show ?thesis
    unfolding sample_filtered_def
  proof (rule settles_bind [OF candidates_settle], clarify, unfold Let_def sort_keep_top,
      rule settles_bind [OF poll_settles(1)], rule settles_bind [OF poll_settles(1)],
      rule settles_bind [OF poll_settles(1)], rule settles_bind [OF ranked_settles [OF ne]], clarify)
    fix t :: nat and weights :: "f64 list" and retained and mass :: f64
    assume finite: "\<forall>i < len. f64_is_finite (value_at i)"
      and r: "length weights = length ?cs" "0 < retained" "retained \<le> length ?cs"
    show "settles (scan_failure polls value_at len)
        (\<lambda>token. (\<forall>i < len. f64_is_finite (value_at i)) \<and>
          (\<exists>i < kept (top_k options) len. token = cand_token (sort (all_candidates value_at len) ! i)))
        (and_then (draw_scan polls t (f64_mul (random_unit (option_seed options) (option_counter options)) mass)
            (enumerate 0 (take retained weights)))
         (\<lambda>found. (case found of
            Some index \<Rightarrow> and_then (expect (nth_opt ?cs index)) (\<lambda>c. Ok (cand_token c))
          | None \<Rightarrow> and_then (expect (checked_sub retained 1)) (\<lambda>end_index.
              and_then (expect (nth_opt ?cs end_index)) (\<lambda>c. Ok (cand_token c))))))"
      by (rule settles_mono [OF drawn [OF r(2,3,1)]]) (use finite len in auto)
  qed
qed


section \<open>The whole draw\<close>

lemma validate_sampling_Ok:
  "validate_sampling len options = Ok () \<Longrightarrow>
    0 < len \<and> len \<le> max_sampling_vocabulary \<and> (\<forall>k. top_k options = Some k \<longrightarrow> 0 < k \<and> k \<le> len)"
  by (auto simp: validate_sampling_def split: if_splits option.splits)

lemma validate_sampling_total: "validate_sampling len options \<noteq> Panic"
  by (auto simp: validate_sampling_def split: option.split)

text \<open>The tokens whose logit is larger, or equal at a smaller place.\<close>

definition preferred :: "(nat \<Rightarrow> f64) \<Rightarrow> nat \<Rightarrow> nat \<Rightarrow> nat set" where
  "preferred value_at len token =
     {i. i < len \<and> (f64_lt (value_at token) (value_at i) \<or> value_at i = value_at token \<and> i < token)}"

lemma preferred_order:
  assumes "f64_is_finite x" "f64_is_finite y" "f64_lt x y \<or> y = x \<and> i < j"
  shows "Candidate i y < Candidate j x"
  using assms by (cases x; cases y) (auto simp: finite_order less_candidate_def cand_key_def signed_def split: if_splits)

lemma preferred_rank:
  assumes "\<forall>i < len. f64_is_finite (value_at i)" "r < len"
    "token = cand_token (sort (all_candidates value_at len) ! r)"
  shows "token < len" "card (preferred value_at len token) \<le> r"
proof -
  let ?cs = "all_candidates value_at len"
  have r: "r < length ?cs" using assms(2) by (simp add: all_candidates_def)
  then have "sort ?cs ! r \<in> set ?cs" using nth_mem [of r "sort ?cs"] by simp
  then have c: "sort ?cs ! r = Candidate token (value_at token)" and len: "token < len"
    using assms(3) by (auto simp: all_candidates_def)
  show "token < len" by (rule len)
  have sub: "(\<lambda>i. Candidate i (value_at i)) ` preferred value_at len token \<subseteq> {c \<in> set ?cs. c < sort ?cs ! r}"
    unfolding c using assms(1) len by (auto simp: preferred_def all_candidates_def intro!: preferred_order)
  have "card ((\<lambda>i. Candidate i (value_at i)) ` preferred value_at len token) \<le> r"
    using card_mono [OF _ sub] sorted_rank [OF distinct_candidates r] by simp
  then show "card (preferred value_at len token) \<le> r" by (simp add: card_image inj_on_def)
qed

lemma f64_lt_irrefl: "\<not> f64_lt x x"
  by (cases x) (simp_all add: f64_lt_def)

lemma preferred_bound:
  assumes "token < len"
  shows "card (preferred value_at len token) < len"
proof -
  have "preferred value_at len token \<subseteq> {..<len} - {token}" by (auto simp: preferred_def f64_lt_irrefl)
  then have "card (preferred value_at len token) \<le> card ({..<len} - {token})" by (simp add: card_mono)
  also have "\<dots> < len" using assms by simp
  finally show ?thesis .
qed

definition chosen :: "sampling_options \<Rightarrow> (nat \<Rightarrow> f64) \<Rightarrow> nat \<Rightarrow> nat \<Rightarrow> bool" where
  "chosen options value_at len token \<longleftrightarrow>
     (if f64_eq (temperature options) zero64 then first_maximum value_at len token
      else card (preferred value_at len token) < kept (top_k options) len)"

lemma sample_logits_settles:
  "settles (\<lambda>e. validate_sampling len options = Err e \<or> scan_failure polls value_at len e)
     (\<lambda>token. validate_sampling len options = Ok () \<and> (\<forall>i < len. f64_is_finite (value_at i)) \<and>
        token < len \<and> chosen options value_at len token)
     (sample_logits exp_of polls len value_at options)"
proof (cases "validate_sampling len options = Ok ()")
  case True
  note valid = validate_sampling_Ok [OF True]
  have kept: "0 < kept (top_k options) len" "kept (top_k options) len \<le> len"
    using valid by (auto simp: kept_def split: option.split)
  show ?thesis
  proof (cases "f64_eq (temperature options) zero64")
    case greedy: True
    show ?thesis
      unfolding sample_logits_def True and_then.simps if_P [OF greedy]
      by (rule settles_mono [OF sample_greedy_settles])
        (use valid greedy True in \<open>auto simp: chosen_def first_maximum_def\<close>)
  next
    case random: False
    let ?filtered = "case top_k options of Some k \<Rightarrow> k < len | None \<Rightarrow> False"
    show ?thesis
    proof (cases "\<not> ?filtered \<and> \<not> f64_lt (top_p options) one64")
      case plain: True
      then have "kept (top_k options) len = len" using valid by (auto simp: kept_def split: option.splits)
      then show ?thesis
        unfolding sample_logits_def True and_then.simps if_not_P [OF random] Let_def if_P [OF plain]
        by (intro settles_mono [OF sample_unfiltered_settles])
          (use valid random preferred_bound True in \<open>auto simp: chosen_def\<close>)
    next
      case ranked: False
      show ?thesis
        unfolding sample_logits_def True and_then.simps if_not_P [OF random] Let_def if_not_P [OF ranked]
      proof (rule settles_mono [OF sample_filtered_settles], goal_cases)
        case (4 token)
        then obtain r where r: "r < kept (top_k options) len"
          "token = cand_token (sort (all_candidates value_at len) ! r)" "\<forall>i < len. f64_is_finite (value_at i)" by blast
        then show ?case
          using preferred_rank [OF r(3) _ r(2)] kept random True unfolding chosen_def by auto
      qed (use valid in auto)
    qed
  qed
next
  case False
  then obtain e where "validate_sampling len options = Err e"
    using validate_sampling_total by (metis (full_types) old.unit.exhaust outcome.exhaust)
  then show ?thesis by (simp add: sample_logits_def)
qed


section \<open>The distribution\<close>

text \<open>Entries of a row that are written are those of the given tokens.\<close>

lemma write_row_settles:
  assumes "\<forall>c \<in> set cs. cand_token c < len"
  shows "settles E (\<lambda>row. length row = len \<and> (\<forall>i < len. i \<notin> cand_token ` set cs \<longrightarrow> row ! i = zero64))
     (fold_outcome (\<lambda>row (c, weight).
         if cand_token c < len then Ok (row[cand_token c := f64_div weight mass]) else Panic)
       (replicate len zero64) (zip cs weights))"
proof (rule settles_fold, simp, clarify)
  fix row c and weight :: f64
  assume "(c, weight) \<in> set (zip cs weights)"
    and row: "len = length row" "\<forall>i < length row. i \<notin> cand_token ` set cs \<longrightarrow> row ! i = zero64"
  then have "c \<in> set cs" by (simp add: set_zip_leftD)
  with assms row show "settles E (\<lambda>row'. length row' = length row \<and>
      (\<forall>i < length row. i \<notin> cand_token ` set cs \<longrightarrow> row' ! i = zero64))
    (if cand_token c < length row then Ok (row[cand_token c := f64_div weight mass]) else Panic)"
    by (auto simp: nth_list_update)
qed

text \<open>The places of a row that are not zero.\<close>

definition support :: "f64 list \<Rightarrow> nat set" where
  "support row = {i. i < length row \<and> row ! i \<noteq> zero64}"

lemma effective_probabilities_settles:
  "settles (\<lambda>e. validate_sampling len options = Err e \<or> scan_failure polls value_at len e)
     (\<lambda>row. validate_sampling len options = Ok () \<and> (\<forall>i < len. f64_is_finite (value_at i)) \<and>
        length row = len \<and> card (support row) \<le> kept (top_k options) len)
     (effective_probabilities exp_of polls len value_at options)"
proof (cases "validate_sampling len options = Ok ()")
  case True
  note valid = validate_sampling_Ok [OF True]
  have kept: "0 < kept (top_k options) len" using valid by (auto simp: kept_def split: option.split)
  show ?thesis
  proof (cases "f64_eq (temperature options) zero64")
    case greedy: True
    have one: "card (support ((replicate len zero64)[token := one64])) \<le> 1" for token
    proof -
      have "support ((replicate len zero64)[token := one64]) \<subseteq> {token}"
        by (auto simp: support_def) (metis nth_list_update_neq nth_replicate)
      from card_mono [OF _ this] show ?thesis by simp
    qed
    show ?thesis
      unfolding effective_probabilities_def True and_then.simps if_P [OF greedy]
    proof (rule settles_bind [OF settles_mono [OF sample_logits_settles, where Q = "\<lambda>token.
        (\<forall>i < len. f64_is_finite (value_at i)) \<and> token < len"]], goal_cases)
      case (3 token)
      then show ?case using one [of token] kept by simp
    qed (use True in auto)
  next
    case random: False
    let ?cs = "take (kept (top_k options) len) (sort (all_candidates value_at len))"
    have "0 < length ?cs" using kept valid by (simp add: all_candidates_def)
    then have ne: "?cs \<noteq> []" by (metis length_greater_0_conv)
    have tokens: "\<forall>c \<in> set ?cs. cand_token c < len"
    proof
      fix c assume "c \<in> set ?cs"
      then have "c \<in> set (all_candidates value_at len)" by (metis in_set_takeD set_sort)
      then show "cand_token c < len" by (auto simp: all_candidates_def)
    qed
    have count: "card (support row) \<le> kept (top_k options) len"
      if "length row = len" "\<forall>i < len. i \<notin> cand_token ` set (take retained ?cs) \<longrightarrow> row ! i = zero64"
      for row retained
    proof -
      have "support row \<subseteq> cand_token ` set (take retained ?cs)" using that by (auto simp: support_def)
      then have "card (support row) \<le> card (cand_token ` set (take retained ?cs))" by (simp add: card_mono)
      also have "\<dots> \<le> card (set (take retained ?cs))" by (rule card_image_le) simp
      also have "\<dots> \<le> kept (top_k options) len" by (rule order_trans [OF card_length]) simp
      finally show ?thesis .
    qed
    show ?thesis
      unfolding effective_probabilities_def True and_then.simps if_not_P [OF random] Let_def
    proof (rule settles_mono [where E = "scan_failure polls value_at len"], rule settles_bind [OF candidates_settle],
        clarify, unfold sort_keep_top, rule settles_bind [OF poll_settles(1)],
        rule settles_bind [OF poll_settles(1)], rule settles_bind [OF ranked_settles [OF ne]], clarify)
      fix t :: nat and weights :: "f64 list" and retained and mass :: f64
      assume finite: "\<forall>i < len. f64_is_finite (value_at i)" and r: "retained \<le> length ?cs"
      have "\<forall>c \<in> set (take retained ?cs). cand_token c < len"
        using tokens by (meson in_set_takeD)
      then have "settles (scan_failure polls value_at len) (\<lambda>row. (\<forall>i < len. f64_is_finite (value_at i)) \<and>
          length row = len \<and> card (support row) \<le> kept (top_k options) len)
        (fold_outcome (\<lambda>row (c, weight).
            if cand_token c < len then Ok (row[cand_token c := f64_div weight mass]) else Panic)
          (replicate len zero64) (zip (take retained ?cs) weights))"
        by (rule settles_mono [OF write_row_settles]) (use finite count in auto)
      then show "settles (scan_failure polls value_at len) (\<lambda>row. (\<forall>i < len. f64_is_finite (value_at i)) \<and>
          length row = len \<and> card (support row) \<le> kept (top_k options) len)
        (if retained \<le> length ?cs
         then fold_outcome (\<lambda>row (c, weight).
            if cand_token c < len then Ok (row[cand_token c := f64_div weight mass]) else Panic)
          (replicate len zero64) (zip (take retained ?cs) weights)
         else Panic)"
        by (simp only: if_P [OF r])
    qed (use True in auto)
  qed
next
  case False
  then obtain e where "validate_sampling len options = Err e"
    using validate_sampling_total by (metis (full_types) old.unit.exhaust outcome.exhaust)
  then show ?thesis by (simp add: effective_probabilities_def)
qed

section \<open>Draws from weights\<close>

lemma round_not_negative: "\<not> f64_lt (round_f64 False n k) zero64"
  by (auto simp: round_f64_def Let_def f64_lt_def zero64_def signed_def)

text \<open>Only a positive weight turns the remaining mass negative.\<close>

lemma positive_step:
  assumes "\<not> f64_lt draw zero64" "f64_is_finite p" "\<not> f64_lt p zero64" "f64_lt (f64_sub draw p) zero64"
  shows "f64_lt zero64 p"
proof (rule ccontr)
  assume "\<not> f64_lt zero64 p"
  then obtain s where p: "p = Finite64 s 0"
    using assms(2,3) by (cases p) (auto simp: f64_lt_def zero64_def signed_def split: if_splits)
  show False
  proof (cases draw)
    case (Finite64 a m)
    with assms(1) have "0 \<le> signed a m" by (auto simp: f64_lt_def zero64_def signed_def split: if_splits)
    with assms(4) round_not_negative show False
      by (auto simp: Finite64 p f64_sub_def Let_def signed_def f64_lt_def zero64_def split: if_splits)
  qed (use assms(1,4) in \<open>auto simp: p f64_sub_def f64_lt_def zero64_def\<close>)
qed

lemma weight_scan_positive:
  assumes "weight_scan draw entries = Some i" "\<not> f64_lt draw zero64"
    "\<forall>(i, p) \<in> set entries. f64_is_finite p \<and> \<not> f64_lt p zero64"
  shows "\<exists>p. (i, p) \<in> set entries \<and> f64_lt zero64 p"
  using assms
proof (induction draw entries rule: weight_scan.induct)
  case (2 draw token p rest)
  then show ?case
    using positive_step [of draw p] by (cases "f64_lt (f64_sub draw p) zero64") (auto simp: Let_def)
qed simp

definition weights_ok :: "f64 list \<Rightarrow> bool" where
  "weights_ok ps \<longleftrightarrow> (\<forall>p \<in> set ps. f64_is_finite p \<and> \<not> f64_lt p zero64)"

definition drawable :: "f64 list \<Rightarrow> nat \<Rightarrow> bool" where
  "drawable ps token \<longleftrightarrow> token < length ps \<and> (f64_lt zero64 (ps ! token) \<or> token = length ps - 1)"

lemma product_not_negative:
  assumes "\<not> f64_is_nan u" "\<not> f64_lt u zero64" "f64_is_finite m" "f64_lt zero64 m"
  shows "\<not> f64_lt (f64_mul u m) zero64"
proof (cases "\<exists>s. u = Finite64 s 0")
  case True
  have "round_f64 s 0 1074 = Finite64 s 0" for s by (simp add: round_f64_def nearest_def Let_def)
  with True assms(3) show ?thesis by (cases m) (auto simp: f64_lt_def zero64_def signed_def split: if_splits)
next
  case False
  then show ?thesis
    using assms round_not_negative
    by (cases u; cases m) (auto simp: f64_lt_def zero64_def signed_def split: if_splits)
qed


lemma random_unit_not_negative: "\<not> f64_is_nan (random_unit seed counter)" "\<not> f64_lt (random_unit seed counter) zero64"
  by (simp_all add: random_unit_eq f64_lt_def zero64_def signed_def)

lemma mass_steps_settle:
  "settles (\<lambda>_. True) (\<lambda>_. \<forall>(i, p) \<in> set entries. f64_is_finite p \<and> \<not> f64_lt p zero64)
     (fold_outcome (mass_step polls) s entries)"
proof (induction entries arbitrary: s)
  case (Cons entry entries)
  obtain i p t m where [simp]: "entry = (i, p)" "s = (t, m)" by (cases entry; cases s)
  have "settles (\<lambda>_. True) (\<lambda>_. f64_is_finite p \<and> \<not> f64_lt p zero64) (mass_step polls s entry)"
    by (cases "poll_every polls i t") (auto simp: mass_step_def poll_every_def poll_flag_def split: if_splits)
  then show ?case
    by (auto intro!: settles_bind settles_mono [OF Cons.IH])
qed simp

lemma sample_with_draw_settles:
  assumes "\<not> f64_is_nan u" "\<not> f64_lt u zero64"
  shows "settles (\<lambda>_. True) (\<lambda>token. weights_ok ps \<and> drawable ps token) (sample_with_draw polls ps u)"
proof (cases "ps = [] \<or> length ps > u32_max")
  case False
  have mass: "settles (\<lambda>_. True) (\<lambda>_. weights_ok ps)
      (fold_outcome (mass_step polls) (0, zero64) (enumerate 0 ps))"
    by (rule settles_mono [OF mass_steps_settle]) (auto simp: weights_ok_def in_set_conv_nth ball_enumerate)
  show ?thesis
    unfolding sample_with_draw_def if_not_P [OF False]
  proof (rule settles_bind [OF mass], clarify)
    fix t :: nat and m
    assume ok: "weights_ok ps"
    show "settles (\<lambda>_. True) (\<lambda>token. weights_ok ps \<and> drawable ps token)
       (if \<not> f64_is_finite m \<or> f64_le m zero64 then Err NoMass
        else (case weight_scan (f64_mul u m) (enumerate 0 ps) of
            Some token \<Rightarrow> Ok token
          | None \<Rightarrow> Ok (length ps - 1)))"
    proof (cases "\<not> f64_is_finite m \<or> f64_le m zero64")
      case positive: False
      then have "f64_lt zero64 m" by (cases m) (auto simp: f64_lt_def zero64_def)
      with positive assms have "\<not> f64_lt (f64_mul u m) zero64" by (intro product_not_negative) auto
      then have scan: "drawable ps i" if "weight_scan (f64_mul u m) (enumerate 0 ps) = Some i" for i
        using weight_scan_positive [OF that] ok by (auto simp: weights_ok_def drawable_def ball_enumerate)
      show ?thesis
        using False positive ok scan
        by (cases "weight_scan (f64_mul u m) (enumerate 0 ps)") (auto simp: drawable_def)
    qed simp
  qed
qed (simp add: sample_with_draw_def)


text \<open>A token of the residual distribution is one that the target prefers.\<close>

lemma residual_positive:
  assumes "f64_is_finite (f64_max_zero (f64_sub p q))" "f64_lt zero64 (f64_max_zero (f64_sub p q))"
  shows "f64_lt q p"
proof -
  have neg: "f64_max_zero (round_f64 True n k) = Finite64 False 0" for n k
    by (simp add: round_f64_def Let_def)
  show ?thesis
    using assms
    by (cases p; cases q)
      (auto simp: neg f64_sub_def f64_lt_def zero64_def Let_def signed_def split: if_splits)
qed

section \<open>Examples\<close>

text \<open>Arithmetic on multiples of 2^-53, with the bits of the multiple counted.\<close>

definition units :: "nat \<Rightarrow> f64" where
  "units i = Finite64 False (i * 2 ^ 1021)"

lemma nearest_scaled: "nearest (i * 2 ^ e) (j + e) = nearest i j"
  by (simp add: nearest_def Let_def power_add flip: mult_mod_left mult.assoc)

lemma round_scaled:
  assumes "2 ^ (52 + j) \<le> i" "i < 2 ^ (53 + j)" "k \<le> j + e" "j + e - k < 2045"
  shows "round_f64 s (i * 2 ^ e) k = Finite64 s (nearest i j * 2 ^ (j + e - k))"
proof -
  have "\<not> bit_length (i * 2 ^ e) \<le> 52 + j + e" "bit_length (i * 2 ^ e) \<le> 53 + j + e"
    using assms(1,2) by (simp_all add: bit_length_le power_add)
  then have sh: "max (bit_length (i * 2 ^ e) - 53) k = j + e" using assms(3) by simp
  have "i div 2 ^ j < 2 ^ 53"
    using assms(2) by (simp add: less_mult_imp_div_less power_add mult.commute)
  then have "nearest i j \<le> 2 ^ 53" by (auto simp: nearest_def Let_def)
  then have le: "nearest i j * 2 ^ (j + e - k) \<le> 2 ^ 53 * 2 ^ (j + e - k)" by simp
  have "(2 :: nat) ^ 53 * 2 ^ (j + e - k) < 2 ^ 2098"
    using power_strict_increasing [of "53 + (j + e - k)" 2098 "2 :: nat"] assms(4) by (simp only: power_add)
  with le have "nearest i j * 2 ^ (j + e - k) < 2 ^ 2098" by (rule le_less_trans)
  then show ?thesis unfolding round_f64_def sh nearest_scaled Let_def by (simp only: not_le [symmetric] if_False)
qed

lemma add_positive: "0 < m + n \<Longrightarrow> f64_add (Finite64 False m) (Finite64 False n) = round_f64 False (m + n) 0"
  by (auto simp: signed_def Let_def nat_add_distrib)

lemma sub_ordered:
  "f64_sub (Finite64 False m) (Finite64 False n) =
     (if m = n then Finite64 False 0 else round_f64 False (m - n) 0)" if "n \<le> m"
  using that by (auto simp: f64_sub_def signed_def Let_def nat_diff_distrib)

lemma units_add:
  assumes "2 ^ 53 \<le> a + b" "a + b < 2 ^ 54"
  shows "f64_add (units a) (units b) = units (2 * nearest (a + b) 1)"
proof -
  have "0 < a * 2 ^ 1021 + b * 2 ^ 1021" using assms(1) by (cases "a = 0") simp_all
  then have "f64_add (units a) (units b) = round_f64 False ((a + b) * 2 ^ 1021) 0"
    unfolding units_def by (simp only: add_positive distrib_right)
  also have "\<dots> = Finite64 False (nearest (a + b) 1 * 2 ^ (1 + 1021 - 0))"
    by (rule round_scaled) (use assms in simp_all)
  also have "\<dots> = units (2 * nearest (a + b) 1)" by (simp add: units_def power_add)
  finally show ?thesis .
qed

lemma units_sub:
  assumes "b \<le> a" "a - b < 2 ^ 53"
  shows "f64_sub (units a) (units b) = units (a - b)"
  using round_f64_exact [OF assms(2), of 0 1021 False] assms(1)
  by (simp add: units_def sub_ordered diff_mult_distrib del: mult_numeral_left_semiring_numeral)

definition example_weights :: "f64 list" where
  "example_weights = [units (2 ^ 53), units 3, units 3, units 0]"

lemma example_unit: "random_unit 0x31628af67b2131ab 0 = units (2 ^ 53 - 1)"
  by (simp add: random_unit_eq random_bits_def finalize_def golden_def units_def)

lemma units_order: "f64_lt (units a) (units b) \<longleftrightarrow> a < b" "f64_le (units a) (units b) \<longleftrightarrow> a \<le> b"
  "f64_is_finite (units a)" "zero64 = units 0"
  by (auto simp: units_def f64_lt_def signed_def zero64_def simp flip: of_nat_mult)

lemma example_sums:
  "f64_add (units 0) (units (2 ^ 53)) = units (2 ^ 53)"
  "f64_add (units (2 ^ 53)) (units 3) = units (2 ^ 53 + 4)"
  "f64_add (units (2 ^ 53 + 4)) (units 3) = units (2 ^ 53 + 8)"
  "f64_add (units (2 ^ 53 + 8)) (units 0) = units (2 ^ 53 + 8)"
  by (simp_all add: units_add nearest_def Let_def)

lemma example_draw: "f64_mul (units (2 ^ 53 - 1)) (units (2 ^ 53 + 8)) = units (2 ^ 53 + 6)"
proof -
  have "f64_mul (units (2 ^ 53 - 1)) (units (2 ^ 53 + 8)) =
      round_f64 False ((2 ^ 53 - 1) * (2 ^ 53 + 8) * 2 ^ 2042) 1074"
    by (simp add: units_def)
  also have "\<dots> = Finite64 False (nearest ((2 ^ 53 - 1) * (2 ^ 53 + 8)) 54 * 2 ^ (54 + 2042 - 1074))"
    by (rule round_scaled) simp_all
  also have "\<dots> = units (2 ^ 53 + 6)" by (simp add: units_def nearest_def Let_def)
  finally show ?thesis .
qed

lemma example_scan: "weight_scan (units (2 ^ 53 + 6)) (enumerate 0 example_weights) = None"
  by (simp add: example_weights_def units_order units_sub Let_def)

text \<open>Three logits and a draw with top-k of one.\<close>

definition example_logits :: "nat \<Rightarrow> f64" where
  "example_logits i = units (if i = 1 then 5 else 3)"

definition example_options :: sampling_options where
  "example_options = \<lparr>temperature = one64, top_k = Some 1, top_p = one64, option_seed = 7, option_counter = 0\<rparr>"

lemma one64_units: "one64 = units (2 ^ 53)"
  by (simp add: one64_def units_def)

lemma example_valid: "validate_sampling 3 example_options = Ok ()"
  by (simp add: validate_sampling_def example_options_def units_order one64_units u32_max_def
      max_sampling_vocabulary_def)

lemma example_random: "\<not> f64_eq (temperature example_options) zero64" "top_k example_options = Some 1"
  by (simp_all add: example_options_def f64_eq_def units_order one64_units)

lemma example_finite: "f64_is_finite (example_logits i)"
  by (simp add: example_logits_def units_order)

section \<open>Properties\<close>

text \<open>
  C12. The stateless random numbers: \<open>random_unit\<close> is exactly one of the 2^53 multiples of 2^-53 in
  [0, 1), without rounding, and the mixing before it loses nothing: draws that differ in only one of
  position, purpose and subcounter have different counters, and different counters of one seed give
  different 64-bit states.
\<close>

theorem random_numbers_exact:
  "(\<exists>k < 2 ^ 53. random_unit seed counter = Finite64 False (k * 2 ^ 1021)) \<and>
   \<not> f64_lt (random_unit seed counter) zero64 \<and> f64_lt (random_unit seed counter) one64 \<and>
   inj (\<lambda>place. purpose_counter place purpose sub) \<and> inj (\<lambda>purpose. purpose_counter place purpose sub) \<and>
   inj (\<lambda>sub. purpose_counter place purpose sub) \<and>
   inj (\<lambda>counter. finalize ((seed XOR counter * golden) + golden))"
proof (intro conjI)
  show "\<exists>k < 2 ^ 53. random_unit seed counter = Finite64 False (k * 2 ^ 1021)"
    using random_bits_bound random_unit_eq by blast
  have "int (random_bits seed counter) * 2 ^ 1021 < 2 ^ 53 * 2 ^ 1021"
    using random_bits_bound [of seed counter] by (intro mult_strict_right_mono) simp_all
  then show "f64_lt (random_unit seed counter) one64"
    by (simp add: random_unit_eq f64_lt_def one64_def signed_def)
qed (auto simp: inj_def purpose_counter_def finalize_inject golden_inject purpose_code_inject xor_inject
    random_unit_not_negative)

text \<open>
  C9. What a draw from logits returns. A token comes out only for valid options and finite logits; it lies
  in the vocabulary; a greedy draw is the first of the largest logits, and a draw with top-k is a token to which
  fewer than k tokens are preferred. An error is the first check that fails, a logit that is not finite or
  a fired poll, and the draw never panics.
\<close>

theorem sample_logits_exact:
  "case sample_logits exp_of polls len value_at options of
     Ok token \<Rightarrow> validate_sampling len options = Ok () \<and> (\<forall>i < len. f64_is_finite (value_at i)) \<and> token < len \<and>
       (if f64_eq (temperature options) zero64 then first_maximum value_at len token
        else card (preferred value_at len token) < kept (top_k options) len)
   | Err e \<Rightarrow> validate_sampling len options = Err e \<or> scan_failure polls value_at len e
   | Panic \<Rightarrow> False"
  using sample_logits_settles [of len options polls value_at exp_of] unfolding settles_def chosen_def by simp

lemma sample_logits_exact_witness:
  "\<exists>token < 3. sample_logits (\<lambda>x. x) (\<lambda>_. False) 3 example_logits example_options = Ok token \<and>
    card (preferred example_logits 3 token) < 1"
  using sample_logits_exact [where exp_of = "\<lambda>x. x" and polls = "\<lambda>_. False" and len = 3 and
      value_at = example_logits and options = example_options]
    example_valid example_random example_finite
  by (auto simp: scan_failure_def kept_def split: outcome.splits)

text \<open>
  C11. Sampling returns. With valid options, finite logits and no cancellation the draw returns a token and
  the distribution a row of the vocabulary's length, of which at most top-k entries are not zero,
  whatever the exponential function of the platform computes.
\<close>

theorem sampling_returns:
  assumes "validate_sampling len options = Ok ()" and "\<forall>i < len. f64_is_finite (value_at i)" and "\<forall>t. \<not> polls t"
  shows "(\<exists>token < len. sample_logits exp_of polls len value_at options = Ok token) \<and>
    (\<exists>row. effective_probabilities exp_of polls len value_at options = Ok row \<and> length row = len \<and>
      card (support row) \<le> kept (top_k options) len)"
  using sample_logits_settles [of len options polls value_at exp_of]
    effective_probabilities_settles [of len options polls value_at exp_of] assms
  by (auto simp: settles_def scan_failure_def split: outcome.splits)

lemma sampling_returns_witness:
  "(\<exists>token < 3. sample_logits (\<lambda>x. x) (\<lambda>_. False) 3 example_logits example_options = Ok token) \<and>
   (\<exists>row. effective_probabilities (\<lambda>x. x) (\<lambda>_. False) 3 example_logits example_options = Ok row \<and>
      length row = 3 \<and> card (support row) \<le> 1)"
  using sampling_returns [where exp_of = "\<lambda>x. x" and polls = "\<lambda>_. False" and len = 3 and
      value_at = example_logits and options = example_options]
    example_valid example_random example_finite
  by (simp add: kept_def)

text \<open>
  C10. The test of speculative decoding. It never panics. A proposal is accepted only at a valid positive
  probability, and always when the target gives it at least that probability. A correction is a token of
  the vocabulary that the target prefers over the proposal, with one exception, the last token of the vocabulary.
\<close>

theorem rejection_sample_sound:
  "case rejection_sample polls target proposal candidate seed place of
     Ok Accepted \<Rightarrow> candidate < length target \<and> f64_lt zero64 (proposal ! candidate) \<and>
       (f64_le (proposal ! candidate) (target ! candidate) \<or>
        f64_lt (random_unit seed (purpose_counter place Accept 0)) (f64_div (target ! candidate) (proposal ! candidate)))
   | Ok (Rejected token) \<Rightarrow> token < length target \<and> \<not> f64_le (proposal ! candidate) (target ! candidate) \<and>
       (f64_lt (proposal ! token) (target ! token) \<or> token = length target - 1)
   | Err e \<Rightarrow> True
   | Panic \<Rightarrow> False"
proof -
  let ?residual = "map2 (\<lambda>p q. f64_max_zero (f64_sub p q)) target proposal"
  have drawn: "settles (\<lambda>_. True) (\<lambda>token. weights_ok ?residual \<and> drawable ?residual token)
      (sample_probabilities polls ?residual seed (purpose_counter place Residual 0))"
    unfolding sample_probabilities_def by (rule sample_with_draw_settles [OF random_unit_not_negative])
  have token: "token < length target \<and> (f64_lt (proposal ! token) (target ! token) \<or> token = length target - 1)"
    if "weights_ok ?residual" "drawable ?residual token" "length target = length proposal" for token
  proof -
    have len: "token < length target" using that by (simp add: drawable_def)
    then have "?residual ! token = f64_max_zero (f64_sub (target ! token) (proposal ! token))"
      using that by simp
    moreover have "?residual ! token \<in> set ?residual" using len that by (intro nth_mem) simp
    ultimately show ?thesis
      using len that residual_positive [of "target ! token" "proposal ! token"]
      by (auto simp: weights_ok_def drawable_def simp del: set_map nth_map)
  qed
  have positive: "f64_is_finite q \<Longrightarrow> \<not> f64_le q zero64 \<Longrightarrow> f64_lt zero64 q" for q
    by (cases q) (auto simp: f64_lt_def zero64_def)
  show ?thesis
    using drawn token positive
    by (cases "sample_probabilities polls ?residual seed (purpose_counter place Residual 0)")
      (auto simp: rejection_sample_def nth_opt_def split: option.splits)
qed

text \<open>
  C40. A draw can return a token whose weight is zero: rounding may leave no weight that turns the
  remaining mass negative, and the last token is then returned whatever its weight. With the weights 1,
  3 * 2^-53, 3 * 2^-53 and 0 the stream of seed 0x31628af67b2131ab draws the last token.
\<close>

theorem zero_weight_drawn:
  "sample_probabilities (\<lambda>_. False) example_weights 0x31628af67b2131ab 0 = Ok 3 \<and> example_weights ! 3 = zero64"
proof
  have "fold_outcome (mass_step (\<lambda>_. False)) (0, zero64) (enumerate 0 example_weights) = Ok (1, units (2 ^ 53 + 8))"
    by (simp add: example_weights_def mass_step_def poll_every_def poll_flag_def units_order example_sums [simplified])
  then show "sample_probabilities (\<lambda>_. False) example_weights 0x31628af67b2131ab 0 = Ok 3"
    using example_scan
    by (simp only: sample_probabilities_def sample_with_draw_def example_unit and_then.simps prod.case example_draw)
      (simp add: example_weights_def units_order u32_max_def)
qed (simp add: example_weights_def units_order)

end
