(* ===== verification/Workspace.thy ===== *)
theory Workspace
  imports Prelude
begin

text \<open>
  The pool of transient workspace segments (\<open>crates/runtime/src/workspace.rs\<close>).

  \<open>pool\<close> is the state behind the mutex (\<open>WorkspacePoolInner\<close>), so one operation here is one
  critical section of the code. The allocator is the backend's implementation of the trait
  \<open>WorkspaceAllocator\<close>, code the crate does not contain: it is the parameter \<open>alloc\<close> of the
  operations, a function of the allocator's own state, and nothing is assumed of it.

  An operation that returns \<open>Err (e, p)\<close> failed with \<open>e\<close> and left the pool in state \<open>p\<close>; \<open>Panic\<close>
  is a failed \<open>expect\<close>.
\<close>

section \<open>State\<close>

record ('k, 'w) idle_entry =
  entry_id :: nat
  entry_key :: 'k
  entry_capacity :: nat
  entry_workspace :: 'w
  last_used :: nat

record ('k, 'w) pending_entry =
  pending_entry :: "('k, 'w) idle_entry"
  pending_requested :: nat
  reused :: bool

record 'k workspace_request =
  request_key :: 'k
  request_bytes :: nat

record ('k, 'w, 'a) pool =
  allocator :: 'a
  max_idle_bytes :: nat
  idle :: "('k, 'w) idle_entry list"
  idle_bytes :: nat
  leased_segments :: nat
  leased_bytes :: nat
  clock :: nat
  next_id :: nat

record ('k, 'w) leased_workspace =
  leased_entry :: "('k, 'w) idle_entry"
  leased_requested :: nat

record ('k, 'w) lease =
  lease_segments :: "('k, 'w) leased_workspace list"
  lease_requested_bytes :: nat
  lease_actual_bytes :: nat

datatype 'x pool_error =
    Allocation 'x
  | InsufficientCapacity nat nat
  | ByteSizeOverflow
  | IdentifierOverflow

type_synonym ('k, 'w, 'a, 'x) allocate = "'a \<Rightarrow> 'k \<Rightarrow> nat \<Rightarrow> ('x + 'w \<times> nat) \<times> 'a"

record pool_stats =
  stats_idle_segments :: nat
  stats_idle_bytes :: nat
  stats_leased_segments :: nat
  stats_leased_bytes :: nat

section \<open>Operations of the state behind the lock\<close>

definition pool_new :: "nat \<Rightarrow> 'a \<Rightarrow> ('k, 'w, 'a) pool" where
  "pool_new max_idle a = \<lparr>allocator = a, max_idle_bytes = max_idle, idle = [], idle_bytes = 0,
     leased_segments = 0, leased_bytes = 0, clock = 0, next_id = 0\<rparr>"

definition pool_stats :: "('k, 'w, 'a) pool \<Rightarrow> pool_stats" where
  "pool_stats p = \<lparr>stats_idle_segments = length (idle p), stats_idle_bytes = idle_bytes p,
     stats_leased_segments = leased_segments p, stats_leased_bytes = leased_bytes p\<rparr>"

definition best_fit :: "('k, 'w, 'a) pool \<Rightarrow> 'k \<Rightarrow> nat \<Rightarrow> nat option" where
  "best_fit p key bytes = map_option fst
     (min_by_key (\<lambda>(_, entry). (entry_capacity entry, entry_id entry))
       (filter (\<lambda>(_, entry). entry_key entry = key \<and> entry_capacity entry \<ge> bytes)
         (enumerate 0 (idle p))))"

definition rollback_one ::
    "('k, 'w, 'a) pool \<Rightarrow> ('k, 'w) pending_entry \<Rightarrow> (('k, 'w, 'a) pool, 'e) outcome" where
  "rollback_one p entry =
     (if reused entry
      then and_then (expect (checked_add (idle_bytes p) (entry_capacity (pending_entry entry))))
        (\<lambda>b. Ok (p\<lparr>idle_bytes := b, idle := idle p @ [pending_entry entry]\<rparr>))
      else Ok p)"

definition rollback ::
    "('k, 'w, 'a) pool \<Rightarrow> ('k, 'w) pending_entry list \<Rightarrow> (('k, 'w, 'a) pool, 'e) outcome" where
  "rollback p pending = fold_outcome rollback_one p pending"

function evict_to_limit :: "('k, 'w, 'a) pool \<Rightarrow> (('k, 'w, 'a) pool, 'e) outcome" where
  "evict_to_limit p =
     (if idle_bytes p > max_idle_bytes p
      then (case min_by_key (\<lambda>(_, entry). (last_used entry, entry_id entry)) (enumerate 0 (idle p)) of
          None \<Rightarrow> Ok p
        | Some (index, entry) \<Rightarrow>
            (case checked_sub (idle_bytes p) (entry_capacity entry) of
               None \<Rightarrow> Panic
             | Some b \<Rightarrow> evict_to_limit (p\<lparr>idle := remove_nth index (idle p), idle_bytes := b\<rparr>)))
      else Ok p)"
  by pat_completeness auto
termination
proof (relation "measure (\<lambda>p. length (idle p))", goal_cases)
  case (2 p x index entry b)
  then have "(index, entry) \<in> set (enumerate 0 (idle p))"
    by (auto dest: min_by_key_Some)
  then have "index < length (idle p)" by (simp add: in_set_enumerate_eq)
  then show ?case by simp
qed simp

declare evict_to_limit.simps [simp del]

definition evict_all_idle :: "('k, 'w, 'a) pool \<Rightarrow> ('k, 'w, 'a) pool" where
  "evict_all_idle p = p\<lparr>idle := [], idle_bytes := 0\<rparr>"

definition compact_ticks :: "('k, 'w) idle_entry list \<Rightarrow> ('k, 'w) idle_entry list" where
  "compact_ticks es =
     (let order = sort_key (\<lambda>i. (last_used (es ! i), entry_id (es ! i))) [0..<length es] in
      fold (\<lambda>(rnk, i) xs. xs[i := (xs ! i)\<lparr>last_used := rnk\<rparr>]) (enumerate 0 order) es)"

definition next_lru_tick ::
    "('k, 'w, 'a) pool \<Rightarrow> (nat \<times> ('k, 'w, 'a) pool, 'e) outcome" where
  "next_lru_tick p =
     (case checked_add (clock p) 1 of
        Some next \<Rightarrow> Ok (next, p\<lparr>clock := next\<rparr>)
      | None \<Rightarrow>
          and_then (expect (checked_add (length (idle p) - 1) 1)) (\<lambda>c.
            Ok (c, p\<lparr>idle := compact_ticks (idle p), clock := c\<rparr>)))"

section \<open>Operations of the pool\<close>

definition set_max_idle_bytes ::
    "('k, 'w, 'a) pool \<Rightarrow> nat \<Rightarrow> (('k, 'w, 'a) pool, 'e) outcome" where
  "set_max_idle_bytes p m = evict_to_limit (p\<lparr>max_idle_bytes := m\<rparr>)"

text \<open>An error found while the lock is held: roll back, then return it with the state left.\<close>

definition fail_with ::
    "'x pool_error \<Rightarrow> ('k, 'w, 'a) pool \<Rightarrow> ('k, 'w) pending_entry list
      \<Rightarrow> ('r, 'x pool_error \<times> ('k, 'w, 'a) pool) outcome" where
  "fail_with e p pending = and_then (rollback p pending) (\<lambda>p'. Err (e, p'))"

definition allocate_with_retry ::
    "('k, 'w, 'a, 'x) allocate \<Rightarrow> 'k workspace_request \<Rightarrow> ('k, 'w, 'a) pool
      \<Rightarrow> ('k, 'w) pending_entry list
      \<Rightarrow> (('w \<times> nat) \<times> ('k, 'w, 'a) pool, 'x pool_error \<times> ('k, 'w, 'a) pool) outcome" where
  "allocate_with_retry alloc r p pending =
     (case alloc (allocator p) (request_key r) (request_bytes r) of
        (Inr allocation, a) \<Rightarrow> Ok (allocation, p\<lparr>allocator := a\<rparr>)
      | (Inl error, a) \<Rightarrow>
          (if idle p = [] then fail_with (Allocation error) (p\<lparr>allocator := a\<rparr>) pending
           else let p1 = evict_all_idle (p\<lparr>allocator := a\<rparr>) in
             (case alloc (allocator p1) (request_key r) (request_bytes r) of
                (Inr allocation, a') \<Rightarrow> Ok (allocation, p1\<lparr>allocator := a'\<rparr>)
              | (Inl error', a') \<Rightarrow> fail_with (Allocation error') (p1\<lparr>allocator := a'\<rparr>) pending)))"

definition acquire_one ::
    "('k, 'w, 'a, 'x) allocate \<Rightarrow> ('k, 'w, 'a) pool \<times> ('k, 'w) pending_entry list
      \<Rightarrow> 'k workspace_request
      \<Rightarrow> (('k, 'w, 'a) pool \<times> ('k, 'w) pending_entry list,
          'x pool_error \<times> ('k, 'w, 'a) pool) outcome" where
  "acquire_one alloc s r = (case s of (p, pending) \<Rightarrow>
     (case best_fit p (request_key r) (request_bytes r) of
        Some index \<Rightarrow>
          let entry = idle p ! index in
          and_then (expect (checked_sub (idle_bytes p) (entry_capacity entry))) (\<lambda>b.
            Ok (p\<lparr>idle := remove_nth index (idle p), idle_bytes := b\<rparr>,
                pending @ [\<lparr>pending_entry = entry, pending_requested = request_bytes r,
                            reused = True\<rparr>]))
      | None \<Rightarrow>
          and_then (allocate_with_retry alloc r p pending) (\<lambda>((ws, capacity), p').
            if capacity < request_bytes r
            then fail_with (InsufficientCapacity (request_bytes r) capacity) p' pending
            else Ok (p', pending @
              [\<lparr>pending_entry = \<lparr>entry_id = 0, entry_key = request_key r,
                   entry_capacity = capacity, entry_workspace = ws, last_used = 0\<rparr>,
                pending_requested = request_bytes r, reused = False\<rparr>]))))"

primrec assign_ids ::
    "nat \<Rightarrow> ('k, 'w) pending_entry list \<Rightarrow> (('k, 'w) pending_entry list, 'e) outcome" where
  "assign_ids i [] = Ok []"
| "assign_ids i (e # es) =
     (if reused e then and_then (assign_ids i es) (\<lambda>es'. Ok (e # es'))
      else and_then (expect (checked_add i 1)) (\<lambda>i'.
        and_then (assign_ids i' es) (\<lambda>es'.
          Ok (e\<lparr>pending_entry := (pending_entry e)\<lparr>entry_id := i\<rparr>\<rparr> # es'))))"

text \<open>
  The second half of \<open>acquire\<close>: the totals are checked before anything is published. The code's
  conversion of the count of fresh segments to \<open>u64\<close> cannot fail, \<open>usize\<close> being 64 bits.
\<close>

definition publish ::
    "nat \<Rightarrow> ('k, 'w, 'a) pool \<times> ('k, 'w) pending_entry list
      \<Rightarrow> (('k, 'w) lease \<times> ('k, 'w, 'a) pool, 'x pool_error \<times> ('k, 'w, 'a) pool) outcome" where
  "publish requested s = (case s of (p, pending) \<Rightarrow>
     (case fold_opt (\<lambda>total e. checked_add total (entry_capacity (pending_entry e))) 0 pending of
        None \<Rightarrow> fail_with ByteSizeOverflow p pending
      | Some actual_bytes \<Rightarrow>
     (case checked_add (leased_bytes p) actual_bytes of
        None \<Rightarrow> fail_with ByteSizeOverflow p pending
      | Some leased_bytes' \<Rightarrow>
     (case checked_add (leased_segments p) (length pending) of
        None \<Rightarrow> fail_with ByteSizeOverflow p pending
      | Some leased_segments' \<Rightarrow>
     (case checked_add (next_id p) (length (filter (\<lambda>e. \<not> reused e) pending)) of
        None \<Rightarrow> fail_with IdentifierOverflow p pending
      | Some next_id' \<Rightarrow>
          and_then (assign_ids (next_id p) pending) (\<lambda>pending'.
            Ok (\<lparr>lease_segments = map (\<lambda>e. \<lparr>leased_entry = pending_entry e,
                     leased_requested = pending_requested e\<rparr>) pending',
                 lease_requested_bytes = requested, lease_actual_bytes = actual_bytes\<rparr>,
                p\<lparr>next_id := next_id', leased_bytes := leased_bytes',
                  leased_segments := leased_segments'\<rparr>)))))))"

definition acquire ::
    "('k, 'w, 'a, 'x) allocate \<Rightarrow> ('k, 'w, 'a) pool \<Rightarrow> 'k workspace_request list
      \<Rightarrow> (('k, 'w) lease \<times> ('k, 'w, 'a) pool, 'x pool_error \<times> ('k, 'w, 'a) pool) outcome" where
  "acquire alloc p requests =
     (case fold_opt (\<lambda>total r. checked_add total (request_bytes r)) 0 requests of
        None \<Rightarrow> Err (ByteSizeOverflow, p)
      | Some requested \<Rightarrow>
          and_then (fold_outcome (acquire_one alloc) (p, []) requests) (publish requested))"

definition return_segment ::
    "('k, 'w, 'a) pool \<Rightarrow> ('k, 'w) leased_workspace \<Rightarrow> (('k, 'w, 'a) pool, 'e) outcome" where
  "return_segment p segment =
     and_then (next_lru_tick p) (\<lambda>(tick, p1).
       and_then (expect (checked_add (idle_bytes p1) (entry_capacity (leased_entry segment)))) (\<lambda>b.
         Ok (p1\<lparr>idle_bytes := b,
               idle := idle p1 @ [(leased_entry segment)\<lparr>last_used := tick\<rparr>]\<rparr>)))"

text \<open>\<open>Drop\<close> of a lease that still holds its segments.\<close>

definition drop_lease ::
    "('k, 'w, 'a) pool \<Rightarrow> ('k, 'w) lease \<Rightarrow> (('k, 'w, 'a) pool, 'e) outcome" where
  "drop_lease p l =
     and_then (expect (checked_sub (leased_bytes p) (lease_actual_bytes l))) (\<lambda>lb.
     and_then (expect (checked_sub (leased_segments p) (length (lease_segments l)))) (\<lambda>ls.
     and_then (fold_outcome return_segment (p\<lparr>leased_bytes := lb, leased_segments := ls\<rparr>)
         (lease_segments l))
       evict_to_limit))"

section \<open>Selection and eviction\<close>

definition lru_key :: "('k, 'w) idle_entry \<Rightarrow> nat \<times> nat" where
  "lru_key e = (last_used e, entry_id e)"

definition capacities :: "('k, 'w) idle_entry list \<Rightarrow> nat" where
  "capacities es = sum_list (map entry_capacity es)"

lemma capacities_simps [simp]:
  "capacities [] = 0"
  "capacities (e # es) = entry_capacity e + capacities es"
  "capacities (es @ fs) = capacities es + capacities fs"
  by (simp_all add: capacities_def)

lemma capacities_sum_mset: "capacities es = sum_mset (image_mset entry_capacity (mset es))"
  by (simp add: capacities_def sum_mset_sum_list [symmetric])

lemma capacities_mset: "mset es \<subseteq># mset fs \<Longrightarrow> capacities es \<le> capacities fs"
  by (auto simp: capacities_sum_mset mset_subset_eq_exists_conv)

lemma best_fit_Some:
  assumes "best_fit p key bytes = Some i"
  shows "i < length (idle p) \<and> entry_key (idle p ! i) = key \<and> bytes \<le> entry_capacity (idle p ! i) \<and>
    (\<forall>e \<in> set (idle p). entry_key e = key \<and> bytes \<le> entry_capacity e \<longrightarrow>
       (entry_capacity (idle p ! i), entry_id (idle p ! i)) \<le> (entry_capacity e, entry_id e))"
proof -
  let ?fits = "filter (\<lambda>(_, entry). entry_key entry = key \<and> entry_capacity entry \<ge> bytes)
     (enumerate 0 (idle p))"
  from assms obtain e where e: "min_by_key (\<lambda>(_, entry). (entry_capacity entry, entry_id entry)) ?fits
      = Some (i, e)"
    by (auto simp: best_fit_def)
  then have "(i, e) \<in> set ?fits" by (auto dest: min_by_key_Some)
  then have i: "i < length (idle p)" "idle p ! i = e" "entry_key e = key" "bytes \<le> entry_capacity e"
    by auto
  have "(entry_capacity e, entry_id e) \<le> (entry_capacity f, entry_id f)"
    if f: "f \<in> set (idle p)" "entry_key f = key" "bytes \<le> entry_capacity f" for f
  proof -
    from f(1) obtain j where "(j, f) \<in> set (enumerate 0 (idle p))" by (rule enumerate_obtain)
    with f have "(j, f) \<in> set ?fits" by simp
    with min_by_key_Some [OF e] show ?thesis by auto
  qed
  with i show ?thesis by simp
qed

lemma best_fit_None:
  "best_fit p key bytes = None \<longleftrightarrow>
    (\<forall>e \<in> set (idle p). entry_key e = key \<longrightarrow> entry_capacity e < bytes)"
proof -
  have "best_fit p key bytes = None \<longleftrightarrow>
      (\<forall>x \<in> set (enumerate 0 (idle p)). \<not> (entry_key (snd x) = key \<and> bytes \<le> entry_capacity (snd x)))"
    unfolding best_fit_def by (simp add: filter_empty_conv split_beta)
  then show ?thesis
    unfolding ball_enumerate by (simp add: all_set_conv_all_nth not_le)
qed

definition evicts ::
    "('k, 'w, 'a) pool \<Rightarrow> ('k, 'w) idle_entry list \<Rightarrow> ('k, 'w, 'a) pool \<Rightarrow> bool" where
  "evicts p gone p' \<longleftrightarrow>
     p' = p\<lparr>idle := idle p', idle_bytes := capacities (idle p')\<rparr> \<and>
     mset (idle p) = mset gone + mset (idle p') \<and>
     (\<forall>e \<in> set gone. \<forall>k \<in> set (idle p'). lru_key e \<le> lru_key k)"

lemma lru_minimum:
  assumes "min_by_key (\<lambda>(_, entry). (last_used entry, entry_id entry)) (enumerate 0 es) = Some (i, e)"
  shows "i < length es \<and> es ! i = e \<and> (\<forall>k \<in> set es. lru_key e \<le> lru_key k)"
proof -
  from min_by_key_Some [OF assms] have mem: "(i, e) \<in> set (enumerate 0 es)"
    and least: "\<forall>y \<in> set (enumerate 0 es). lru_key e \<le> lru_key (snd y)"
    by (auto simp: lru_key_def split_beta)
  then have "i < length es \<and> es ! i = e" by simp
  moreover have "lru_key e \<le> lru_key k" if "k \<in> set es" for k
  proof -
    from that obtain j where "(j, k) \<in> set (enumerate 0 es)" by (rule enumerate_obtain)
    with least have "lru_key e \<le> lru_key (snd (j, k))" by (rule bspec)
    then show ?thesis by simp
  qed
  ultimately show ?thesis by simp
qed

lemma evict_to_limit_spec:
  assumes "idle_bytes p = capacities (idle p)"
  shows "\<exists>gone p'. evict_to_limit p = (Ok p' :: (('k, 'w, 'a) pool, 'e) outcome) \<and> evicts p gone p' \<and>
    capacities (idle p') \<le> max_idle_bytes p \<and>
    (gone \<noteq> [] \<longrightarrow> max_idle_bytes p < capacities (idle p') + entry_capacity (last gone))"
  using assms
proof (induction p rule: evict_to_limit.induct)
  case (1 p)
  show ?case
  proof (cases "idle_bytes p > max_idle_bytes p")
    case False
    then have "evict_to_limit p = (Ok p :: (('k, 'w, 'a) pool, 'e) outcome)"
      by (simp add: evict_to_limit.simps)
    moreover have "evicts p [] p" using "1.prems" by (simp add: evicts_def)
    ultimately show ?thesis
      using False "1.prems" by (intro exI [of _ "[]"] exI [of _ p]) (simp add: not_less)
  next
    case True
    then have "idle p \<noteq> []" using "1.prems" by auto
    then have "min_by_key (\<lambda>(_, entry). (last_used entry, entry_id entry))
        (enumerate 0 (idle p)) \<noteq> None" by simp
    then obtain i e where min: "min_by_key (\<lambda>(_, entry). (last_used entry, entry_id entry))
        (enumerate 0 (idle p)) = Some (i, e)" by fast
    from lru_minimum [OF min] have i: "i < length (idle p)" "idle p ! i = e"
      and least: "\<forall>k \<in> set (idle p). lru_key e \<le> lru_key k" by auto
    define q where "q = p\<lparr>idle := remove_nth i (idle p), idle_bytes := idle_bytes p - entry_capacity e\<rparr>"
    have cap: "capacities (idle p) = entry_capacity e + capacities (remove_nth i (idle p))"
      using sum_list_remove_nth [OF i(1), of entry_capacity] i(2) by (simp add: capacities_def)
    then have sub: "checked_sub (idle_bytes p) (entry_capacity e) = Some (idle_bytes p - entry_capacity e)"
      using "1.prems" by (simp add: checked_sub_def)
    have q: "idle_bytes q = capacities (idle q)" "max_idle_bytes q = max_idle_bytes p"
      using "1.prems" cap by (simp_all add: q_def)
    from "1.IH" [OF True min refl sub, folded q_def, OF q(1)]
    obtain gone p' where IH: "evict_to_limit q = (Ok p' :: (('k, 'w, 'a) pool, 'e) outcome)"
      "evicts q gone p'" "capacities (idle p') \<le> max_idle_bytes q"
      "gone \<noteq> [] \<longrightarrow> max_idle_bytes q < capacities (idle p') + entry_capacity (last gone)" by blast
    have run: "evict_to_limit p = (Ok p' :: (('k, 'w, 'a) pool, 'e) outcome)"
      using True min sub IH(1) by (simp add: evict_to_limit.simps [of p] q_def)
    have perm: "mset (idle p) = add_mset e (mset (idle q))"
      using remove_nth_perm [OF i(1)] i(2) by (simp add: q_def)
    have sub_set: "set (idle p') \<subseteq> set (idle p)"
    proof -
      have "mset (idle p) = add_mset e (mset gone + mset (idle p'))"
        using IH(2) perm by (simp add: evicts_def)
      then have "set_mset (mset (idle p')) \<subseteq> set_mset (mset (idle p))" by auto
      then show ?thesis by simp
    qed
    have "evicts p (e # gone) p'"
      using IH(2) perm least sub_set by (auto simp: evicts_def q_def)
    moreover have "max_idle_bytes p < capacities (idle p') + entry_capacity (last (e # gone))"
    proof (cases "gone = []")
      case True
      then have "capacities (idle p') = capacities (idle q)"
        using IH(2) by (simp add: evicts_def capacities_sum_mset)
      with True \<open>idle_bytes p > max_idle_bytes p\<close> "1.prems" cap show ?thesis by (simp add: q_def)
    qed (use IH(4) q(2) in simp)
    ultimately show ?thesis using run IH(3) q(2) by auto
  qed
qed

section \<open>The LRU clock\<close>

definition untick :: "('k, 'w) idle_entry \<Rightarrow> ('k, 'w) idle_entry" where
  "untick e = e\<lparr>last_used := 0\<rparr>"

definition ticks_ok :: "('k, 'w, 'a) pool \<Rightarrow> bool" where
  "ticks_ok p \<longleftrightarrow> (\<forall>e \<in> set (idle p). last_used e \<le> clock p) \<and> clock p \<le> usize_max \<and>
     distinct (map entry_id (idle p)) \<and> length (idle p) \<le> usize_max"

lemma untick_simps [simp]:
  "untick (e\<lparr>last_used := t\<rparr>) = untick e"
  "entry_id (untick e) = entry_id e" "entry_capacity (untick e) = entry_capacity e"
  "entry_key (untick e) = entry_key e"
  by (simp_all add: untick_def)

lemma untick_map_eqD:
  assumes "map untick es = map untick fs"
  shows "map entry_id es = map entry_id fs" and "capacities es = capacities fs"
    and "length es = length fs"
proof -
  have "map entry_id (map untick es) = map entry_id (map untick fs)" using assms by simp
  then show "map entry_id es = map entry_id fs" by (simp add: comp_def)
  have "capacities (map untick es) = capacities (map untick fs)" using assms by simp
  then show "capacities es = capacities fs" by (simp add: capacities_def comp_def)
  show "length es = length fs" using assms by (rule map_eq_imp_length_eq)
qed

lemma assign_ranks:
  assumes "distinct is" and "\<forall>i \<in> set is. i < length es" and "j < length es"
  shows "length (fold (\<lambda>(rnk, i) xs. xs[i := (xs ! i)\<lparr>last_used := rnk\<rparr>]) (enumerate m is) es)
      = length es \<and>
    fold (\<lambda>(rnk, i) xs. xs[i := (xs ! i)\<lparr>last_used := rnk\<rparr>]) (enumerate m is) es ! j =
      (if j \<in> set is then (es ! j)\<lparr>last_used := m + position is j\<rparr> else es ! j)"
  using assms
proof (induction "is" arbitrary: m es)
  case (Cons i "is")
  have pos: "position (i # is) j = (if j = i then 0 else Suc (position is j))"
    by (auto simp: position_def)
  show ?case
    using Cons.IH [of "es[i := (es ! i)\<lparr>last_used := m\<rparr>]" "Suc m"] Cons.prems pos
    by (auto simp: nth_list_update)
qed simp

lemma compact_ticks_spec:
  assumes "distinct (map entry_id es)"
  shows "map untick (compact_ticks es) = map untick es \<and>
    (\<forall>e \<in> set (compact_ticks es). last_used e < length es) \<and>
    (\<forall>i < length es. \<forall>j < length es. lru_key (es ! i) < lru_key (es ! j) \<longrightarrow>
       lru_key (compact_ticks es ! i) < lru_key (compact_ticks es ! j))"
proof -
  let ?k = "\<lambda>i. (last_used (es ! i), entry_id (es ! i))"
  define order where "order = sort_key ?k [0..<length es]"
  have order: "distinct order" "set order = {..<length es}" "length order = length es"
    "sorted (map ?k order)"
    by (auto simp: order_def)
  have nth: "compact_ticks es ! j = (es ! j)\<lparr>last_used := position order j\<rparr>"
    and len: "length (compact_ticks es) = length es" if "j < length es" for j
    using assign_ranks [of order es j 0] order that
    by (simp_all add: compact_ticks_def order_def Let_def)
  have len': "length (compact_ticks es) = length es"
    using len by (cases es) (auto simp: compact_ticks_def)
  have pos: "position order j < length es \<and> order ! position order j = j" if "j < length es" for j
    using position_member [of j order] order that by simp
  have "map untick (compact_ticks es) = map untick es"
    using len' nth by (intro nth_equalityI) auto
  moreover have "last_used e < length es" if "e \<in> set (compact_ticks es)" for e
    using that len' nth pos by (auto simp: in_set_conv_nth)
  moreover have "lru_key (compact_ticks es ! i) < lru_key (compact_ticks es ! j)"
    if ij: "i < length es" "j < length es" "lru_key (es ! i) < lru_key (es ! j)" for i j
  proof -
    have "position order i < position order j"
    proof (rule ccontr)
      assume "\<not> position order i < position order j"
      then have "?k (order ! position order j) \<le> ?k (order ! position order i)"
        using order(3,4) pos ij sorted_nth_mono [of "map ?k order" "position order j" "position order i"]
        by simp
      then have "lru_key (es ! j) \<le> lru_key (es ! i)"
        using ij pos by (simp add: lru_key_def del: less_eq_prod_simp)
      with ij(3) show False by (meson leD)
    qed
    then show ?thesis using nth ij by (simp add: lru_key_def)
  qed
  ultimately show ?thesis by simp
qed

lemma next_lru_tick_spec:
  assumes "ticks_ok p"
  shows "\<exists>t p'. next_lru_tick p = (Ok (t, p') :: (nat \<times> ('k, 'w, 'a) pool, 'e) outcome) \<and>
    p' = p\<lparr>idle := idle p', clock := t\<rparr> \<and> t \<le> usize_max \<and>
    map untick (idle p') = map untick (idle p) \<and> (\<forall>e \<in> set (idle p'). last_used e < t) \<and>
    (\<forall>i < length (idle p). \<forall>j < length (idle p). lru_key (idle p ! i) < lru_key (idle p ! j) \<longrightarrow>
       lru_key (idle p' ! i) < lru_key (idle p' ! j))"
proof (cases "clock p < usize_max")
  case True
  then have "next_lru_tick p = (Ok (clock p + 1, p\<lparr>clock := clock p + 1\<rparr>) ::
      (nat \<times> ('k, 'w, 'a) pool, 'e) outcome)"
    by (simp add: next_lru_tick_def checked_add_def)
  with True assms show ?thesis by (auto simp: ticks_ok_def less_Suc_eq_le)
next
  case False
  with assms have full: "clock p = usize_max" by (simp add: ticks_ok_def)
  define c where "c = length (idle p) - 1 + 1"
  have c: "c \<le> usize_max" "length (idle p) \<le> c"
    using assms by (auto simp: c_def ticks_ok_def usize_max_def)
  have run: "next_lru_tick p = (Ok (c, p\<lparr>idle := compact_ticks (idle p), clock := c\<rparr>) ::
      (nat \<times> ('k, 'w, 'a) pool, 'e) outcome)"
    using full c(1) by (simp add: next_lru_tick_def checked_add_def expect_def c_def)
  have "distinct (map entry_id (idle p))" using assms by (simp add: ticks_ok_def)
  from compact_ticks_spec [OF this] run c show ?thesis
    by (auto intro: less_le_trans)
qed

lemma return_segment_spec:
  assumes "ticks_ok p" and "idle_bytes p = capacities (idle p)"
    and "idle_bytes p + entry_capacity (leased_entry s) \<le> usize_max"
    and "entry_id (leased_entry s) \<notin> entry_id ` set (idle p)" and "length (idle p) < usize_max"
  shows "\<exists>t p'. return_segment p s = (Ok p' :: (('k, 'w, 'a) pool, 'e) outcome) \<and>
    p' = p\<lparr>idle := idle p', idle_bytes := capacities (idle p'), clock := t\<rparr> \<and> ticks_ok p' \<and>
    map untick (idle p') = map untick (idle p) @ [untick (leased_entry s)] \<and>
    (\<forall>e \<in> set (butlast (idle p')). lru_key e < lru_key (last (idle p'))) \<and>
    (\<forall>i < length (idle p). \<forall>j < length (idle p). lru_key (idle p ! i) < lru_key (idle p ! j) \<longrightarrow>
       lru_key (idle p' ! i) < lru_key (idle p' ! j))"
proof -
  from next_lru_tick_spec [OF assms(1)] obtain t p1 where
    tick: "next_lru_tick p = (Ok (t, p1) :: (nat \<times> ('k, 'w, 'a) pool, 'e) outcome)"
    and p1: "p1 = p\<lparr>idle := idle p1, clock := t\<rparr>" and t: "t \<le> usize_max"
    and same: "map untick (idle p1) = map untick (idle p)"
    and below: "\<forall>e \<in> set (idle p1). last_used e < t"
    and kept: "\<forall>i < length (idle p). \<forall>j < length (idle p). lru_key (idle p ! i) < lru_key (idle p ! j) \<longrightarrow>
       lru_key (idle p1 ! i) < lru_key (idle p1 ! j)"
    by blast
  note same' = untick_map_eqD [OF same]
  let ?e = "(leased_entry s)\<lparr>last_used := t\<rparr>"
  have b: "idle_bytes p1 = idle_bytes p" using arg_cong [OF p1, of idle_bytes] by simp
  have c: "clock p1 = t" using arg_cong [OF p1, of clock] by simp
  define p' where "p' = p1\<lparr>idle_bytes := idle_bytes p + entry_capacity (leased_entry s),
      idle := idle p1 @ [?e]\<rparr>"
  have run: "return_segment p s = (Ok p' :: (('k, 'w, 'a) pool, 'e) outcome)"
    using tick assms(3) b by (simp add: return_segment_def expect_def checked_add_def p'_def)
  have ids: "entry_id ` set (idle p1) = entry_id ` set (idle p)"
    using same'(1) by (metis list.set_map)
  have "ticks_ok p'"
    using assms below t same' ids c by (auto simp: ticks_ok_def p'_def less_imp_le)
  moreover have "p' = p\<lparr>idle := idle p', idle_bytes := capacities (idle p'), clock := t\<rparr>"
    using p1 same'(2) assms(2) by (cases p; cases p1) (simp add: p'_def)
  moreover have "map untick (idle p') = map untick (idle p) @ [untick (leased_entry s)]"
    using same by (simp add: p'_def)
  moreover have "\<forall>e \<in> set (butlast (idle p')). lru_key e < lru_key (last (idle p'))"
    using below by (simp add: p'_def lru_key_def)
  moreover have "\<forall>i < length (idle p). \<forall>j < length (idle p).
      lru_key (idle p ! i) < lru_key (idle p ! j) \<longrightarrow> lru_key (idle p' ! i) < lru_key (idle p' ! j)"
    using kept same'(3) by (simp add: p'_def nth_append)
  ultimately show ?thesis using run by blast
qed

section \<open>Acquisition\<close>

definition infallible :: "('k, 'w, 'a, 'x) allocate \<Rightarrow> bool" where
  "infallible alloc \<longleftrightarrow> (\<forall>a k n. \<exists>r a'. alloc a k n = (Inr r, a'))"

definition reused_entries :: "('k, 'w) pending_entry list \<Rightarrow> ('k, 'w) idle_entry list" where
  "reused_entries pending = map pending_entry (filter reused pending)"

text \<open>
  What a failed acquisition may leave behind: the counters of the pool it started from, an idle
  list that is part of the one it started from (all of it, when the allocator never fails), and
  an \<open>idle_bytes\<close> that still is the sum of the idle capacities.
\<close>

definition state_left ::
    "('k, 'w, 'a, 'x) allocate \<Rightarrow> ('k, 'w, 'a) pool \<Rightarrow> ('k, 'w, 'a) pool \<Rightarrow> bool" where
  "state_left alloc p0 p \<longleftrightarrow>
     p = p0\<lparr>allocator := allocator p, idle := idle p, idle_bytes := capacities (idle p)\<rparr> \<and>
     mset (idle p) \<subseteq># mset (idle p0) \<and>
     (infallible alloc \<longrightarrow> mset (idle p) = mset (idle p0))"

definition rolled_back ::
    "('k, 'w, 'a) pool \<Rightarrow> ('k, 'w) pending_entry list \<Rightarrow> ('k, 'w, 'a) pool" where
  "rolled_back p pending = p\<lparr>idle := idle p @ reused_entries pending,
     idle_bytes := idle_bytes p + capacities (reused_entries pending)\<rparr>"

definition acquiring ::
    "('k, 'w, 'a, 'x) allocate \<Rightarrow> ('k, 'w, 'a) pool
      \<Rightarrow> ('k, 'w, 'a) pool \<times> ('k, 'w) pending_entry list \<Rightarrow> bool" where
  "acquiring alloc p0 s \<longleftrightarrow> (case s of (p, pending) \<Rightarrow>
     state_left alloc p0 (rolled_back p pending) \<and>
     idle_bytes p = capacities (idle p) \<and>
     (\<forall>e \<in> set pending. pending_requested e \<le> entry_capacity (pending_entry e)))"

lemma reused_entries_simps [simp]:
  "reused_entries [] = []"
  "reused_entries (e # es) = (if reused e then [pending_entry e] else []) @ reused_entries es"
  "reused_entries (es @ fs) = reused_entries es @ reused_entries fs"
  by (simp_all add: reused_entries_def)

lemma rollback_eq:
  assumes "idle_bytes p + capacities (reused_entries pending) \<le> usize_max"
  shows "rollback p pending = (Ok (rolled_back p pending) :: (('k, 'w, 'a) pool, 'e) outcome)"
  using assms
proof (induction pending arbitrary: p)
  case Nil
  then show ?case by (simp add: rollback_def rolled_back_def)
next
  case (Cons e pending)
  let ?q = "if reused e then p\<lparr>idle_bytes := idle_bytes p + entry_capacity (pending_entry e),
      idle := idle p @ [pending_entry e]\<rparr> else p"
  have "rollback p (e # pending) = (rollback ?q pending :: (('k, 'w, 'a) pool, 'e) outcome)"
    using Cons.prems by (auto simp: rollback_def rollback_one_def expect_def checked_add_def)
  also have "\<dots> = Ok (rolled_back ?q pending)"
    by (rule Cons.IH) (use Cons.prems in auto)
  also have "rolled_back ?q pending = rolled_back p (e # pending)"
    by (simp add: rolled_back_def)
  finally show ?case .
qed

lemma acquiring_rolled_back:
  assumes "acquiring alloc p0 (p, pending)" and "capacities (idle p0) \<le> usize_max"
  shows "fail_with e p pending =
      (Err (e, rolled_back p pending) :: ('r, 'x pool_error \<times> ('k, 'w, 'a) pool) outcome)"
    and "state_left alloc p0 (rolled_back p pending)"
proof -
  show q: "state_left alloc p0 (rolled_back p pending)" using assms(1) by (simp add: acquiring_def)
  then have "capacities (idle (rolled_back p pending)) \<le> capacities (idle p0)"
    by (intro capacities_mset) (simp add: state_left_def)
  then have "idle_bytes p + capacities (reused_entries pending) \<le> usize_max"
    using assms by (simp add: acquiring_def rolled_back_def)
  then show "fail_with e p pending =
      (Err (e, rolled_back p pending) :: ('r, 'x pool_error \<times> ('k, 'w, 'a) pool) outcome)"
    by (simp add: fail_with_def rollback_eq)
qed

lemma state_left_refl: "idle_bytes p = capacities (idle p) \<Longrightarrow> state_left alloc p p"
  by (simp add: state_left_def)

lemma acquiring_allocator:
  "acquiring alloc p0 (p, pending) \<Longrightarrow> acquiring alloc p0 (p\<lparr>allocator := a\<rparr>, pending)"
  by (cases p; cases p0) (simp add: acquiring_def state_left_def rolled_back_def)

lemma acquiring_evicted:
  assumes "acquiring alloc p0 (p, pending)" and "\<not> infallible alloc"
  shows "acquiring alloc p0 (evict_all_idle p, pending)"
proof -
  have "mset (reused_entries pending) \<subseteq># mset (idle p0)"
    using assms(1) by (auto simp: acquiring_def state_left_def rolled_back_def
        intro: subset_mset.order_trans [OF mset_subset_eq_add_right])
  with assms show ?thesis
    by (cases p; cases p0) (simp add: acquiring_def state_left_def rolled_back_def evict_all_idle_def)
qed

lemma allocate_with_retry_spec:
  assumes inv: "acquiring alloc p0 (p, pending)" and cap: "capacities (idle p0) \<le> usize_max"
  shows "case allocate_with_retry alloc r p pending of
      Ok (ws, p') \<Rightarrow> acquiring alloc p0 (p', pending)
    | Err (e, p') \<Rightarrow> state_left alloc p0 p' \<and> (\<exists>x. e = Allocation x)
    | Panic \<Rightarrow> False"
proof (cases "alloc (allocator p) (request_key r) (request_bytes r)")
  case (Pair res a)
  note inv_a = acquiring_allocator [OF inv, of a]
  show ?thesis
  proof (cases res)
    case (Inr ws)
    with Pair inv_a show ?thesis by (simp add: allocate_with_retry_def)
  next
    case (Inl x)
    with Pair have fallible: "\<not> infallible alloc"
      by (auto simp: infallible_def) (metis Inl_Inr_False prod.inject)
    show ?thesis
    proof (cases "idle p = []")
      case True
      with Inl Pair show ?thesis
        by (simp add: allocate_with_retry_def acquiring_rolled_back [OF inv_a cap])
    next
      case False
      let ?p1 = "evict_all_idle (p\<lparr>allocator := a\<rparr>)"
      note inv1 = acquiring_evicted [OF inv_a fallible]
      obtain res' a' where second:
        "alloc (allocator ?p1) (request_key r) (request_bytes r) = (res', a')" by fastforce
      note inv2 = acquiring_allocator [OF inv1, of a']
      show ?thesis
      proof (cases res')
        case Inr
        with False Pair \<open>res = Inl x\<close> second inv2 show ?thesis
          by (simp add: allocate_with_retry_def Let_def)
      next
        case (Inl y)
        with False Pair \<open>res = Inl x\<close> second
        show ?thesis by (simp add: allocate_with_retry_def Let_def acquiring_rolled_back [OF inv2 cap])
      qed
    qed
  qed
qed

lemma acquire_one_spec:
  assumes inv: "acquiring alloc p0 (p, pending)" and cap: "capacities (idle p0) \<le> usize_max"
  shows "case acquire_one alloc (p, pending) r of
      Ok (p', pending') \<Rightarrow> acquiring alloc p0 (p', pending') \<and>
        (\<exists>e. pending' = pending @ [e] \<and> pending_requested e = request_bytes r \<and>
          entry_key (pending_entry e) = request_key r)
    | Err (e, p') \<Rightarrow> state_left alloc p0 p'
    | Panic \<Rightarrow> False"
proof (cases "best_fit p (request_key r) (request_bytes r)")
  case (Some i)
  from best_fit_Some [OF this] have i: "i < length (idle p)" "entry_key (idle p ! i) = request_key r"
    "request_bytes r \<le> entry_capacity (idle p ! i)" by auto
  have split: "capacities (idle p) = entry_capacity (idle p ! i) + capacities (remove_nth i (idle p))"
    using sum_list_remove_nth [OF i(1), of entry_capacity] by (simp add: capacities_def)
  with inv have sub: "checked_sub (idle_bytes p) (entry_capacity (idle p ! i)) =
      Some (capacities (remove_nth i (idle p)))"
    by (simp add: acquiring_def checked_sub_def)
  define e where "e = idle p ! i"
  define p' where "p' = p\<lparr>idle := remove_nth i (idle p), idle_bytes := capacities (remove_nth i (idle p))\<rparr>"
  define pending' where
    "pending' = pending @ [\<lparr>pending_entry = e, pending_requested = request_bytes r, reused = True\<rparr>]"
  have run: "acquire_one alloc (p, pending) r = Ok (p', pending')"
    using Some sub by (simp add: acquire_one_def Let_def expect_def p'_def pending'_def e_def)
  have "mset (idle (rolled_back p' pending')) = mset (idle (rolled_back p pending))"
    using remove_nth_perm [OF i(1)] by (simp add: rolled_back_def p'_def pending'_def e_def)
  moreover have "capacities (idle (rolled_back p' pending')) = capacities (idle (rolled_back p pending))"
    using split by (simp add: rolled_back_def p'_def pending'_def e_def)
  moreover have "idle_bytes (rolled_back p' pending') = idle_bytes (rolled_back p pending)"
    using split inv by (simp add: acquiring_def rolled_back_def p'_def pending'_def e_def)
  ultimately have "state_left alloc p0 (rolled_back p' pending')"
    using inv by (cases p; cases p0) (simp add: acquiring_def state_left_def rolled_back_def p'_def)
  then have "acquiring alloc p0 (p', pending')"
    using inv i(3) by (simp add: acquiring_def p'_def pending'_def e_def)
  with run i(2) show ?thesis by (simp add: pending'_def e_def)
next
  case None
  note spec = allocate_with_retry_spec [OF inv cap, of r]
  show ?thesis
  proof (cases "allocate_with_retry alloc r p pending")
    case (Ok res)
    obtain ws capacity p' where res: "res = ((ws, capacity), p')" by (metis surj_pair)
    with spec Ok have inv': "acquiring alloc p0 (p', pending)" by simp
    show ?thesis
    proof (cases "capacity < request_bytes r")
      case True
      with None Ok res show ?thesis
        by (simp add: acquire_one_def acquiring_rolled_back [OF inv' cap])
    next
      case False
      with None Ok res inv' show ?thesis by (auto simp: acquire_one_def acquiring_def rolled_back_def)
    qed
  next
    case (Err e)
    with None spec show ?thesis by (auto simp: acquire_one_def split: prod.splits)
  next
    case Panic
    with spec show ?thesis by simp
  qed
qed

lemma acquire_loop_spec:
  assumes "acquiring alloc p0 (p, pending)" and cap: "capacities (idle p0) \<le> usize_max"
  shows "case fold_outcome (acquire_one alloc) (p, pending) rs of
      Ok (p', pending') \<Rightarrow> acquiring alloc p0 (p', pending') \<and>
        map pending_requested pending' = map pending_requested pending @ map request_bytes rs \<and>
        map (entry_key \<circ> pending_entry) pending' =
          map (entry_key \<circ> pending_entry) pending @ map request_key rs
    | Err (e, p') \<Rightarrow> state_left alloc p0 p'
    | Panic \<Rightarrow> False"
  using assms(1)
proof (induction rs arbitrary: p pending)
  case (Cons r rs)
  note spec = acquire_one_spec [OF Cons.prems cap, of r]
  show ?case
  proof (cases "acquire_one alloc (p, pending) r")
    case (Ok s)
    obtain p' pending' where s: "s = (p', pending')" by (cases s)
    with spec Ok have "acquiring alloc p0 (p', pending')" by simp
    from Cons.IH [OF this] spec Ok s show ?thesis
      by (auto split: outcome.splits)
  qed (use spec in \<open>auto split: prod.splits\<close>)
qed simp

section \<open>Publication of a lease\<close>

definition fresh_count :: "('k, 'w) pending_entry list \<Rightarrow> nat" where
  "fresh_count pending = length (filter (\<lambda>e. \<not> reused e) pending)"

lemma fresh_count_simps [simp]:
  "fresh_count [] = 0"
  "fresh_count (e # es) = (if reused e then 0 else 1) + fresh_count es"
  by (simp_all add: fresh_count_def)

definition pending_ids :: "('k, 'w) pending_entry list \<Rightarrow> nat list" where
  "pending_ids pending = map (entry_id \<circ> pending_entry) pending"

lemma assign_ids_spec:
  assumes "i + fresh_count es \<le> usize_max"
  shows "\<exists>es'. assign_ids i es = (Ok es' :: (('k, 'w) pending_entry list, 'e) outcome) \<and>
    map pending_requested es' = map pending_requested es \<and>
    map (entry_key \<circ> pending_entry) es' = map (entry_key \<circ> pending_entry) es \<and>
    map (entry_capacity \<circ> pending_entry) es' = map (entry_capacity \<circ> pending_entry) es \<and>
    mset (pending_ids es') = mset (map entry_id (reused_entries es)) + mset [i..<i + fresh_count es]"
  using assms
proof (induction es arbitrary: i)
  case Nil
  then show ?case by (simp add: pending_ids_def)
next
  case (Cons e es)
  show ?case
  proof (cases "reused e")
    case True
    with Cons.prems have "i + fresh_count es \<le> usize_max" by simp
    from Cons.IH [OF this] obtain es' where
      "assign_ids i es = (Ok es' :: (('k, 'w) pending_entry list, 'e) outcome)"
      "map pending_requested es' = map pending_requested es"
      "map (entry_key \<circ> pending_entry) es' = map (entry_key \<circ> pending_entry) es"
      "map (entry_capacity \<circ> pending_entry) es' = map (entry_capacity \<circ> pending_entry) es"
      "mset (pending_ids es') = mset (map entry_id (reused_entries es)) + mset [i..<i + fresh_count es]"
      by blast
    with True show ?thesis by (simp add: pending_ids_def comp_def)
  next
    case False
    with Cons.prems have "i + 1 + fresh_count es \<le> usize_max" by simp
    from Cons.IH [OF this] obtain es' where IH:
      "assign_ids (i + 1) es = (Ok es' :: (('k, 'w) pending_entry list, 'e) outcome)"
      "map pending_requested es' = map pending_requested es"
      "map (entry_key \<circ> pending_entry) es' = map (entry_key \<circ> pending_entry) es"
      "map (entry_capacity \<circ> pending_entry) es' = map (entry_capacity \<circ> pending_entry) es"
      "mset (pending_ids es') =
         mset (map entry_id (reused_entries es)) + mset [i + 1..<i + 1 + fresh_count es]"
      by blast
    have "i + 1 \<le> usize_max" using False Cons.prems by simp
    then have add: "checked_add i 1 = Some (i + 1)" by (simp add: checked_add_def)
    have "[i..<i + fresh_count (e # es)] = i # [i + 1..<i + 1 + fresh_count es]"
      using False by (simp add: upt_conv_Cons)
    with False IH add show ?thesis by (simp add: expect_def pending_ids_def comp_def del: upt_Suc)
  qed
qed

text \<open>
  What the caller gets: one segment per request, in the order of the requests, of the requested
  key and of at least the requested size; the two totals are the sums.
\<close>

definition serves :: "'k workspace_request list \<Rightarrow> ('k, 'w) lease \<Rightarrow> bool" where
  "serves requests l \<longleftrightarrow>
     map leased_requested (lease_segments l) = map request_bytes requests \<and>
     map (entry_key \<circ> leased_entry) (lease_segments l) = map request_key requests \<and>
     (\<forall>s \<in> set (lease_segments l). leased_requested s \<le> entry_capacity (leased_entry s)) \<and>
     lease_requested_bytes l = sum_list (map request_bytes requests) \<and>
     lease_actual_bytes l = sum_list (map (entry_capacity \<circ> leased_entry) (lease_segments l))"

definition lease_entries :: "('k, 'w) lease \<Rightarrow> ('k, 'w) idle_entry list" where
  "lease_entries l = map leased_entry (lease_segments l)"

text \<open>
  What the pool becomes: the idle entries that were reused are gone from the idle list and in the
  lease under their old identifiers, every other segment of the lease has one of the identifiers
  from \<open>next_id\<close> on, and the counters grow by the lease.
\<close>

definition publishes ::
    "('k, 'w, 'a) pool \<Rightarrow> ('k, 'w) lease \<Rightarrow> ('k, 'w, 'a) pool \<Rightarrow> bool" where
  "publishes p0 l p \<longleftrightarrow>
     (\<exists>back. mset (idle p @ back) \<subseteq># mset (idle p0) \<and> next_id p0 \<le> next_id p \<and>
        mset (map entry_id (lease_entries l)) =
          mset (map entry_id back) + mset [next_id p0..<next_id p]) \<and>
     idle_bytes p = capacities (idle p) \<and> max_idle_bytes p = max_idle_bytes p0 \<and>
     clock p = clock p0 \<and> next_id p \<le> usize_max \<and>
     leased_bytes p = leased_bytes p0 + capacities (lease_entries l) \<and>
     leased_bytes p \<le> usize_max \<and>
     leased_segments p = leased_segments p0 + length (lease_segments l) \<and>
     leased_segments p \<le> usize_max"

lemma map_compose_mapD: "map (f \<circ> g) xs = ys \<Longrightarrow> map f (map g xs) = ys"
  by simp

lemma publish_spec:
  fixes requests :: "'k workspace_request list" and p p0 :: "('k, 'w, 'a) pool"
    and alloc :: "('k, 'w, 'a, 'x) allocate"
  assumes inv: "acquiring alloc p0 (p, pending)" and cap: "capacities (idle p0) \<le> usize_max"
    and sizes: "map pending_requested pending = map request_bytes requests"
    and keys: "map (entry_key \<circ> pending_entry) pending = map request_key requests"
  shows "case (publish (sum_list (map request_bytes requests)) (p, pending)
        :: (_, 'x pool_error \<times> _) outcome) of
      Ok (l, p') \<Rightarrow> serves requests l \<and> publishes p0 l p'
    | Err (e, p') \<Rightarrow> state_left alloc p0 p'
    | Panic \<Rightarrow> False"
proof -
  let ?actual = "sum_list (map (entry_capacity \<circ> pending_entry) pending)"
  note failed = acquiring_rolled_back [OF inv cap]
  have total: "fold_opt (\<lambda>total e. checked_add total (entry_capacity (pending_entry e))) 0 pending =
      (if ?actual \<le> usize_max then Some ?actual else None)"
    by (auto simp: fold_opt_checked_add comp_def)
  show ?thesis
  proof (cases "?actual \<le> usize_max \<and> leased_bytes p + ?actual \<le> usize_max \<and>
      leased_segments p + length pending \<le> usize_max \<and> next_id p + fresh_count pending \<le> usize_max")
    case False
    then have "\<exists>e. publish (sum_list (map request_bytes requests)) (p, pending) =
        (fail_with (e :: 'x pool_error) p pending)"
      using total by (auto simp: publish_def checked_add_def fresh_count_def [symmetric])
    then show ?thesis using failed(2) by (auto simp: failed(1))
  next
    case True
    from True assign_ids_spec [of "next_id p" pending] obtain es' where es':
      "assign_ids (next_id p) pending = (Ok es' :: (('k, 'w) pending_entry list,
         'x pool_error \<times> ('k, 'w, 'a) pool) outcome)"
      "map pending_requested es' = map pending_requested pending"
      "map (entry_key \<circ> pending_entry) es' = map (entry_key \<circ> pending_entry) pending"
      "map (entry_capacity \<circ> pending_entry) es' = map (entry_capacity \<circ> pending_entry) pending"
      "mset (pending_ids es') = mset (map entry_id (reused_entries pending)) +
         mset [next_id p..<next_id p + fresh_count pending]"
      by blast
    define l where "l = \<lparr>lease_segments = map (\<lambda>e. \<lparr>leased_entry = pending_entry e,
        leased_requested = pending_requested e\<rparr>) es',
      lease_requested_bytes = sum_list (map request_bytes requests), lease_actual_bytes = ?actual\<rparr>"
    define p' where "p' = p\<lparr>next_id := next_id p + fresh_count pending,
      leased_bytes := leased_bytes p + ?actual, leased_segments := leased_segments p + length pending\<rparr>"
    have run: "publish (sum_list (map request_bytes requests)) (p, pending) =
        (Ok (l, p') :: (_, 'x pool_error \<times> _) outcome)"
      using True total es'(1)
      by (simp add: publish_def checked_add_def fresh_count_def [symmetric] l_def p'_def)
    have len: "length es' = length pending" using es'(2) by (rule map_eq_imp_length_eq)
    have "pending_requested e \<le> entry_capacity (pending_entry e)" if "e \<in> set es'" for e
    proof -
      from that obtain j where j: "j < length pending" "e = es' ! j"
        using len by (auto simp: in_set_conv_nth)
      then have "pending_requested e = pending_requested (pending ! j)"
        "entry_capacity (pending_entry e) = entry_capacity (pending_entry (pending ! j))"
        using len arg_cong [OF es'(2), of "\<lambda>xs. xs ! j"] arg_cong [OF es'(4), of "\<lambda>xs. xs ! j"]
        by simp_all
      with j inv show ?thesis by (simp add: acquiring_def)
    qed
    then have "serves requests l"
      using es' sizes keys by (simp add: serves_def l_def comp_def)
    moreover have "publishes p0 l p'"
    proof -
      have left: "state_left alloc p0 (rolled_back p pending)" using inv by (simp add: acquiring_def)
      then have eq: "rolled_back p pending = p0\<lparr>allocator := allocator p,
          idle := idle p @ reused_entries pending,
          idle_bytes := capacities (idle p @ reused_entries pending)\<rparr>"
        by (simp add: state_left_def rolled_back_def)
      have fields: "next_id p = next_id p0" "leased_bytes p = leased_bytes p0" "clock p = clock p0"
        "leased_segments p = leased_segments p0" "max_idle_bytes p = max_idle_bytes p0"
        using arg_cong [OF eq, of next_id] arg_cong [OF eq, of leased_bytes]
          arg_cong [OF eq, of leased_segments] arg_cong [OF eq, of max_idle_bytes]
          arg_cong [OF eq, of clock]
        by (simp_all add: rolled_back_def)
      have ids: "mset (map entry_id (lease_entries l)) = mset (pending_ids es')"
        by (simp add: lease_entries_def l_def pending_ids_def comp_def)
      have "capacities (lease_entries l) = sum_list (map (entry_capacity \<circ> pending_entry) es')"
        by (simp add: capacities_def lease_entries_def l_def comp_def)
      then have caps: "capacities (lease_entries l) = ?actual" using es'(4) by simp
      have "mset (idle p' @ reused_entries pending) \<subseteq># mset (idle p0)"
        using left by (simp add: state_left_def rolled_back_def p'_def)
      moreover have "mset (map entry_id (lease_entries l)) =
          mset (map entry_id (reused_entries pending)) + mset [next_id p0..<next_id p']"
        using ids es'(5) fields by (simp add: p'_def)
      moreover have "idle_bytes p' = capacities (idle p')"
        using inv by (simp add: p'_def acquiring_def)
      moreover have "length (lease_segments l) = length pending" using len by (simp add: l_def)
      ultimately show ?thesis
        using fields True caps unfolding publishes_def
        by (intro conjI exI [of _ "reused_entries pending"]) (simp_all add: p'_def)
    qed
    ultimately show ?thesis using run by simp
  qed
qed

lemma acquire_spec:
  assumes "idle_bytes p = capacities (idle p)" and cap: "capacities (idle p) \<le> usize_max"
  shows "case acquire alloc p requests of
      Ok (l, p') \<Rightarrow> serves requests l \<and> publishes p l p'
    | Err (e, p') \<Rightarrow> state_left alloc p p'
    | Panic \<Rightarrow> False"
proof (cases "fold_opt (\<lambda>total r. checked_add total (request_bytes r)) 0 requests")
  case None
  with assms show ?thesis by (simp add: acquire_def state_left_refl)
next
  case (Some total)
  then have total: "total = sum_list (map request_bytes requests)"
    by (simp add: fold_opt_checked_add split: if_splits)
  have "acquiring alloc p (p, [])"
    using assms by (simp add: acquiring_def state_left_def rolled_back_def)
  note loop = acquire_loop_spec [OF this cap, of requests]
  show ?thesis
  proof (cases "fold_outcome (acquire_one alloc) (p, []) requests")
    case (Ok s)
    obtain p' pending where s: "s = (p', pending)" by (cases s)
    with loop Ok have "acquiring alloc p (p', pending)"
      "map pending_requested pending = map request_bytes requests"
      "map (entry_key \<circ> pending_entry) pending = map request_key requests"
      by auto
    from publish_spec [OF this(1) cap this(2,3)] Ok s Some total show ?thesis
      by (simp add: acquire_def)
  next
    case (Err e)
    with loop Some show ?thesis by (simp add: acquire_def)
  next
    case Panic
    with loop show ?thesis by simp
  qed
qed

section \<open>Return of a lease\<close>

lemma ids_mset: "mset (map entry_id es) = image_mset entry_id (mset es)"
  by simp

text \<open>
  Returning segments appends them to the idle list. Their ticks put each of them after every
  entry before it in the list, and the relative order of the older entries stays.
\<close>

lemma return_loop_spec:
  assumes "ticks_ok p" and "idle_bytes p = capacities (idle p)"
    and "idle_bytes p + capacities (map leased_entry segs) \<le> usize_max"
    and "distinct (map entry_id (idle p @ map leased_entry segs))"
    and "length (idle p) + length segs \<le> usize_max"
  shows "\<exists>t p'. fold_outcome return_segment p segs = (Ok p' :: (('k, 'w, 'a) pool, 'e) outcome) \<and>
    p' = p\<lparr>idle := idle p', idle_bytes := capacities (idle p'), clock := t\<rparr> \<and> ticks_ok p' \<and>
    map untick (idle p') = map untick (idle p) @ map (untick \<circ> leased_entry) segs \<and>
    (\<forall>j < length (idle p'). length (idle p) \<le> j \<longrightarrow>
       (\<forall>i < j. lru_key (idle p' ! i) < lru_key (idle p' ! j))) \<and>
    (\<forall>i < length (idle p). \<forall>j < length (idle p). lru_key (idle p ! i) < lru_key (idle p ! j) \<longrightarrow>
       lru_key (idle p' ! i) < lru_key (idle p' ! j))"
  using assms
proof (induction segs arbitrary: p)
  case Nil
  then show ?case by (intro exI [of _ "clock p"] exI [of _ p]) simp
next
  case (Cons s segs)
  have "ticks_ok p" "idle_bytes p = capacities (idle p)"
    "idle_bytes p + entry_capacity (leased_entry s) \<le> usize_max"
    "entry_id (leased_entry s) \<notin> entry_id ` set (idle p)" "length (idle p) < usize_max"
    using Cons.prems by auto
  from return_segment_spec [OF this] obtain t q where
    one: "return_segment p s = (Ok q :: (('k, 'w, 'a) pool, 'e) outcome)"
    and q: "q = p\<lparr>idle := idle q, idle_bytes := capacities (idle q), clock := t\<rparr>" "ticks_ok q"
    and more: "map untick (idle q) = map untick (idle p @ [leased_entry s])"
    and last: "\<forall>e \<in> set (butlast (idle q)). lru_key e < lru_key (last (idle q))"
    and kept: "\<forall>i < length (idle p). \<forall>j < length (idle p). lru_key (idle p ! i) < lru_key (idle p ! j) \<longrightarrow>
       lru_key (idle q ! i) < lru_key (idle q ! j)"
    by auto
  note more' = untick_map_eqD [OF more]
  have bytes: "idle_bytes q = capacities (idle q)" using arg_cong [OF q(1), of idle_bytes] by simp
  have newest: "lru_key (idle q ! i) < lru_key (idle q ! length (idle p))" if "i < length (idle p)" for i
  proof -
    have "idle q ! i \<in> set (butlast (idle q))"
      using that more'(3) by (auto simp: in_set_conv_nth nth_butlast intro!: exI [of _ i])
    moreover have "last (idle q) = idle q ! length (idle p)"
      using more'(3) by (subst last_conv_nth) auto
    ultimately show ?thesis using last by auto
  qed
  have "idle_bytes q + capacities (map leased_entry segs) \<le> usize_max"
    using Cons.prems(2,3) bytes more'(2) by simp
  moreover have "distinct (map entry_id (idle q @ map leased_entry segs))"
    using Cons.prems(4) more'(1) by (auto simp: distinct_append simp del: map_map)
  moreover have "length (idle q) + length segs \<le> usize_max" using Cons.prems(5) more'(3) by simp
  ultimately obtain t' p' where IH:
    "fold_outcome return_segment q segs = (Ok p' :: (('k, 'w, 'a) pool, 'e) outcome)"
    "p' = q\<lparr>idle := idle p', idle_bytes := capacities (idle p'), clock := t'\<rparr>" "ticks_ok p'"
    "map untick (idle p') = map untick (idle q) @ map (untick \<circ> leased_entry) segs"
    "\<forall>j < length (idle p'). length (idle q) \<le> j \<longrightarrow> (\<forall>i < j. lru_key (idle p' ! i) < lru_key (idle p' ! j))"
    "\<forall>i < length (idle q). \<forall>j < length (idle q). lru_key (idle q ! i) < lru_key (idle q ! j) \<longrightarrow>
       lru_key (idle p' ! i) < lru_key (idle p' ! j)"
    using Cons.IH [OF q(2) bytes] by blast
  have "fold_outcome return_segment p (s # segs) = (Ok p' :: (('k, 'w, 'a) pool, 'e) outcome)"
    using one IH(1) by simp
  moreover have "p' = p\<lparr>idle := idle p', idle_bytes := capacities (idle p'), clock := t'\<rparr>"
    using q(1) IH(2) by (cases p; cases q; cases p') simp
  moreover have "map untick (idle p') = map untick (idle p) @ map (untick \<circ> leased_entry) (s # segs)"
    using IH(4) more by simp
  moreover have "lru_key (idle p' ! i) < lru_key (idle p' ! j)"
    if "j < length (idle p')" "length (idle p) \<le> j" "i < j" for i j
    using that IH(5,6) newest more'(3) by (cases "j = length (idle p)") auto
  moreover have "lru_key (idle p' ! i) < lru_key (idle p' ! j)"
    if "i < length (idle p)" "j < length (idle p)" "lru_key (idle p ! i) < lru_key (idle p ! j)" for i j
    using that IH(6) kept more'(3) by auto
  ultimately show ?case using IH(3) by blast
qed

text \<open>
  The state of a pool in use: \<open>ls\<close> are the leases that the clients hold.
\<close>

definition pool_ok :: "('k, 'w, 'a) pool \<times> ('k, 'w) lease list \<Rightarrow> bool" where
  "pool_ok s \<longleftrightarrow> (case s of (p, ls) \<Rightarrow>
     idle_bytes p = capacities (idle p) \<and> idle_bytes p \<le> max_idle_bytes p \<and>
     max_idle_bytes p \<le> usize_max \<and>
     leased_bytes p = sum_list (map lease_actual_bytes ls) \<and> leased_bytes p \<le> usize_max \<and>
     leased_segments p = sum_list (map (length \<circ> lease_segments) ls) \<and>
     leased_segments p \<le> usize_max \<and>
     (\<forall>l \<in> set ls. lease_actual_bytes l = capacities (lease_entries l)) \<and>
     distinct (map entry_id (idle p @ concat (map lease_entries ls))) \<and>
     (\<forall>e \<in> set (idle p @ concat (map lease_entries ls)). entry_id e < next_id p) \<and>
     next_id p \<le> usize_max \<and>
     (\<forall>e \<in> set (idle p). last_used e \<le> clock p) \<and> clock p \<le> usize_max)"

lemma distinct_below:
  fixes f :: "'b \<Rightarrow> nat"
  assumes "distinct (map f xs)" and "\<forall>x \<in> set xs. f x < n"
  shows "length xs \<le> n"
proof -
  have "length xs = card (f ` set xs)" using distinct_card [OF assms(1)] by simp
  also have "\<dots> \<le> card {..<n}" using assms(2) by (intro card_mono) auto
  finally show ?thesis by simp
qed

lemma pool_ok_ticks:
  assumes "pool_ok (p, ls)"
  shows "ticks_ok p" and "length (idle p @ concat (map lease_entries ls)) \<le> usize_max"
proof -
  have "length (idle p @ concat (map lease_entries ls)) \<le> next_id p"
    using assms by (intro distinct_below [of entry_id]) (simp_all add: pool_ok_def)
  then show l: "length (idle p @ concat (map lease_entries ls)) \<le> usize_max"
    using assms by (simp add: pool_ok_def)
  then show "ticks_ok p" using assms by (simp add: pool_ok_def ticks_ok_def)
qed

lemma drop_lease_spec:
  assumes ok: "pool_ok (p, l # ls)" and room: "idle_bytes p + lease_actual_bytes l \<le> usize_max"
  shows "\<exists>gone t q p'. drop_lease p l = (Ok p' :: (('k, 'w, 'a) pool, 'e) outcome) \<and>
    evicts q gone p' \<and> capacities (idle p') \<le> max_idle_bytes p \<and>
    (gone \<noteq> [] \<longrightarrow> max_idle_bytes p < capacities (idle p') + entry_capacity (last gone)) \<and>
    q = p\<lparr>leased_bytes := leased_bytes p - lease_actual_bytes l,
        leased_segments := leased_segments p - length (lease_segments l),
        idle := idle q, idle_bytes := capacities (idle q), clock := t\<rparr> \<and> ticks_ok q \<and>
    map untick (idle q) = map untick (idle p @ lease_entries l) \<and>
    (\<forall>j < length (idle q). length (idle p) \<le> j \<longrightarrow> (\<forall>i < j. lru_key (idle q ! i) < lru_key (idle q ! j))) \<and>
    (\<forall>i < length (idle p). \<forall>j < length (idle p). lru_key (idle p ! i) < lru_key (idle p ! j) \<longrightarrow>
       lru_key (idle q ! i) < lru_key (idle q ! j))"
proof -
  define p1 where "p1 = p\<lparr>leased_bytes := leased_bytes p - lease_actual_bytes l,
    leased_segments := leased_segments p - length (lease_segments l)\<rparr>"
  have idle [simp]: "idle p1 = idle p" "idle_bytes p1 = idle_bytes p"
    "max_idle_bytes p1 = max_idle_bytes p" by (simp_all add: p1_def)
  have subs: "checked_sub (leased_bytes p) (lease_actual_bytes l) =
      Some (leased_bytes p - lease_actual_bytes l)"
    "checked_sub (leased_segments p) (length (lease_segments l)) =
      Some (leased_segments p - length (lease_segments l))"
    using ok by (simp_all add: pool_ok_def checked_sub_def)
  have pre1: "ticks_ok p1" using pool_ok_ticks(1) [OF ok] by (simp add: ticks_ok_def p1_def)
  have pre2: "idle_bytes p1 = capacities (idle p1)" using ok by (simp add: pool_ok_def)
  have pre3: "idle_bytes p1 + capacities (map leased_entry (lease_segments l)) \<le> usize_max"
    using ok room by (simp add: pool_ok_def lease_entries_def)
  have pre4: "distinct (map entry_id (idle p1 @ map leased_entry (lease_segments l)))"
    using ok by (auto simp: pool_ok_def lease_entries_def)
  have pre5: "length (idle p1) + length (lease_segments l) \<le> usize_max"
    using pool_ok_ticks(2) [OF ok] by (simp add: lease_entries_def)
  from return_loop_spec [OF pre1 pre2 pre3 pre4 pre5] obtain t q where q:
    "fold_outcome return_segment p1 (lease_segments l) = (Ok q :: (('k, 'w, 'a) pool, 'e) outcome)"
    "q = p1\<lparr>idle := idle q, idle_bytes := capacities (idle q), clock := t\<rparr>" "ticks_ok q"
    "map untick (idle q) = map untick (idle p1) @ map (untick \<circ> leased_entry) (lease_segments l)"
    "\<forall>j < length (idle q). length (idle p1) \<le> j \<longrightarrow> (\<forall>i < j. lru_key (idle q ! i) < lru_key (idle q ! j))"
    "\<forall>i < length (idle p1). \<forall>j < length (idle p1). lru_key (idle p1 ! i) < lru_key (idle p1 ! j) \<longrightarrow>
       lru_key (idle q ! i) < lru_key (idle q ! j)"
    by blast
  have fields: "idle_bytes q = capacities (idle q)" "max_idle_bytes q = max_idle_bytes p"
    using arg_cong [OF q(2), of idle_bytes] arg_cong [OF q(2), of max_idle_bytes] by simp_all
  from evict_to_limit_spec [OF fields(1)] obtain gone p' where e:
    "evict_to_limit q = (Ok p' :: (('k, 'w, 'a) pool, 'e) outcome)" "evicts q gone p'"
    "capacities (idle p') \<le> max_idle_bytes q"
    "gone \<noteq> [] \<longrightarrow> max_idle_bytes q < capacities (idle p') + entry_capacity (last gone)" by blast
  have "drop_lease p l = (Ok p' :: (('k, 'w, 'a) pool, 'e) outcome)"
    using subs q(1) e(1) by (simp add: drop_lease_def expect_def p1_def)
  moreover have "q = p\<lparr>leased_bytes := leased_bytes p - lease_actual_bytes l,
      leased_segments := leased_segments p - length (lease_segments l),
      idle := idle q, idle_bytes := capacities (idle q), clock := t\<rparr>"
    using q(2) by (cases p; cases q) (simp add: p1_def)
  moreover have "map untick (idle q) = map untick (idle p @ lease_entries l)"
    using q(4) by (simp add: lease_entries_def)
  ultimately show ?thesis
    by (intro exI conjI) (assumption | rule e(2-) [unfolded fields(2)] q(3) q(5,6) [unfolded idle])+
qed

section \<open>A pool in use\<close>

text \<open>
  Every sequence of critical sections that the clients of one pool can run: acquisitions that
  succeed or fail, leases dropped in any order, and changes of the idle limit.
\<close>

inductive pool_step ::
    "('k, 'w, 'a, 'x) allocate \<Rightarrow> ('k, 'w, 'a) pool \<times> ('k, 'w) lease list
      \<Rightarrow> ('k, 'w, 'a) pool \<times> ('k, 'w) lease list \<Rightarrow> bool"
  for alloc :: "('k, 'w, 'a, 'x) allocate" where
  acquired: "acquire alloc p requests = Ok (l, p') \<Longrightarrow> pool_step alloc (p, ls) (p', l # ls)"
| refused: "acquire alloc p requests = Err (e, p') \<Longrightarrow> pool_step alloc (p, ls) (p', ls)"
| dropped: "drop_lease p l = (Ok p' :: (('k, 'w, 'a) pool, unit) outcome) \<Longrightarrow>
    pool_step alloc (p, ls1 @ l # ls2) (p', ls1 @ ls2)"
| limited: "set_max_idle_bytes p m = (Ok p' :: (('k, 'w, 'a) pool, unit) outcome) \<Longrightarrow>
    m \<le> usize_max \<Longrightarrow> pool_step alloc (p, ls) (p', ls)"

inductive_cases pool_step_cases: "pool_step alloc (p, ls) t"

definition new_pool :: "('k, 'w, 'a) pool \<times> ('k, 'w) lease list \<Rightarrow> bool" where
  "new_pool s \<longleftrightarrow> (\<exists>m a. m \<le> usize_max \<and> s = (pool_new m a, []))"

lemma ids_shrink:
  assumes "mset gone + mset es' = mset es" and "distinct (map entry_id (es @ fs))"
    and "\<forall>e \<in> set (es @ fs). entry_id e < n"
  shows "distinct (map entry_id (es' @ fs))" and "\<forall>e \<in> set (es' @ fs). entry_id e < n"
proof -
  have perm: "mset (es @ fs) = mset (gone @ es' @ fs)" using assms(1) by simp
  from arg_cong [OF perm, of "image_mset entry_id"]
  have "mset (map entry_id (es @ fs)) = mset (map entry_id (gone @ es' @ fs))" by simp
  with assms(2) have "distinct (map entry_id (gone @ es' @ fs))"
    using mset_eq_imp_distinct_iff by blast
  then show "distinct (map entry_id (es' @ fs))" by simp
  have "set (es @ fs) = set (gone @ es' @ fs)" using mset_eq_setD [OF perm] .
  with assms(3) show "\<forall>e \<in> set (es' @ fs). entry_id e < n" by auto
qed

lemma pool_ok_left:
  assumes ok: "pool_ok (p, ls)" and left: "state_left alloc p p'"
  shows "pool_ok (p', ls)"
proof -
  from left have eq: "p' = p\<lparr>allocator := allocator p', idle := idle p',
      idle_bytes := capacities (idle p')\<rparr>" and sub: "mset (idle p') \<subseteq># mset (idle p)"
    by (auto simp: state_left_def)
  from sub obtain gone where gone: "mset gone + mset (idle p') = mset (idle p)"
    by (metis ex_mset subset_mset.diff_add)
  note ids = ids_shrink [OF gone, of "concat (map lease_entries ls)" "next_id p"]
  have "set (idle p') \<subseteq> set (idle p)" using set_mset_mono [OF sub] by simp
  moreover have "max_idle_bytes p' = max_idle_bytes p" "leased_bytes p' = leased_bytes p"
    "leased_segments p' = leased_segments p" "next_id p' = next_id p" "clock p' = clock p"
    "idle_bytes p' = capacities (idle p')"
    using arg_cong [OF eq, of max_idle_bytes] arg_cong [OF eq, of leased_bytes]
      arg_cong [OF eq, of leased_segments] arg_cong [OF eq, of next_id] arg_cong [OF eq, of clock]
      arg_cong [OF eq, of idle_bytes]
    by simp_all
  moreover have "capacities (idle p') \<le> capacities (idle p)" by (rule capacities_mset [OF sub])
  ultimately show ?thesis using ok ids by (auto simp: pool_ok_def)
qed

lemma pool_ok_published:
  assumes ok: "pool_ok (p, ls)" and "serves requests l" and pub: "publishes p l p'"
  shows "pool_ok (p', l # ls)"
proof -
  from pub obtain taken where sub: "mset (idle p' @ taken) \<subseteq># mset (idle p)"
    and ids: "mset (map entry_id (lease_entries l)) =
      mset (map entry_id taken) + mset [next_id p..<next_id p']"
    and le: "next_id p \<le> next_id p'"
    unfolding publishes_def by blast
  from sub obtain gone where gone: "mset gone + mset (idle p' @ taken) = mset (idle p)"
    by (metis ex_mset subset_mset.diff_add)
  let ?rest = "concat (map lease_entries ls)"
  have "distinct (map entry_id (idle p @ ?rest))" "\<forall>e \<in> set (idle p @ ?rest). entry_id e < next_id p"
    using ok by (simp_all add: pool_ok_def)
  note shrunk = ids_shrink [OF gone this]
  have lease: "mset (map entry_id (lease_entries l)) = mset (map entry_id taken @ [next_id p..<next_id p'])"
    using ids by simp
  have "distinct (map entry_id taken @ [next_id p..<next_id p'])"
    using shrunk by (fastforce simp: ball_Un)
  then have d: "distinct (map entry_id (lease_entries l))"
    using mset_eq_imp_distinct_iff [OF lease] by blast
  have s: "entry_id ` set (lease_entries l) = entry_id ` set taken \<union> {next_id p..<next_id p'}"
    using mset_eq_setD [OF lease] by simp
  have disjoint: "entry_id ` set (idle p') \<inter> entry_id ` set taken = {}"
    "entry_id ` set taken \<inter> entry_id ` set ?rest = {}"
    using shrunk(1) by (auto simp del: set_concat)
  have below: "entry_id ` (set (idle p') \<union> set ?rest) \<inter> {next_id p..<next_id p'} = {}"
    using shrunk(2) unfolding disjoint_iff by (auto simp: ball_Un simp del: set_concat)
  have apart: "entry_id ` set (idle p') \<inter> entry_id ` set (lease_entries l) = {}"
    "entry_id ` set (lease_entries l) \<inter> entry_id ` set ?rest = {}"
    using disjoint below unfolding s by blast+
  have "distinct (map entry_id (idle p' @ lease_entries l @ ?rest))"
    using shrunk(1) d apart by (simp del: set_concat) blast
  moreover have "entry_id e < next_id p'" if "e \<in> set (idle p' @ lease_entries l @ ?rest)" for e
  proof -
    have old: "entry_id f < next_id p'" if "f \<in> set ((idle p' @ taken) @ ?rest)" for f
      using bspec [OF shrunk(2) that] le by simp
    from that consider "e \<in> set ((idle p' @ taken) @ ?rest)" | "e \<in> set (lease_entries l)"
      by (auto simp del: set_concat)
    then show ?thesis
    proof cases
      case 2
      then have "entry_id e \<in> entry_id ` set taken \<union> {next_id p..<next_id p'}"
        unfolding s [symmetric] by (rule imageI)
      then show ?thesis using old by auto
    qed (rule old)
  qed
  moreover have "set (idle p') \<subseteq> set (idle p)" using set_mset_mono [OF sub] by auto
  moreover have "capacities (idle p') \<le> capacities (idle p)"
    using capacities_mset [OF sub] by simp
  moreover have "lease_actual_bytes l = capacities (lease_entries l)"
    using assms(2) by (simp add: serves_def lease_entries_def capacities_def comp_def)
  ultimately show ?thesis
    using ok pub by (simp add: pool_ok_def publishes_def subset_iff image_Un)
qed

lemma pool_ok_evicted:
  assumes "evicts q gone p'" and "capacities (idle p') \<le> max_idle_bytes q"
    and "max_idle_bytes q \<le> usize_max"
    and "leased_bytes q = sum_list (map lease_actual_bytes ls)" "leased_bytes q \<le> usize_max"
    and "leased_segments q = sum_list (map (length \<circ> lease_segments) ls)"
    and "leased_segments q \<le> usize_max"
    and "\<forall>l \<in> set ls. lease_actual_bytes l = capacities (lease_entries l)"
    and "distinct (map entry_id (idle q @ concat (map lease_entries ls)))"
    and "\<forall>e \<in> set (idle q @ concat (map lease_entries ls)). entry_id e < next_id q"
    and "next_id q \<le> usize_max" and "\<forall>e \<in> set (idle q). last_used e \<le> clock q"
    and "clock q \<le> usize_max"
  shows "pool_ok (p', ls)"
proof -
  from assms(1) have eq: "p' = q\<lparr>idle := idle p', idle_bytes := capacities (idle p')\<rparr>"
    and perm: "mset gone + mset (idle p') = mset (idle q)" by (simp_all add: evicts_def)
  from mset_eq_setD [of "gone @ idle p'" "idle q"] perm have "set (idle p') \<subseteq> set (idle q)" by auto
  moreover have "max_idle_bytes p' = max_idle_bytes q" "leased_bytes p' = leased_bytes q"
    "leased_segments p' = leased_segments q" "next_id p' = next_id q" "clock p' = clock q"
    "idle_bytes p' = capacities (idle p')"
    using arg_cong [OF eq, of max_idle_bytes] arg_cong [OF eq, of leased_bytes]
      arg_cong [OF eq, of leased_segments] arg_cong [OF eq, of next_id] arg_cong [OF eq, of clock]
      arg_cong [OF eq, of idle_bytes]
    by simp_all
  ultimately show ?thesis
    using assms ids_shrink [OF perm assms(9,10)] by (auto simp: pool_ok_def)
qed

lemma pool_ok_limited:
  assumes ok: "pool_ok (p, ls)" and m: "m \<le> usize_max"
  shows "\<exists>gone p'. set_max_idle_bytes p m = (Ok p' :: (('k, 'w, 'a) pool, 'e) outcome) \<and>
    evicts (p\<lparr>max_idle_bytes := m\<rparr>) gone p' \<and> pool_ok (p', ls) \<and>
    (gone \<noteq> [] \<longrightarrow> m < capacities (idle p') + entry_capacity (last gone))"
proof -
  let ?q = "p\<lparr>max_idle_bytes := m\<rparr>"
  have "idle_bytes ?q = capacities (idle ?q)" using ok by (simp add: pool_ok_def)
  from evict_to_limit_spec [OF this] obtain gone p' where e:
    "evict_to_limit ?q = (Ok p' :: (('k, 'w, 'a) pool, 'e) outcome)" "evicts ?q gone p'"
    "capacities (idle p') \<le> max_idle_bytes ?q"
    "gone \<noteq> [] \<longrightarrow> max_idle_bytes ?q < capacities (idle p') + entry_capacity (last gone)" by blast
  have "pool_ok (p', ls)"
    by (rule pool_ok_evicted [OF e(2,3)]) (use ok m in \<open>simp_all add: pool_ok_def\<close>)
  with e show ?thesis by (auto simp: set_max_idle_bytes_def)
qed

lemma pool_ok_front:
  assumes "pool_ok (p, ls1 @ l # ls2)"
  shows "pool_ok (p, l # ls1 @ ls2)"
proof -
  have "mset (map entry_id (idle p @ concat (map lease_entries (ls1 @ l # ls2)))) =
      mset (map entry_id (idle p @ concat (map lease_entries (l # ls1 @ ls2))))"
    by (simp add: ac_simps)
  then have "distinct (map entry_id (idle p @ concat (map lease_entries (ls1 @ l # ls2)))) \<longleftrightarrow>
      distinct (map entry_id (idle p @ concat (map lease_entries (l # ls1 @ ls2))))"
    by (rule mset_eq_imp_distinct_iff)
  with assms show ?thesis
    unfolding pool_ok_def prod.case by (simp del: distinct_append distinct_map map_append) (auto simp: ac_simps)
qed

lemma pool_ok_dropped:
  assumes ok: "pool_ok (p, l # ls)" and run: "drop_lease p l = (Ok p' :: (('k, 'w, 'a) pool, 'e) outcome)"
    and room: "idle_bytes p + lease_actual_bytes l \<le> usize_max"
  shows "pool_ok (p', ls)"
proof -
  from drop_lease_spec [OF ok room, where 'e = 'e] run obtain gone t q where
    e: "evicts q gone p'" "capacities (idle p') \<le> max_idle_bytes p"
    and eq: "q = p\<lparr>leased_bytes := leased_bytes p - lease_actual_bytes l,
        leased_segments := leased_segments p - length (lease_segments l),
        idle := idle q, idle_bytes := capacities (idle q), clock := t\<rparr>"
    and ticks: "ticks_ok q" and same: "map untick (idle q) = map untick (idle p @ lease_entries l)"
    by (metis outcome.inject(1))
  have fields: "max_idle_bytes q = max_idle_bytes p" "next_id q = next_id p"
    "leased_bytes q = leased_bytes p - lease_actual_bytes l"
    "leased_segments q = leased_segments p - length (lease_segments l)"
    using arg_cong [OF eq, of max_idle_bytes] arg_cong [OF eq, of leased_bytes]
      arg_cong [OF eq, of leased_segments] arg_cong [OF eq, of next_id]
    by simp_all
  have ids: "map entry_id (idle q @ fs) = map entry_id (idle p @ lease_entries l @ fs)" for fs
    using untick_map_eqD(1) [OF same] by simp
  have "distinct (map entry_id (idle q @ concat (map lease_entries ls)))"
    using ok unfolding ids by (auto simp: pool_ok_def image_Un)
  moreover have "\<forall>i \<in> set (map entry_id (idle q @ concat (map lease_entries ls))). i < next_id q"
    using ok fields unfolding ids by (auto simp: pool_ok_def)
  ultimately show ?thesis
    using ok fields e ticks by (intro pool_ok_evicted [OF e(1)]) (auto simp: pool_ok_def ticks_ok_def)
qed

lemma return_segment_bytes:
  "return_segment p s = (Ok p' :: (('k, 'w, 'a) pool, 'e) outcome) \<Longrightarrow>
    idle_bytes p' = idle_bytes p + entry_capacity (leased_entry s) \<and> idle_bytes p' \<le> usize_max"
  by (auto simp: return_segment_def next_lru_tick_def outcome_iff checked_simps
      split: option.splits prod.splits)

lemma return_loop_room:
  "fold_outcome return_segment p segs = (Ok p' :: (('k, 'w, 'a) pool, 'e) outcome) \<Longrightarrow> idle_bytes p \<le> usize_max \<Longrightarrow>
    idle_bytes p + capacities (map leased_entry segs) \<le> usize_max"
proof (induction segs arbitrary: p)
  case (Cons s segs)
  from Cons.prems(1) obtain q where q: "return_segment p s = (Ok q :: (('k, 'w, 'a) pool, 'e) outcome)"
    "fold_outcome return_segment q segs = (Ok p' :: (('k, 'w, 'a) pool, 'e) outcome)"
    by (auto simp: outcome_iff)
  from Cons.IH [OF q(2)] return_segment_bytes [OF q(1)] show ?case by simp
qed simp

lemma drop_lease_room:
  assumes "drop_lease p l = (Ok p' :: (('k, 'w, 'a) pool, 'e) outcome)" and "pool_ok (p, l # ls)"
  shows "idle_bytes p + lease_actual_bytes l \<le> usize_max"
proof -
  from assms(1) obtain q where
    "fold_outcome return_segment (p\<lparr>leased_bytes := leased_bytes p - lease_actual_bytes l,
       leased_segments := leased_segments p - length (lease_segments l)\<rparr>) (lease_segments l) = (Ok q :: (('k, 'w, 'a) pool, 'e) outcome)"
    by (auto simp: drop_lease_def outcome_iff checked_simps)
  from return_loop_room [OF this] assms(2) show ?thesis
    by (simp add: pool_ok_def lease_entries_def)
qed

lemma drop_lease_no_error: "drop_lease p l \<noteq> (Err e :: (('k, 'w, 'a) pool, 'e) outcome)"
proof -
  have "return_segment q s \<noteq> (Err e :: (('k, 'w, 'a) pool, 'e) outcome)" for q :: "('k, 'w, 'a) pool" and s
    by (auto simp: return_segment_def next_lru_tick_def outcome_iff split: option.splits)
  then have loop: "fold_outcome return_segment q segs \<noteq> (Err e :: (('k, 'w, 'a) pool, 'e) outcome)" for q :: "('k, 'w, 'a) pool" and segs
    by (induction segs arbitrary: q) (auto simp: outcome_iff)
  have "evict_to_limit q \<noteq> (Err e :: (('k, 'w, 'a) pool, 'e) outcome)" for q :: "('k, 'w, 'a) pool"
  proof (induction q rule: evict_to_limit.induct)
    case (1 q)
    then show ?case
      by (subst evict_to_limit.simps) (auto split: option.splits prod.splits)
  qed
  with loop show ?thesis by (auto simp: drop_lease_def outcome_iff)
qed

lemma pool_ok_new: "new_pool s \<Longrightarrow> pool_ok s"
  by (auto simp: new_pool_def pool_new_def pool_ok_def)

lemma acquire_kept:
  assumes "pool_ok (p, ls)"
  shows "acquire alloc p requests = Ok (l, p') \<Longrightarrow> pool_ok (p', l # ls)"
    and "acquire alloc p requests = Err (e, p') \<Longrightarrow> pool_ok (p', ls)"
proof -
  from assms have "idle_bytes p = capacities (idle p)" "capacities (idle p) \<le> usize_max"
    by (auto simp: pool_ok_def)
  note spec = acquire_spec [OF this, where alloc = alloc and requests = requests]
  show "acquire alloc p requests = Ok (l, p') \<Longrightarrow> pool_ok (p', l # ls)"
    using spec pool_ok_published [OF assms] by auto
  show "acquire alloc p requests = Err (e, p') \<Longrightarrow> pool_ok (p', ls)"
    using spec pool_ok_left [OF assms] by auto
qed

lemma pool_step_ok: "pool_step alloc s t \<Longrightarrow> pool_ok s \<Longrightarrow> pool_ok t"
proof (induction rule: pool_step.induct)
  case (acquired p requests l p' ls)
  then show ?case by (blast intro: acquire_kept)
next
  case (refused p requests e p' ls)
  then show ?case by (blast intro: acquire_kept)
next
  case (dropped p l p' ls1 ls2)
  from pool_ok_front [OF dropped.prems] have ok: "pool_ok (p, l # ls1 @ ls2)" .
  show ?case by (rule pool_ok_dropped [OF ok dropped.hyps drop_lease_room [OF dropped.hyps ok]])
next
  case (limited p m p' ls)
  from pool_ok_limited [OF limited.prems limited.hyps(2), where 'e = unit] limited.hyps(1)
  show ?case by auto
qed

interpretation pool_system: invariant_system new_pool "pool_step alloc" pool_ok
  for alloc :: "('k, 'w, 'a, 'x) allocate"
  by unfold_locales (auto intro: pool_ok_new pool_step_ok)

text \<open>
  C13. The counters of a pool are exact in every state that any sequence of acquisitions (with an
  allocator that may fail, shrink or grow segments as it likes), drops and limit changes can
  reach: \<open>idle_bytes\<close> is the sum of the idle capacities and within the limit, the leased counters
  are the sums over the live leases, and no segment is in two places: all identifiers are
  distinct and below \<open>next_id\<close>.
\<close>
theorem pool_accounting:
  assumes "new_pool s" and "(pool_step alloc)\<^sup>*\<^sup>* s (p, ls)"
  shows "idle_bytes p = sum_list (map entry_capacity (idle p)) \<and> idle_bytes p \<le> max_idle_bytes p \<and>
    leased_bytes p = sum_list (map lease_actual_bytes ls) \<and>
    leased_segments p = sum_list (map (length \<circ> lease_segments) ls) \<and>
    (\<forall>l \<in> set ls. lease_actual_bytes l =
       sum_list (map (entry_capacity \<circ> leased_entry) (lease_segments l))) \<and>
    distinct (map entry_id (idle p @ concat (map lease_entries ls))) \<and>
    (\<forall>e \<in> set (idle p @ concat (map lease_entries ls)). entry_id e < next_id p)"
  using pool_system.reachable_inv [OF assms]
  by (simp add: pool_ok_def capacities_def lease_entries_def comp_def)

definition exact_allocator :: "(nat, unit, unit, unit) allocate" where
  "exact_allocator a k n = (Inr ((), n), a)"

definition shown_pool :: "(nat, unit, unit) pool" where
  "shown_pool = pool_new 16 ()"

definition shown_lease :: "(nat, unit) lease" where
  "shown_lease = \<lparr>lease_segments = [\<lparr>leased_entry = \<lparr>entry_id = 0, entry_key = 0,
     entry_capacity = 8, entry_workspace = (), last_used = 0\<rparr>, leased_requested = 8\<rparr>],
   lease_requested_bytes = 8, lease_actual_bytes = 8\<rparr>"

lemma shown_acquire:
  "acquire exact_allocator shown_pool [\<lparr>request_key = 0, request_bytes = 8\<rparr>] =
    Ok (shown_lease, shown_pool\<lparr>next_id := 1, leased_bytes := 8, leased_segments := 1\<rparr>)"
  by (simp add: acquire_def shown_pool_def pool_new_def checked_add_def usize_max_def acquire_one_def
      best_fit_def allocate_with_retry_def exact_allocator_def publish_def expect_def shown_lease_def)

lemma shown_drop:
  "drop_lease (shown_pool\<lparr>next_id := 1, leased_bytes := 8, leased_segments := 1\<rparr>) shown_lease =
    Ok (shown_pool\<lparr>next_id := 1, clock := 1, idle_bytes := 8, idle := [\<lparr>entry_id = 0, entry_key = 0,
     entry_capacity = 8, entry_workspace = (), last_used = 1\<rparr>]\<rparr>)"
  by (simp add: drop_lease_def shown_pool_def pool_new_def shown_lease_def checked_sub_def
      checked_add_def expect_def usize_max_def return_segment_def next_lru_tick_def evict_to_limit.simps)

lemma pool_accounting_witness:
  "idle_bytes (shown_pool\<lparr>next_id := 1, clock := 1, idle_bytes := 8, idle := [\<lparr>entry_id = 0,
     entry_key = 0, entry_capacity = 8, entry_workspace = (), last_used = 1\<rparr>]\<rparr>) = 8"
proof -
  have new: "new_pool (shown_pool, [])"
    unfolding new_pool_def shown_pool_def
    by (rule exI [of _ 16], rule exI [of _ "()"]) (simp add: usize_max_def)
  have "pool_step exact_allocator (shown_pool, [])
      (shown_pool\<lparr>next_id := 1, leased_bytes := 8, leased_segments := 1\<rparr>, [shown_lease])"
    by (rule pool_step.acquired [OF shown_acquire])
  moreover have "pool_step exact_allocator
      (shown_pool\<lparr>next_id := 1, leased_bytes := 8, leased_segments := 1\<rparr>, [] @ shown_lease # [])
      (shown_pool\<lparr>next_id := 1, clock := 1, idle_bytes := 8, idle := [\<lparr>entry_id = 0,
         entry_key = 0, entry_capacity = 8, entry_workspace = (), last_used = 1\<rparr>]\<rparr>, [] @ [])"
    by (rule pool_step.dropped) (rule shown_drop)
  ultimately have "(pool_step exact_allocator)\<^sup>*\<^sup>* (shown_pool, [])
      (shown_pool\<lparr>next_id := 1, clock := 1, idle_bytes := 8, idle := [\<lparr>entry_id = 0,
         entry_key = 0, entry_capacity = 8, entry_workspace = (), last_used = 1\<rparr>]\<rparr>, [])"
    by (simp add: rtranclp.rtrancl_into_rtrancl converse_rtranclp_into_rtranclp)
  from pool_accounting [OF new this] show ?thesis by simp
qed

lemma reachable_ok: "new_pool s \<Longrightarrow> (pool_step alloc)\<^sup>*\<^sup>* s t \<Longrightarrow> pool_ok t"
  by (rule pool_system.reachable_inv)


lemma shown_new: "new_pool (shown_pool, [])"
  unfolding new_pool_def shown_pool_def
  by (rule exI [of _ 16], rule exI [of _ "()"]) (simp add: usize_max_def)


text \<open>
  C21. Dropping a lease panics in exactly one case: the capacity that comes back does not fit
  \<open>idle_bytes\<close> before the eviction that would make room. The two subtractions of the leased
  counters never fail.
\<close>
theorem drop_lease_panics_iff_overflow:
  assumes "new_pool s" and "(pool_step alloc)\<^sup>*\<^sup>* s (p, ls1 @ l # ls2)"
  shows "drop_lease p l = (Panic :: (('k, 'w, 'a) pool, 'e) outcome) \<longleftrightarrow>
    usize_max < idle_bytes p + lease_actual_bytes l"
proof -
  have ok: "pool_ok (p, l # ls1 @ ls2)" by (rule pool_ok_front [OF reachable_ok [OF assms]])
  show ?thesis
  proof (cases "usize_max < idle_bytes p + lease_actual_bytes l")
    case True
    with drop_lease_room [OF _ ok, where 'e = 'e] drop_lease_no_error [of p l, where 'e = 'e]
    show ?thesis by (cases "drop_lease p l :: (('k, 'w, 'a) pool, 'e) outcome") auto
  next
    case False
    with drop_lease_spec [OF ok, where 'e = 'e] show ?thesis by auto
  qed
qed

lemma shown_step:
  "(pool_step exact_allocator)\<^sup>*\<^sup>* (shown_pool, [])
    (shown_pool\<lparr>next_id := 1, leased_bytes := 8, leased_segments := 1\<rparr>, [] @ shown_lease # [])"
  using pool_step.acquired [OF shown_acquire, of "[]"] by (simp add: r_into_rtranclp)

lemma drop_lease_panics_iff_overflow_witness:
  "drop_lease (shown_pool\<lparr>next_id := 1, leased_bytes := 8, leased_segments := 1\<rparr>) shown_lease
    \<noteq> (Panic :: ((nat, unit, unit) pool, unit) outcome)"
  using drop_lease_panics_iff_overflow [OF shown_new shown_step, where 'e = unit]
  by (simp add: shown_pool_def pool_new_def shown_lease_def usize_max_def)



text \<open>
  The selection is the best fit the documentation promises: an entry of the key that is large
  enough, the smallest such entry, the lowest identifier among equals; and none is missed.
\<close>
theorem best_fit_smallest:
  "case best_fit p key bytes of
      Some i \<Rightarrow> i < length (idle p) \<and> entry_key (idle p ! i) = key \<and>
        bytes \<le> entry_capacity (idle p ! i) \<and>
        (\<forall>e \<in> set (idle p). entry_key e = key \<and> bytes \<le> entry_capacity e \<longrightarrow>
           entry_capacity (idle p ! i) < entry_capacity e \<or>
           entry_capacity (idle p ! i) = entry_capacity e \<and> entry_id (idle p ! i) \<le> entry_id e)
    | None \<Rightarrow> \<forall>e \<in> set (idle p). entry_key e = key \<longrightarrow> entry_capacity e < bytes"
proof (cases "best_fit p key bytes")
  case None
  then have "\<forall>e \<in> set (idle p). entry_key e = key \<longrightarrow> entry_capacity e < bytes"
    unfolding best_fit_None .
  with None show ?thesis by simp
next
  case (Some i)
  with best_fit_Some [OF Some] show ?thesis by auto
qed

lemma best_fit_smallest_witness:
  "best_fit (shown_pool\<lparr>idle := [\<lparr>entry_id = 0, entry_key = 0, entry_capacity = 8,
     entry_workspace = (), last_used = 1\<rparr>]\<rparr>) 0 4 = Some 0 \<and> (4::nat) \<le> 8"
  using best_fit_smallest [of "shown_pool\<lparr>idle := [\<lparr>entry_id = 0, entry_key = 0,
      entry_capacity = 8, entry_workspace = (), last_used = 1\<rparr>]\<rparr>" 0 4]
  by (simp add: best_fit_def)

text \<open>
  C20. The clock of the least-recently-used order never wraps. The tick given out is above every
  tick in the idle list, and when the \<open>u64\<close> would wrap, the ticks are compacted in place: the
  entries and their positions stay, and of two entries the one used earlier stays the earlier.
\<close>
theorem lru_clock_monotone:
  assumes "new_pool s" and "(pool_step alloc)\<^sup>*\<^sup>* s (p, ls)"
  shows "\<exists>t p'. next_lru_tick p = (Ok (t, p') :: (nat \<times> ('k, 'w, 'a) pool, 'e) outcome) \<and>
    t \<le> usize_max \<and> (\<forall>e \<in> set (idle p'). last_used e < t) \<and>
    map untick (idle p') = map untick (idle p) \<and>
    (\<forall>i < length (idle p). \<forall>j < length (idle p). lru_key (idle p ! i) < lru_key (idle p ! j) \<longrightarrow>
       lru_key (idle p' ! i) < lru_key (idle p' ! j))"
  using next_lru_tick_spec [OF pool_ok_ticks(1) [OF reachable_ok [OF assms]], where 'e = 'e] by blast

lemma lru_clock_monotone_witness:
  "\<exists>t p'. next_lru_tick shown_pool = (Ok (t, p') :: (nat \<times> (nat, unit, unit) pool, unit) outcome) \<and>
    t \<le> usize_max"
  using lru_clock_monotone [OF shown_new rtranclp.rtrancl_refl [of "pool_step exact_allocator"],
      where 'e = unit] by blast

definition crowded :: "(nat, unit, nat) pool" where
  "crowded = \<lparr>allocator = 0, max_idle_bytes = 16, idle = [\<lparr>entry_id = 1, entry_key = 1,
     entry_capacity = 8, entry_workspace = (), last_used = 1\<rparr>], idle_bytes = 8,
     leased_segments = 1, leased_bytes = usize_max, clock = 1, next_id = 2\<rparr>"

definition second_try :: "(nat, unit, nat, unit) allocate" where
  "second_try a k n = (if a = 0 then (Inl (), 1) else (Inr ((), n), a))"

text \<open>
  Requests whose sizes overflow \<open>usize\<close> are refused before the pool is touched. An overflow
  found after the allocator was asked is refused as well, but then the pool is not unchanged: the
  idle list was evicted for the retry.
\<close>
theorem overflow_refused:
  "(usize_max < sum_list (map request_bytes requests) \<longrightarrow>
     acquire alloc p requests = Err (ByteSizeOverflow, p)) \<and>
   acquire second_try crowded [\<lparr>request_key = 0, request_bytes = 8\<rparr>] =
     Err (ByteSizeOverflow, crowded\<lparr>allocator := 1, idle := [], idle_bytes := 0\<rparr>)"
proof (intro conjI impI)
  assume big: "usize_max < sum_list (map request_bytes requests)"
  then have "requests \<noteq> []" by auto
  with big show "acquire alloc p requests = Err (ByteSizeOverflow, p)"
    by (simp add: acquire_def fold_opt_checked_add)
next
  show "acquire second_try crowded [\<lparr>request_key = 0, request_bytes = 8\<rparr>] =
     Err (ByteSizeOverflow, crowded\<lparr>allocator := 1, idle := [], idle_bytes := 0\<rparr>)"
    by (simp add: acquire_def crowded_def checked_add_def usize_max_def acquire_one_def best_fit_def
        allocate_with_retry_def second_try_def evict_all_idle_def publish_def fail_with_def
        rollback_def rollback_one_def)
qed

lemma overflow_refused_witness:
  "acquire exact_allocator shown_pool [\<lparr>request_key = 0, request_bytes = usize_max\<rparr>,
     \<lparr>request_key = 0, request_bytes = 1\<rparr>] = Err (ByteSizeOverflow, shown_pool)"
  using overflow_refused [of "[\<lparr>request_key = 0, request_bytes = usize_max\<rparr>,
     \<lparr>request_key = 0, request_bytes = 1\<rparr>]" exact_allocator shown_pool] by simp

end
