(* ===== verification/Dense.thy ===== *)
theory Dense
  imports Prelude
begin

text \<open>
  Dense table identifiers and checked table ranges (\<open>crates/runtime/src/dense.rs\<close>).

  The macro \<open>dense_ids!\<close> makes one \<open>u32\<close> newtype per table. \<open>dense_id\<close> is that newtype with
  the table as a phantom type argument, so that an id of one table is not an id of another;
  the tags below are the tables this development uses. \<open>dense_id\<close> derives Rust's \<open>Ord\<close>: it is
  ordered by the number.
\<close>

section \<open>Identifiers\<close>

datatype 'tag dense_id = DenseId (get_id: nat)

datatype value_tag = ValueTag
datatype instruction_tag = InstructionTag
datatype segment_tag = SegmentTag
datatype location_tag = LocationTag
datatype output_tag = OutputTag
datatype command_tag = CommandTag

type_synonym value_id = "value_tag dense_id"
type_synonym instruction_id = "instruction_tag dense_id"
type_synonym segment_id = "segment_tag dense_id"
type_synonym location_id = "location_tag dense_id"
type_synonym output_id = "output_tag dense_id"
type_synonym command_id = "command_tag dense_id"

instantiation dense_id :: (type) linorder
begin

definition less_eq_dense_id :: "'a dense_id \<Rightarrow> 'a dense_id \<Rightarrow> bool" where
  "less_eq_dense_id a b \<longleftrightarrow> get_id a \<le> get_id b"

definition less_dense_id :: "'a dense_id \<Rightarrow> 'a dense_id \<Rightarrow> bool" where
  "less_dense_id a b \<longleftrightarrow> get_id a < get_id b"

instance
  by standard (auto simp: less_eq_dense_id_def less_dense_id_def dense_id.expand)

end

definition from_index :: "nat \<Rightarrow> 'tag dense_id option" where
  "from_index i = map_option DenseId (u32_try_from i)"

definition id_index :: "'tag dense_id \<Rightarrow> nat" where
  "id_index i = get_id i"

lemma from_index_Some [checked_simps]:
  "from_index n = Some i \<longleftrightarrow> i = DenseId n \<and> n \<le> u32_max"
  by (auto simp: from_index_def u32_try_from_def)

lemma from_index_None [checked_simps]: "from_index n = None \<longleftrightarrow> u32_max < n"
  by (auto simp: from_index_def u32_try_from_def)

lemma id_index_DenseId [simp]: "id_index (DenseId n) = n"
  by (simp add: id_index_def)

lemma DenseId_id_index [simp]: "DenseId (id_index i) = i"
  by (simp add: id_index_def)

lemma id_index_inject [simp]: "id_index i = id_index j \<longleftrightarrow> i = j"
  by (cases i; cases j) simp

section \<open>Table ranges\<close>

record table_range =
  range_start :: nat
  range_len :: nat

definition range_new :: "'tag dense_id \<Rightarrow> nat \<Rightarrow> table_range" where
  "range_new start len = \<lparr>range_start = get_id start, range_len = len\<rparr>"

definition range_from_indexes :: "nat \<Rightarrow> nat \<Rightarrow> table_range option" where
  "range_from_indexes start len =
     (case u32_try_from start of None \<Rightarrow> None
      | Some s \<Rightarrow> (case u32_try_from len of None \<Rightarrow> None
      | Some l \<Rightarrow> (case checked_add_u32 s l of None \<Rightarrow> None
      | Some _ \<Rightarrow> Some \<lparr>range_start = s, range_len = l\<rparr>)))"

definition range_is_empty :: "table_range \<Rightarrow> bool" where
  "range_is_empty r \<longleftrightarrow> range_len r = 0"

definition range_end :: "table_range \<Rightarrow> 'tag dense_id option" where
  "range_end r = map_option DenseId (checked_add_u32 (range_start r) (range_len r))"

definition as_range :: "table_range \<Rightarrow> (nat \<times> nat) option" where
  "as_range r = (case range_end r of None \<Rightarrow> None
     | Some e \<Rightarrow> Some (range_start r, id_index (e :: command_id)))"

text \<open>\<open>slice::get\<close> of a range: \<open>None\<close> unless \<open>start <= end <= len\<close>.\<close>

definition slice_get :: "'a list \<Rightarrow> nat \<times> nat \<Rightarrow> 'a list option" where
  "slice_get xs r = (case r of (s, e) \<Rightarrow>
     if s \<le> e \<and> e \<le> length xs then Some (take (e - s) (drop s xs)) else None)"

definition range_get :: "table_range \<Rightarrow> 'a list \<Rightarrow> 'a list option" where
  "range_get r table = (case as_range r of None \<Rightarrow> None | Some ab \<Rightarrow> slice_get table ab)"

lemma range_from_indexes_Some:
  "range_from_indexes s l = Some r \<longleftrightarrow>
     r = \<lparr>range_start = s, range_len = l\<rparr> \<and> s + l \<le> u32_max"
  by (auto simp: range_from_indexes_def u32_try_from_def checked_add_u32_def split: option.splits)

lemma as_range_iff:
  "as_range r = Some (a, b) \<longleftrightarrow>
     a = range_start r \<and> b = range_start r + range_len r \<and> b \<le> u32_max"
  by (auto simp: as_range_def range_end_def checked_add_u32_def split: option.splits)

lemma range_get_Some:
  "range_get r table = Some xs \<longleftrightarrow>
     range_start r + range_len r \<le> u32_max \<and> range_start r + range_len r \<le> length table \<and>
     xs = take (range_len r) (drop (range_start r) table)"
  by (cases "as_range r")
     (auto simp: range_get_def slice_get_def as_range_iff as_range_def range_end_def
        checked_add_u32_def split: option.splits if_splits)

text \<open>
  A range built from table indexes addresses exactly its entries: reading it from a table
  fails when the range runs past the table, and otherwise returns a slice with one entry per
  position of the range, entry \<open>k\<close> being entry \<open>start + k\<close> of the table.
\<close>

theorem range_get_exact:
  assumes "range_from_indexes start len = Some r"
  shows "(range_get r table = None \<longleftrightarrow> length table < start + len) \<and>
    (\<forall>xs. range_get r table = Some xs \<longrightarrow>
       length xs = len \<and> (\<forall>k < len. xs ! k = table ! (start + k)))"
proof -
  from assms have r: "range_start r = start" "range_len r = len" "start + len \<le> u32_max"
    by (auto simp: range_from_indexes_Some)
  have "range_get r table = None \<longleftrightarrow> \<not> (start + len \<le> length table)"
    using range_get_Some [of r table] r by (metis not_None_eq)
  then show ?thesis
    using r by (auto simp: range_get_Some)
qed

theorem range_get_exact_witness:
  "range_from_indexes 1 2 = Some \<lparr>range_start = 1, range_len = 2\<rparr> \<and>
   range_get \<lparr>range_start = 1, range_len = 2\<rparr> [10, 11, 12, 13 :: nat] = Some [11, 12] \<and>
   range_get \<lparr>range_start = 1, range_len = 2\<rparr> [10, 11 :: nat] = None"
proof -
  have r: "range_from_indexes 1 2 = Some \<lparr>range_start = 1, range_len = 2\<rparr>"
    by (simp add: range_from_indexes_Some u32_max_def)
  have "range_get \<lparr>range_start = 1, range_len = 2\<rparr> [10, 11 :: nat] = None"
    using range_get_exact [OF r, of "[10, 11 :: nat]"] by simp
  moreover have "range_get \<lparr>range_start = 1, range_len = 2\<rparr> [10, 11, 12, 13 :: nat] = Some [11, 12]"
    by (simp add: range_get_Some u32_max_def)
  ultimately show ?thesis using r by simp
qed

end
