(* ===== verification/Memory.thy ===== *)
theory Memory
  imports Dense
begin

text \<open>
  Compiler-produced memory plans and their validation (\<open>crates/runtime/src/memory.rs\<close>).

  A plan is dense tables of segments, locations and outputs. The memory space of a segment is a
  type parameter, as in the code; \<open>native_memory_space\<close> is the default instance.
\<close>

section \<open>Plans\<close>

datatype storage_class =
    ExternalInput | PersistentConstant | PersistentState | EscapingOutput | Workspace | DeviceStatus

datatype native_memory_space = Cpu | MetalShared | MetalPrivate

datatype segment_ownership =
    WorkspaceOwned | ProvisionalOutput | InvocationStaging | StateTransaction

record 'm segment_decl =
  seg_bytes :: nat
  seg_alignment :: nat
  seg_space :: 'm
  seg_ownership :: segment_ownership

datatype location =
    LExternal nat
  | LPersistent nat
  | LInlineScalar nat
  | LSegment segment_id nat nat
  | LOutput output_id nat nat
  | LState nat nat nat
  | LAlias value_id nat

record output_slot =
  slot_value :: value_id
  slot_location :: location_id

record reuse_edge =
  previous_value :: value_id
  next_value :: value_id
  edge_after :: instruction_id
  edge_before :: instruction_id

record allocation_report =
  report_name :: string
  report_class :: storage_class
  report_bytes :: nat

record memory_report =
  external_bytes :: nat
  persistent_bytes :: nat
  state_bytes :: nat
  output_bytes :: nat
  workspace_bytes :: nat
  transaction_bytes :: nat
  peak_live_bytes :: nat
  packing_overhead_bytes :: nat
  largest_allocations :: "allocation_report list"

record invocation_memory_report =
  logical :: memory_report
  leased_workspace_bytes :: nat
  opaque_headroom_bytes :: nat

record 'm memory_plan =
  plan_segments :: "'m segment_decl list"
  plan_locations :: "location list"
  plan_outputs :: "output_slot list"
  plan_reuse_edges :: "reuse_edge list"
  plan_report :: memory_report

definition default_report :: memory_report where
  "default_report = \<lparr>external_bytes = 0, persistent_bytes = 0, state_bytes = 0, output_bytes = 0,
     workspace_bytes = 0, transaction_bytes = 0, peak_live_bytes = 0, packing_overhead_bytes = 0,
     largest_allocations = []\<rparr>"

definition default_plan :: "'m memory_plan" where
  "default_plan = \<lparr>plan_segments = [], plan_locations = [], plan_outputs = [],
     plan_reuse_edges = [], plan_report = default_report\<rparr>"

datatype memory_plan_error =
    PlanTooManySegments
  | PlanTooManyLocations
  | PlanByteSizeOverflow
  | InvalidAlignment segment_id nat
  | UnknownSegment location_id segment_id
  | LocationOutOfBounds location_id segment_id nat nat
  | UnknownOutputLocation value_id location_id

section \<open>Totals\<close>

definition checked_runtime_owned_bytes :: "memory_report \<Rightarrow> nat option" where
  "checked_runtime_owned_bytes r =
     fold_opt checked_add 0
       [persistent_bytes r, state_bytes r, output_bytes r, workspace_bytes r, transaction_bytes r]"

definition checked_accounted_bytes :: "invocation_memory_report \<Rightarrow> nat option" where
  "checked_accounted_bytes r =
     fold_opt checked_add 0
       [external_bytes (logical r), persistent_bytes (logical r), state_bytes (logical r),
        output_bytes (logical r), transaction_bytes (logical r), leased_workspace_bytes r,
        opaque_headroom_bytes r]"

definition checked_segment_bytes :: "'m segment_decl list \<Rightarrow> nat option" where
  "checked_segment_bytes segments =
     fold_opt (\<lambda>total segment. checked_add total (seg_bytes segment)) 0 segments"

section \<open>Validation\<close>

definition validate_segment ::
    "nat \<times> 'm segment_decl \<Rightarrow> (unit, memory_plan_error) outcome" where
  "validate_segment is = (case is of (index, segment) \<Rightarrow>
     if seg_alignment segment = 0 \<or> \<not> is_power_of_two (seg_alignment segment)
     then and_then (ok_or PlanTooManySegments (from_index index))
       (\<lambda>i. Err (InvalidAlignment i (seg_alignment segment)))
     else Ok ())"

definition validate_location ::
    "'m segment_decl list \<Rightarrow> nat \<times> location \<Rightarrow> (unit, memory_plan_error) outcome" where
  "validate_location segments il = (case il of (index, location) \<Rightarrow>
     (case location of
        LSegment segment offset bytes \<Rightarrow>
          and_then
            (case nth_opt segments (id_index segment) of
               Some decl \<Rightarrow> Ok decl
             | None \<Rightarrow> and_then (ok_or PlanTooManyLocations (from_index index))
                 (\<lambda>l. Err (UnknownSegment l segment)))
            (\<lambda>decl.
          and_then (ok_or PlanByteSizeOverflow (checked_add offset bytes)) (\<lambda>end.
            if end > seg_bytes decl
            then and_then (ok_or PlanTooManyLocations (from_index index))
              (\<lambda>l. Err (LocationOutOfBounds l segment end (seg_bytes decl)))
            else Ok ()))
      | _ \<Rightarrow> Ok ()))"

definition validate_output ::
    "location list \<Rightarrow> output_slot \<Rightarrow> (unit, memory_plan_error) outcome" where
  "validate_output locations slot =
     (if nth_opt locations (id_index (slot_location slot)) = None
      then Err (UnknownOutputLocation (slot_value slot) (slot_location slot))
      else Ok ())"

definition validate_plan :: "'m memory_plan \<Rightarrow> (unit, memory_plan_error) outcome" where
  "validate_plan plan =
     and_then (each_outcome validate_segment (enumerate 0 (plan_segments plan))) (\<lambda>_.
     and_then (ok_or PlanByteSizeOverflow (checked_segment_bytes (plan_segments plan))) (\<lambda>_.
     and_then (each_outcome (validate_location (plan_segments plan)) (enumerate 0 (plan_locations plan)))
       (\<lambda>_. each_outcome (validate_output (plan_locations plan)) (plan_outputs plan))))"

section \<open>What a validated plan promises\<close>

definition segment_ok :: "'m segment_decl \<Rightarrow> bool" where
  "segment_ok segment \<longleftrightarrow> is_power_of_two (seg_alignment segment)"

definition location_ok :: "'m segment_decl list \<Rightarrow> location \<Rightarrow> bool" where
  "location_ok segments location \<longleftrightarrow> (case location of
     LSegment segment offset bytes \<Rightarrow>
       id_index segment < length segments \<and> offset + bytes \<le> usize_max \<and>
       offset + bytes \<le> seg_bytes (segments ! id_index segment)
   | _ \<Rightarrow> True)"

lemma checked_segment_bytes_eq:
  "checked_segment_bytes segments =
    (if sum_list (map seg_bytes segments) \<le> usize_max then Some (sum_list (map seg_bytes segments)) else None)"
  by (auto simp: checked_segment_bytes_def fold_opt_checked_add)

lemma validate_segment_Ok: "validate_segment (i, s) = Ok () \<longleftrightarrow> segment_ok s"
  by (auto simp: validate_segment_def segment_ok_def outcome_iff is_power_of_two_pos
      dest: is_power_of_two_pos)

lemma validate_location_Ok: "validate_location segments (i, l) = Ok () \<longleftrightarrow> location_ok segments l"
  by (cases l) (auto simp: validate_location_def location_ok_def outcome_iff checked_simps not_less
      split: option.splits)

lemma validate_output_Ok:
  "validate_output locations slot = Ok () \<longleftrightarrow> id_index (slot_location slot) < length locations"
  by (auto simp: validate_output_def not_less)

lemma validate_not_Panic:
  "validate_segment is \<noteq> Panic" "validate_location segments il \<noteq> Panic"
  "validate_output locations slot \<noteq> Panic"
  by (auto simp: validate_segment_def validate_location_def validate_output_def outcome_iff
      split: prod.splits location.splits option.splits)

lemma validate_plan_not_Panic: "validate_plan plan \<noteq> Panic"
  by (auto simp: validate_plan_def outcome_iff each_outcome_Panic validate_not_Panic)


definition small_plan :: "native_memory_space memory_plan" where
  "small_plan = default_plan\<lparr>
     plan_segments := [\<lparr>seg_bytes = 64, seg_alignment = 16, seg_space = Cpu,
       seg_ownership = WorkspaceOwned\<rparr>],
     plan_locations := [LSegment (DenseId 0) 32 32]\<rparr>"


text \<open>
  The two totals a caller budgets with are the plain sums, or \<open>None\<close> when the sum does not
  fit: neither wraps. The invocation total counts the leased workspace in place of the planned
  one.
\<close>
theorem report_totals:
  "checked_runtime_owned_bytes r =
     (let t = persistent_bytes r + state_bytes r + output_bytes r + workspace_bytes r +
        transaction_bytes r in if t \<le> usize_max then Some t else None) \<and>
   checked_accounted_bytes i =
     (let t = external_bytes (logical i) + persistent_bytes (logical i) + state_bytes (logical i) +
        output_bytes (logical i) + transaction_bytes (logical i) + leased_workspace_bytes i +
        opaque_headroom_bytes i in if t \<le> usize_max then Some t else None)"
  by (auto simp: checked_runtime_owned_bytes_def checked_accounted_bytes_def checked_add_def Let_def
      split: option.splits)

end
