(* ===== verification/Lowered.thy ===== *)
theory Lowered
  imports Memory
begin

text \<open>
  The instruction and value tables between graph optimisation and memory planning
  (\<open>crates/compiler/src/lowered.rs\<close>).

  The code is generic in the value record \<open>V\<close>, of which it only uses the planning declaration
  (\<open>LoweredValue::value_decl\<close>). A program here holds the declarations themselves: a table of
  \<open>V\<close> stands for the table of its declarations. The instruction kind \<open>'k\<close> and the memory space
  \<open>'m\<close> stay parameters.
\<close>

datatype value_access = Read | Write | ReadWrite

fun access_reads :: "value_access \<Rightarrow> bool" where
  "access_reads Read = True"
| "access_reads ReadWrite = True"
| "access_reads Write = False"

fun access_writes :: "value_access \<Rightarrow> bool" where
  "access_writes Write = True"
| "access_writes ReadWrite = True"
| "access_writes Read = False"

record value_use =
  use_value :: value_id
  use_access :: value_access

definition use_read :: "value_id \<Rightarrow> value_use" where
  "use_read v = \<lparr>use_value = v, use_access = Read\<rparr>"

definition use_write :: "value_id \<Rightarrow> value_use" where
  "use_write v = \<lparr>use_value = v, use_access = Write\<rparr>"

definition use_read_write :: "value_id \<Rightarrow> value_use" where
  "use_read_write v = \<lparr>use_value = v, use_access = ReadWrite\<rparr>"

record output_decl =
  out_value :: value_id

record instruction_effects =
  may_fail :: bool
  has_side_effects :: bool

datatype 'm value_storage =
    Fixed storage_class location
  | Planned storage_class nat 'm segment_ownership
  | AliasOf value_id nat

record 'm value_decl =
  decl_id :: value_id
  decl_name :: string
  decl_bytes :: nat
  decl_storage :: "'m value_storage"

definition decl_planned ::
    "value_id \<Rightarrow> string \<Rightarrow> nat \<Rightarrow> nat \<Rightarrow> 'm \<Rightarrow> segment_ownership \<Rightarrow> 'm value_decl" where
  "decl_planned i name bytes alignment space ownership =
     \<lparr>decl_id = i, decl_name = name, decl_bytes = bytes,
      decl_storage = Planned Workspace alignment space ownership\<rparr>"

definition decl_alias :: "value_id \<Rightarrow> string \<Rightarrow> value_id \<Rightarrow> nat \<Rightarrow> nat \<Rightarrow> 'm value_decl" where
  "decl_alias i name source byte_offset bytes =
     \<lparr>decl_id = i, decl_name = name, decl_bytes = bytes, decl_storage = AliasOf source byte_offset\<rparr>"

definition decl_storage_class :: "'m value_decl \<Rightarrow> storage_class option" where
  "decl_storage_class d = (case decl_storage d of
     Fixed c _ \<Rightarrow> Some c | Planned c _ _ _ \<Rightarrow> Some c | AliasOf _ _ \<Rightarrow> None)"

record 'k lowered_instruction =
  instr_id :: instruction_id
  instr_kind :: 'k
  instr_inputs :: "value_use list"
  instr_outputs :: "output_decl list"
  instr_scratch :: "value_use list"
  instr_staging :: "value_use list"
  instr_status :: "value_use list"
  instr_state :: "value_use list"
  instr_effects :: instruction_effects

definition instruction_new ::
    "instruction_id \<Rightarrow> 'k \<Rightarrow> value_use list \<Rightarrow> output_decl list \<Rightarrow> 'k lowered_instruction" where
  "instruction_new i kind inputs outputs =
     \<lparr>instr_id = i, instr_kind = kind, instr_inputs = inputs, instr_outputs = outputs,
      instr_scratch = [], instr_staging = [], instr_status = [], instr_state = [],
      instr_effects = \<lparr>may_fail = False, has_side_effects = False\<rparr>\<rparr>"

definition with_resources ::
    "'k lowered_instruction \<Rightarrow> value_use list \<Rightarrow> value_use list \<Rightarrow> value_use list \<Rightarrow> value_use list
      \<Rightarrow> 'k lowered_instruction" where
  "with_resources i scratch staging status state =
     i\<lparr>instr_scratch := scratch, instr_staging := staging, instr_status := status,
       instr_state := state\<rparr>"

text \<open>Every value an instruction touches, in the order of the categories.\<close>

definition resource_uses :: "'k lowered_instruction \<Rightarrow> value_use list" where
  "resource_uses i =
     instr_inputs i @ map (\<lambda>output. use_write (out_value output)) (instr_outputs i) @
     instr_scratch i @ instr_staging i @ instr_status i @ instr_state i"

record ('k, 'm) lowered_program =
  prog_values :: "'m value_decl list"
  prog_instructions :: "'k lowered_instruction list"
  prog_outputs :: "value_id list"

definition program_new ::
    "'m value_decl list \<Rightarrow> 'k lowered_instruction list \<Rightarrow> value_id list \<Rightarrow> ('k, 'm) lowered_program" where
  "program_new vs is os = \<lparr>prog_values = vs, prog_instructions = is, prog_outputs = os\<rparr>"

fun is_alias :: "'m value_storage \<Rightarrow> bool" where
  "is_alias (AliasOf _ _) = True"
| "is_alias _ = False"

fun is_planned :: "'m value_storage \<Rightarrow> bool" where
  "is_planned (Planned _ _ _ _) = True"
| "is_planned _ = False"

text \<open>
  A lowered table keeps machine integers: every byte count and every identifier of a \<open>usize\<close> or
  \<open>u32\<close> field is in range. The code's types give this; here it is a predicate.
\<close>

definition decl_in_range :: "'m value_decl \<Rightarrow> bool" where
  "decl_in_range d \<longleftrightarrow> decl_bytes d \<le> usize_max \<and> get_id (decl_id d) \<le> u32_max"

lemma use_simps [simp]:
  "use_value (use_read v) = v" "use_access (use_read v) = Read"
  "use_value (use_write v) = v" "use_access (use_write v) = Write"
  "use_value (use_read_write v) = v" "use_access (use_read_write v) = ReadWrite"
  by (simp_all add: use_read_def use_write_def use_read_write_def)

end
