(* ===== verification/Planner.thy ===== *)
theory Planner
  imports Lowered "HOL-Library.List_Lexorder" "HOL-Library.Char_ord"
begin

text \<open>
  The types of the memory planner and its first stages, validation and alias normalisation
  (\<open>crates/compiler/src/planner.rs\<close>).
\<close>

section \<open>Types\<close>

record normalized_alias =
  alias_root :: value_id
  alias_offset :: nat

record live_interval =
  iv_value :: value_id
  iv_start :: instruction_id
  iv_end :: instruction_id

definition iv_overlaps :: "live_interval \<Rightarrow> live_interval \<Rightarrow> bool" where
  "iv_overlaps a b \<longleftrightarrow> get_id (iv_start a) < get_id (iv_end b) \<and> get_id (iv_start b) < get_id (iv_end a)"

definition iv_contains :: "live_interval \<Rightarrow> instruction_id \<Rightarrow> bool" where
  "iv_contains a i \<longleftrightarrow> get_id (iv_start a) \<le> get_id i \<and> get_id i < get_id (iv_end a)"

record liveness =
  live_aliases :: "normalized_alias list"
  live_intervals :: "live_interval option list"

record 'm memory_space_config =
  cfg_space :: 'm
  cfg_max_segment_bytes :: nat
  cfg_segment_alignment :: nat
  cfg_segment_granularity :: nat

record 'm planner_config =
  cfg_memory_spaces :: "'m memory_space_config list"
  cfg_largest_allocations :: nat

definition planner_config_new :: "'m memory_space_config list \<Rightarrow> 'm planner_config" where
  "planner_config_new spaces = \<lparr>cfg_memory_spaces = spaces, cfg_largest_allocations = 10\<rparr>"

definition planner_config_uniform :: "'m \<Rightarrow> nat \<Rightarrow> nat \<Rightarrow> nat \<Rightarrow> 'm planner_config" where
  "planner_config_uniform space max_bytes alignment granularity =
     planner_config_new [\<lparr>cfg_space = space, cfg_max_segment_bytes = max_bytes,
       cfg_segment_alignment = alignment, cfg_segment_granularity = granularity\<rparr>]"

text \<open>The text carried by \<open>InvalidMemoryPlan\<close> is the rendering of a \<open>memory_plan_error\<close>.\<close>

datatype planner_error =
    TooManyValues
  | TooManyInstructions
  | TooManyLocations
  | TooManySegments
  | ValueIdMismatch nat value_id
  | InstructionIdMismatch nat instruction_id
  | UnknownValue "instruction_id option" value_id
  | AliasCycle value_id
  | AliasOutOfBounds value_id value_id nat nat
  | PlanningByteSizeOverflow "value_id option"
  | InvalidValueAlignment value_id nat
  | InvalidMemorySpaceConfig nat
  | DuplicateMemorySpaceConfig nat nat
  | MissingMemorySpaceConfig value_id
  | ValueTooLarge value_id nat nat nat
  | ReadBeforeDefinition value_id instruction_id instruction_id
  | UndefinedPlannedValue value_id
  | PackingConflict value_id value_id
  | InvalidMemoryPlan memory_plan_error

section \<open>Validation\<close>

definition validate_dense_values :: "'m value_decl list \<Rightarrow> (unit, planner_error) outcome" where
  "validate_dense_values vs = each_outcome (\<lambda>(index, v).
     and_then (ok_or TooManyValues (from_index index)) (\<lambda>expected.
       if decl_id v \<noteq> expected then Err (ValueIdMismatch index (decl_id v)) else Ok ()))
     (enumerate 0 vs)"

definition known_value ::
    "'m value_decl list \<Rightarrow> instruction_id option \<Rightarrow> value_id \<Rightarrow> (unit, planner_error) outcome" where
  "known_value vs i v = (if nth_opt vs (id_index v) = None then Err (UnknownValue i v) else Ok ())"

definition validate_alias_source ::
    "'m value_decl list \<Rightarrow> 'm value_decl \<Rightarrow> (unit, planner_error) outcome" where
  "validate_alias_source vs v =
     (case decl_storage v of AliasOf source _ \<Rightarrow> known_value vs None source | _ \<Rightarrow> Ok ())"

definition validate_instruction ::
    "'m value_decl list \<Rightarrow> nat \<times> 'k lowered_instruction \<Rightarrow> (unit, planner_error) outcome" where
  "validate_instruction vs ii = (case ii of (index, instruction) \<Rightarrow>
     and_then (ok_or TooManyInstructions (from_index index)) (\<lambda>expected.
       if instr_id instruction \<noteq> expected
       then Err (InstructionIdMismatch index (instr_id instruction))
       else each_outcome (\<lambda>u. known_value vs (Some (instr_id instruction)) (use_value u))
              (resource_uses instruction)))"

definition validate_lowered_program :: "('k, 'm) lowered_program \<Rightarrow> (unit, planner_error) outcome" where
  "validate_lowered_program p =
     and_then (validate_dense_values (prog_values p)) (\<lambda>_.
     and_then (each_outcome (validate_alias_source (prog_values p)) (prog_values p)) (\<lambda>_.
     and_then (each_outcome (validate_instruction (prog_values p)) (enumerate 0 (prog_instructions p)))
       (\<lambda>_. each_outcome (known_value (prog_values p) None) (prog_outputs p))))"

section \<open>Alias normalisation\<close>

text \<open>
  \<open>state\<close> and \<open>normalized\<close> are the two arrays of the code. \<open>follow\<close> is the inner \<open>loop\<close>, with the
  top of the stack \<open>path\<close> at the head of the list; \<open>unwind\<close> is the \<open>while let\<close> that pops it.
\<close>

type_synonym alias_arrays = "nat list \<times> normalized_alias option list"

function follow ::
    "'m value_decl list \<Rightarrow> alias_arrays \<Rightarrow> nat list \<Rightarrow> nat
      \<Rightarrow> (alias_arrays \<times> nat list, planner_error) outcome" where
  "follow vs (state, normalized) path cursor =
     (if \<not> (cursor < length state \<and> cursor < length vs) then Panic
      else if state ! cursor = 2 then Ok ((state, normalized), path)
      else if state ! cursor = 1 then Err (AliasCycle (decl_id (vs ! cursor)))
      else (let v = vs ! cursor; state' = state[cursor := 1] in
        (case decl_storage v of
           AliasOf source byte_offset \<Rightarrow>
             and_then (ok_or (UnknownValue None source) (nth_opt vs (id_index source))) (\<lambda>source_decl.
             and_then (ok_or (PlanningByteSizeOverflow (Some (decl_id v)))
                 (checked_add byte_offset (decl_bytes v))) (\<lambda>end.
               if end > decl_bytes source_decl
               then Err (AliasOutOfBounds (decl_id v) source end (decl_bytes source_decl))
               else follow vs (state', normalized) (cursor # path) (id_index source)))
         | _ \<Rightarrow> Ok ((state'[cursor := 2],
               normalized[cursor := Some \<lparr>alias_root = decl_id v, alias_offset = 0\<rparr>]), path))))"
  by pat_completeness auto
termination
proof (relation "measure (\<lambda>(vs, (state, _), _, _). length (filter (\<lambda>s. s \<noteq> 1) state))", goal_cases)
  case (2 vs state normalized path cursor v state' source byte_offset)
  then have c: "cursor < length state" "state ! cursor \<noteq> 1" by auto
  have "length (filter (\<lambda>s. s \<noteq> 1) (state[cursor := 1])) < length (filter (\<lambda>s. s \<noteq> 1) state)"
  proof -
    have split: "state = take cursor state @ state ! cursor # drop (Suc cursor) state"
      using c(1) by (simp add: id_take_nth_drop)
    have "filter (\<lambda>s. s \<noteq> 1) (state[cursor := 1]) =
        filter (\<lambda>s. s \<noteq> 1) (take cursor state) @ filter (\<lambda>s. s \<noteq> 1) (drop (Suc cursor) state)"
      using c(1) by (simp add: upd_conv_take_nth_drop)
    moreover have "filter (\<lambda>s. s \<noteq> 1) state = filter (\<lambda>s. s \<noteq> 1) (take cursor state) @
        state ! cursor # filter (\<lambda>s. s \<noteq> 1) (drop (Suc cursor) state)"
      using c(2) by (subst split) simp
    ultimately show ?thesis by simp
  qed
  with 2 show ?case by simp
qed simp

declare follow.simps [simp del]

primrec unwind ::
    "'m value_decl list \<Rightarrow> nat list \<Rightarrow> alias_arrays \<Rightarrow> (alias_arrays, planner_error) outcome" where
  "unwind vs [] sn = Ok sn"
| "unwind vs (index # path) sn = (case sn of (state, normalized) \<Rightarrow>
     (case decl_storage (vs ! index) of
        AliasOf source byte_offset \<Rightarrow>
          (case nth_opt normalized (id_index source) of
             Some (Some parent) \<Rightarrow>
               and_then (ok_or (PlanningByteSizeOverflow (Some (decl_id (vs ! index))))
                   (checked_add (alias_offset parent) byte_offset)) (\<lambda>offset.
                 unwind vs path (state[index := 2],
                   normalized[index := Some \<lparr>alias_root = alias_root parent, alias_offset = offset\<rparr>]))
           | _ \<Rightarrow> Panic)
      | _ \<Rightarrow> Panic))"

definition normalize_from ::
    "'m value_decl list \<Rightarrow> alias_arrays \<Rightarrow> nat \<Rightarrow> (alias_arrays, planner_error) outcome" where
  "normalize_from vs sn start = (case sn of (state, normalized) \<Rightarrow>
     if state ! start = 2 then Ok sn
     else and_then (follow vs sn [] start) (\<lambda>(sn', path). unwind vs path sn'))"

definition normalize_aliases :: "'m value_decl list \<Rightarrow> (normalized_alias list, planner_error) outcome" where
  "normalize_aliases vs =
     and_then (validate_dense_values vs) (\<lambda>_.
     and_then (fold_outcome (normalize_from vs)
         (replicate (length vs) 0, replicate (length vs) None) [0..<length vs]) (\<lambda>(_, normalized).
       traverse expect normalized))"

section \<open>Validation, read as predicates\<close>

definition dense_values :: "'m value_decl list \<Rightarrow> bool" where
  "dense_values vs \<longleftrightarrow> (\<forall>i < length vs. decl_id (vs ! i) = DenseId i) \<and> length vs \<le> u32_max + 1"

definition program_ok :: "('k, 'm) lowered_program \<Rightarrow> bool" where
  "program_ok p \<longleftrightarrow> dense_values (prog_values p) \<and>
     (\<forall>v \<in> set (prog_values p). \<forall>s off. decl_storage v = AliasOf s off \<longrightarrow>
        id_index s < length (prog_values p)) \<and>
     (\<forall>i < length (prog_instructions p). instr_id (prog_instructions p ! i) = DenseId i \<and>
        (\<forall>u \<in> set (resource_uses (prog_instructions p ! i)). id_index (use_value u) < length (prog_values p))) \<and>
     length (prog_instructions p) \<le> u32_max + 1 \<and>
     (\<forall>v \<in> set (prog_outputs p). id_index v < length (prog_values p))"

lemma below_max: "(\<forall>i < n. i \<le> m) \<longleftrightarrow> n \<le> m + 1" for n m :: nat
proof
  assume "\<forall>i < n. i \<le> m"
  then have "n - 1 \<le> m" if "n > 0" using that by simp
  then show "n \<le> m + 1" by (cases n) auto
qed auto

lemma validate_dense_values_Ok: "validate_dense_values vs = Ok () \<longleftrightarrow> dense_values vs"
proof -
  have "validate_dense_values vs = Ok () \<longleftrightarrow>
      (\<forall>i < length vs. i \<le> u32_max \<and> decl_id (vs ! i) = DenseId i)"
    by (auto simp: validate_dense_values_def outcome_iff ball_enumerate checked_simps split_beta
        simp del: enumerate_member split: if_splits)
  also have "\<dots> \<longleftrightarrow> dense_values vs"
    using below_max [of "length vs" u32_max] by (auto simp: dense_values_def)
  finally show ?thesis .
qed

lemma known_value_Ok: "known_value vs i v = Ok () \<longleftrightarrow> id_index v < length vs"
  by (auto simp: known_value_def not_less)

lemma validate_lowered_program_Ok: "validate_lowered_program p = Ok () \<longleftrightarrow> program_ok p"
proof -
  have source: "validate_alias_source vs v = Ok () \<longleftrightarrow>
      (\<forall>s off. decl_storage v = AliasOf s off \<longrightarrow> id_index s < length vs)" for vs and v :: "'m value_decl"
    by (auto simp: validate_alias_source_def known_value_Ok split: value_storage.splits)
  have instr: "validate_instruction vs (i, ins) = Ok () \<longleftrightarrow> i \<le> u32_max \<and> instr_id ins = DenseId i \<and>
      (\<forall>u \<in> set (resource_uses ins). id_index (use_value u) < length vs)"
    for vs :: "'m value_decl list" and i and ins :: "'k lowered_instruction"
    by (auto simp: validate_instruction_def outcome_iff checked_simps known_value_Ok)
  have "validate_lowered_program p = Ok () \<longleftrightarrow> dense_values (prog_values p) \<and>
      (\<forall>v \<in> set (prog_values p). \<forall>s off. decl_storage v = AliasOf s off \<longrightarrow>
         id_index s < length (prog_values p)) \<and>
      (\<forall>i < length (prog_instructions p). i \<le> u32_max \<and> instr_id (prog_instructions p ! i) = DenseId i \<and>
        (\<forall>u \<in> set (resource_uses (prog_instructions p ! i)). id_index (use_value u) < length (prog_values p))) \<and>
      (\<forall>v \<in> set (prog_outputs p). id_index v < length (prog_values p))"
    unfolding validate_lowered_program_def
    by (simp add: outcome_iff validate_dense_values_Ok ball_enumerate instr source known_value_Ok
        del: enumerate_member)
  then show ?thesis
    using below_max [of "length (prog_instructions p)" u32_max] by (auto simp: program_ok_def)
qed

section \<open>Alias normalisation\<close>

definition alias_step :: "'m value_decl list \<Rightarrow> nat \<Rightarrow> nat \<Rightarrow> bool" where
  "alias_step vs i j \<longleftrightarrow> i < length vs \<and> (\<exists>off. decl_storage (vs ! i) = AliasOf (DenseId j) off)"

text \<open>The root of a value and its offset there, read off the declarations.\<close>

inductive resolves :: "'m value_decl list \<Rightarrow> nat \<Rightarrow> nat \<Rightarrow> nat \<Rightarrow> bool" for vs where
  root: "i < length vs \<Longrightarrow> \<not> is_alias (decl_storage (vs ! i)) \<Longrightarrow> resolves vs i i 0"
| hop: "i < length vs \<Longrightarrow> decl_storage (vs ! i) = AliasOf s off \<Longrightarrow>
    resolves vs (id_index s) r off' \<Longrightarrow> resolves vs i r (off' + off)"

inductive_cases resolves_cases: "resolves vs i r off"

definition hop_ok :: "'m value_decl list \<Rightarrow> nat \<Rightarrow> nat \<Rightarrow> bool" where
  "hop_ok vs i j \<longleftrightarrow> i < length vs \<and> j < length vs \<and>
     (\<exists>off. decl_storage (vs ! i) = AliasOf (DenseId j) off \<and>
        off + decl_bytes (vs ! i) \<le> decl_bytes (vs ! j))"

definition aliases_in_bounds :: "'m value_decl list \<Rightarrow> bool" where
  "aliases_in_bounds vs \<longleftrightarrow> (\<forall>i < length vs. \<forall>j. alias_step vs i j \<longrightarrow> hop_ok vs i j)"

primrec alias_chain :: "'m value_decl list \<Rightarrow> nat list \<Rightarrow> nat \<Rightarrow> bool" where
  "alias_chain vs [] c \<longleftrightarrow> True"
| "alias_chain vs (p # ps) c \<longleftrightarrow> hop_ok vs p c \<and> alias_chain vs ps p"

definition placed_in_root :: "'m value_decl list \<Rightarrow> nat \<Rightarrow> normalized_alias \<Rightarrow> bool" where
  "placed_in_root vs i a \<longleftrightarrow> (let r = id_index (alias_root a) in
     resolves vs i r (alias_offset a) \<and> r < length vs \<and> \<not> is_alias (decl_storage (vs ! r)) \<and>
     (\<forall>j. alias_step vs i j \<longrightarrow> hop_ok vs i j) \<and>
     alias_offset a + decl_bytes (vs ! i) \<le> decl_bytes (vs ! r))"

definition alias_arrays_ok :: "'m value_decl list \<Rightarrow> nat list \<Rightarrow> alias_arrays \<Rightarrow> bool" where
  "alias_arrays_ok vs path sn \<longleftrightarrow> (case sn of (state, normalized) \<Rightarrow>
     length state = length vs \<and> length normalized = length vs \<and> distinct path \<and>
     (\<forall>i < length vs. (state ! i = 1 \<longleftrightarrow> i \<in> set path) \<and>
        (state ! i = 2 \<longrightarrow> (\<exists>a. normalized ! i = Some a \<and> placed_in_root vs i a))))"

definition settled :: "alias_arrays \<Rightarrow> nat set" where
  "settled sn = {i. i < length (fst sn) \<and> fst sn ! i = 2}"

lemma resolves_acyclic: "resolves vs i r off \<Longrightarrow> \<not> (alias_step vs)\<^sup>+\<^sup>+ i i"
proof (induction rule: resolves.induct)
  case (root i)
  show ?case
  proof
    assume "(alias_step vs)\<^sup>+\<^sup>+ i i"
    then obtain j where "alias_step vs i j" by (metis tranclpD)
    with root show False by (auto simp: alias_step_def)
  qed
next
  case (hop i s off r off')
  show ?case
  proof
    assume "(alias_step vs)\<^sup>+\<^sup>+ i i"
    then obtain j where j: "alias_step vs i j" "(alias_step vs)\<^sup>*\<^sup>* j i" by (metis tranclpD)
    with hop.hyps(2) have "j = id_index s" by (auto simp: alias_step_def)
    with j have "(alias_step vs)\<^sup>+\<^sup>+ (id_index s) (id_index s)"
      by (metis rtranclp_into_tranclp1)
    with hop.IH show False by simp
  qed
qed

lemma chain_reaches: "alias_chain vs ps c \<Longrightarrow> p \<in> set ps \<Longrightarrow> (alias_step vs)\<^sup>+\<^sup>+ p c"
proof (induction ps arbitrary: c)
  case (Cons q ps)
  then have step: "alias_step vs q c" by (auto simp: hop_ok_def alias_step_def)
  show ?case
  proof (cases "p = q")
    case True
    with step show ?thesis by (simp add: tranclp.r_into_trancl)
  next
    case False
    with Cons have "(alias_step vs)\<^sup>+\<^sup>+ p q" by simp
    with step show ?thesis by (rule tranclp.trancl_into_trancl [rotated]) 
  qed
qed simp

text \<open>Why normalisation may fail, and nothing else.\<close>

definition alias_failure :: "'m value_decl list \<Rightarrow> planner_error \<Rightarrow> bool" where
  "alias_failure vs e \<longleftrightarrow> (\<exists>i < length vs.
     (e = AliasCycle (decl_id (vs ! i)) \<and> (alias_step vs)\<^sup>+\<^sup>+ i i) \<or>
     (\<exists>j. alias_step vs i j \<and> length vs \<le> j \<and> e = UnknownValue None (DenseId j)) \<or>
     (\<exists>j off. j < length vs \<and> decl_storage (vs ! i) = AliasOf (DenseId j) off \<and>
        decl_bytes (vs ! j) < off + decl_bytes (vs ! i) \<and>
        (e = PlanningByteSizeOverflow (Some (decl_id (vs ! i))) \<and> usize_max < off + decl_bytes (vs ! i) \<or>
         e = AliasOutOfBounds (decl_id (vs ! i)) (DenseId j) (off + decl_bytes (vs ! i))
               (decl_bytes (vs ! j)))))"

lemma alias_failure_bounds:
  "i < length vs \<Longrightarrow> j < length vs \<Longrightarrow> decl_storage (vs ! i) = AliasOf (DenseId j) off \<Longrightarrow>
    decl_bytes (vs ! j) < off + decl_bytes (vs ! i) \<Longrightarrow>
    e = PlanningByteSizeOverflow (Some (decl_id (vs ! i))) \<and> usize_max < off + decl_bytes (vs ! i) \<or>
    e = AliasOutOfBounds (decl_id (vs ! i)) (DenseId j) (off + decl_bytes (vs ! i)) (decl_bytes (vs ! j)) \<Longrightarrow>
    alias_failure vs e"
  unfolding alias_failure_def by blast

lemma follow_spec:
  assumes "dense_values vs" and "\<forall>v \<in> set vs. decl_in_range v"
    and "alias_arrays_ok vs path sn" and "alias_chain vs path cursor" and "cursor < length vs"
  shows "case follow vs sn path cursor of
      Ok (sn', path') \<Rightarrow> alias_arrays_ok vs path' sn' \<and> settled sn \<subseteq> settled sn' \<and>
        (\<exists>c \<in> settled sn'. alias_chain vs path' c) \<and>
        (cursor \<in> settled sn' \<or> cursor \<in> set path') \<and> set path \<subseteq> set path'
    | Err e \<Rightarrow> alias_failure vs e
    | Panic \<Rightarrow> False"
  using assms
proof (induction vs sn path cursor rule: follow.induct)
  case (1 vs state normalized path cursor)
  from "1.prems"(3,5) have len: "length state = length vs" "length normalized = length vs"
    "cursor < length state" and one: "\<And>i. i < length vs \<Longrightarrow> state ! i = 1 \<longleftrightarrow> i \<in> set path"
    and two: "\<And>i. i < length vs \<Longrightarrow> state ! i = 2 \<Longrightarrow> \<exists>a. normalized ! i = Some a \<and> placed_in_root vs i a"
    and dist: "distinct path"
    by (auto simp: alias_arrays_ok_def)
  consider (seen) "state ! cursor = 2" | (cycle) "state ! cursor = 1"
    | (new) "state ! cursor \<noteq> 2" "state ! cursor \<noteq> 1" by blast
  then show ?case
  proof cases
    case seen
    with len "1.prems" show ?thesis
      by (auto simp: follow.simps [of vs state] settled_def intro!: bexI [of _ cursor])
  next
    case cycle
    with one "1.prems"(5) have "cursor \<in> set path" by blast
    with chain_reaches [OF "1.prems"(4)] have "(alias_step vs)\<^sup>+\<^sup>+ cursor cursor" by blast
    with cycle len "1.prems"(5) show ?thesis
      by (auto simp: follow.simps [of vs state] alias_failure_def)
  next
    case new
    let ?v = "vs ! cursor"
    have range: "decl_bytes ?v \<le> usize_max" using "1.prems"(2,5) by (simp add: decl_in_range_def)
    show ?thesis
    proof (cases "is_alias (decl_storage ?v)")
      case False
      let ?a = "\<lparr>alias_root = decl_id ?v, alias_offset = 0\<rparr>"
      let ?sn = "(state[cursor := 1, cursor := 2], normalized[cursor := Some ?a])"
      have run: "follow vs (state, normalized) path cursor = Ok (?sn, path)"
        using new len "1.prems"(5) False
        by (cases "decl_storage ?v") (simp_all add: follow.simps [of vs state] Let_def)
      have "decl_id ?v = DenseId cursor" using "1.prems"(1,5) by (simp add: dense_values_def)
      then have "placed_in_root vs cursor ?a"
        using False "1.prems"(5) by (auto simp: placed_in_root_def resolves.root alias_step_def)
      then have "alias_arrays_ok vs path ?sn"
        using len one two new dist by (auto simp: alias_arrays_ok_def nth_list_update)
      moreover have "settled (state, normalized) \<subseteq> settled ?sn" "cursor \<in> settled ?sn"
        using len by (auto simp: settled_def nth_list_update)
      ultimately show ?thesis using run "1.prems"(4) by auto
    next
      case True
      then obtain source off where st: "decl_storage ?v = AliasOf source off"
        by (cases "decl_storage ?v") auto
      obtain j where j: "source = DenseId j" by (cases source)
      note unfold_follow = follow.simps [of vs state] st j Let_def
      have step: "alias_step vs cursor j" using "1.prems"(5) st j by (simp add: alias_step_def)
      consider "length vs \<le> j" | "j < length vs" "usize_max < off + decl_bytes ?v"
        | "j < length vs" "off + decl_bytes ?v \<le> usize_max" "decl_bytes (vs ! j) < off + decl_bytes ?v"
        | (ok) "j < length vs" "off + decl_bytes ?v \<le> usize_max" "off + decl_bytes ?v \<le> decl_bytes (vs ! j)"
        by linarith
      then show ?thesis
      proof cases
        case 1
        with new len "1.prems"(5) have "follow vs (state, normalized) path cursor = Err (UnknownValue None (DenseId j))"
          by (simp add: unfold_follow nth_opt_def ok_or_def)
        with 1 step "1.prems"(5) show ?thesis by (auto simp: alias_failure_def)
      next
        case 2
        have "decl_bytes (vs ! j) \<le> usize_max" using 2 "1.prems"(2) by (simp add: decl_in_range_def)
        moreover have "follow vs (state, normalized) path cursor = Err (PlanningByteSizeOverflow (Some (decl_id ?v)))"
          using 2 new len "1.prems"(5) by (simp add: unfold_follow nth_opt_def ok_or_def checked_add_def)
        ultimately show ?thesis
          using 2 st j "1.prems"(5) by (simp add: alias_failure_bounds [of cursor vs j off])
      next
        case 3
        then have "follow vs (state, normalized) path cursor =
            Err (AliasOutOfBounds (decl_id ?v) (DenseId j) (off + decl_bytes ?v) (decl_bytes (vs ! j)))"
          using new len "1.prems"(5) by (simp add: unfold_follow nth_opt_def ok_or_def checked_add_def)
        with 3 st j "1.prems"(5) show ?thesis by (simp add: alias_failure_bounds [of cursor vs j off])
      next
        case ok
        let ?s = "(state[cursor := 1], normalized)"
        have run: "follow vs (state, normalized) path cursor = follow vs ?s (cursor # path) j"
          using ok new len "1.prems"(5) by (subst follow.simps) (simp add: st j Let_def nth_opt_def ok_or_def checked_add_def)
        have arrays: "alias_arrays_ok vs (cursor # path) ?s"
          using len one two new dist "1.prems"(5) by (auto simp: alias_arrays_ok_def nth_list_update)
        have chain: "alias_chain vs (cursor # path) j"
          using ok st j "1.prems"(4,5) by (auto simp: hop_ok_def)
        have IH: "case follow vs ?s (cursor # path) j of
            Ok (sn', path') \<Rightarrow> alias_arrays_ok vs path' sn' \<and> settled ?s \<subseteq> settled sn' \<and>
              (\<exists>c \<in> settled sn'. alias_chain vs path' c) \<and>
              (id_index source \<in> settled sn' \<or> id_index source \<in> set path') \<and> set (cursor # path) \<subseteq> set path'
          | Err e \<Rightarrow> alias_failure vs e
          | Panic \<Rightarrow> False"
          using "1.IH" [of ?v "state[cursor := 1]" source off "vs ! j" "off + decl_bytes ?v"]
            "1.prems" ok new len arrays chain st j
          by (simp add: ok_or_def nth_opt_def checked_add_def)
        have "settled (state, normalized) \<subseteq> settled ?s"
          using new len by (auto simp: settled_def nth_list_update)
        with IH run show ?thesis by (auto split: outcome.splits)
      qed
    qed
  qed
qed


lemma unwind_spec:
  assumes "dense_values vs" and "\<forall>v \<in> set vs. decl_in_range v"
    and "alias_arrays_ok vs path sn" and "alias_chain vs path c" and "c \<in> settled sn"
  shows "\<exists>sn'. unwind vs path sn = Ok sn' \<and> alias_arrays_ok vs [] sn' \<and>
    settled sn \<union> set path \<subseteq> settled sn'"
  using assms(3-5)
proof (induction path arbitrary: sn c)
  case (Cons i path)
  obtain state normalized where sn: "sn = (state, normalized)" by (cases sn)
  from Cons.prems(2) obtain off where hop: "i < length vs" "c < length vs"
    "decl_storage (vs ! i) = AliasOf (DenseId c) off"
    "off + decl_bytes (vs ! i) \<le> decl_bytes (vs ! c)" and rest: "alias_chain vs path i"
    by (auto simp: hop_ok_def)
  from Cons.prems(1) sn have len: "length state = length vs" "length normalized = length vs"
    and one: "\<And>k. k < length vs \<Longrightarrow> state ! k = 1 \<longleftrightarrow> k \<in> set (i # path)"
    and two: "\<And>k. k < length vs \<Longrightarrow> state ! k = 2 \<Longrightarrow> \<exists>a. normalized ! k = Some a \<and> placed_in_root vs k a"
    by (auto simp: alias_arrays_ok_def)
  from Cons.prems(3) sn have "state ! c = 2" by (simp add: settled_def)
  with two hop(2) obtain a where a: "normalized ! c = Some a" "placed_in_root vs c a" by blast
  let ?r = "id_index (alias_root a)"
  let ?a = "\<lparr>alias_root = alias_root a, alias_offset = alias_offset a + off\<rparr>"
  let ?sn = "(state[i := 2], normalized[i := Some ?a])"
  have root: "resolves vs c ?r (alias_offset a)" "?r < length vs" "\<not> is_alias (decl_storage (vs ! ?r))"
    "alias_offset a + decl_bytes (vs ! c) \<le> decl_bytes (vs ! ?r)"
    using a(2) by (simp_all add: placed_in_root_def Let_def)
  have "decl_bytes (vs ! ?r) \<le> usize_max" using assms(2) root(2) by (simp add: decl_in_range_def)
  then have room: "alias_offset a + off \<le> usize_max" using root(4) hop(4) by linarith
  have run: "unwind vs (i # path) sn = unwind vs path ?sn"
    using sn hop len a room by (simp add: nth_opt_def ok_or_def checked_add_def)
  have "placed_in_root vs i ?a"
    using root hop resolves.hop [OF hop(1,3), of ?r "alias_offset a"]
    by (auto simp: placed_in_root_def Let_def alias_step_def hop_ok_def)
  have notin: "i \<notin> set path" "distinct path"
    using Cons.prems(1) sn by (auto simp: alias_arrays_ok_def)
  have arrays: "alias_arrays_ok vs path ?sn"
    using hop(1) len one two \<open>placed_in_root vs i ?a\<close> notin by (auto simp: alias_arrays_ok_def nth_list_update)
  have "i \<in> settled ?sn" "settled sn \<subseteq> settled ?sn"
    using hop(1) len sn by (auto simp: settled_def nth_list_update)
  with Cons.IH [OF arrays rest] run show ?case by auto
qed simp


lemma normalize_from_spec:
  assumes "dense_values vs" and "\<forall>v \<in> set vs. decl_in_range v"
    and arrays: "alias_arrays_ok vs [] sn" and start: "start < length vs"
  shows "case normalize_from vs sn start of
      Ok sn' \<Rightarrow> alias_arrays_ok vs [] sn' \<and> settled sn \<union> {start} \<subseteq> settled sn'
    | Err e \<Rightarrow> alias_failure vs e
    | Panic \<Rightarrow> False"
proof -
  obtain state normalized where sn: "sn = (state, normalized)" by (cases sn)
  show ?thesis
  proof (cases "state ! start = 2")
    case True
    with arrays start sn show ?thesis
      by (auto simp: normalize_from_def settled_def alias_arrays_ok_def)
  next
    case False
    note spec = follow_spec [OF assms(1,2) arrays _ start, simplified]
    show ?thesis
    proof (cases "follow vs sn [] start")
      case (Ok res)
      obtain sn' path where res: "res = (sn', path)" by (cases res)
      from spec Ok res obtain c where c: "alias_arrays_ok vs path sn'" "settled sn \<subseteq> settled sn'"
        "c \<in> settled sn'" "alias_chain vs path c" "start \<in> settled sn' \<or> start \<in> set path"
        by auto
      from unwind_spec [OF assms(1,2) c(1,4,3)] obtain sn'' where
        "unwind vs path sn' = Ok sn''" "alias_arrays_ok vs [] sn''" "settled sn' \<union> set path \<subseteq> settled sn''"
        by blast
      with Ok res False sn c show ?thesis by (auto simp: normalize_from_def)
    qed (use spec False sn in \<open>auto simp: normalize_from_def\<close>)
  qed
qed

lemma normalize_loop_spec:
  assumes "dense_values vs" and "\<forall>v \<in> set vs. decl_in_range v"
    and "alias_arrays_ok vs [] sn" and "\<forall>i \<in> set is. i < length vs"
  shows "case fold_outcome (normalize_from vs) sn is of
      Ok sn' \<Rightarrow> alias_arrays_ok vs [] sn' \<and> settled sn \<union> set is \<subseteq> settled sn'
    | Err e \<Rightarrow> alias_failure vs e
    | Panic \<Rightarrow> False"
  using assms(3,4)
proof (induction "is" arbitrary: sn)
  case (Cons i "is")
  then have i: "i < length vs" by simp
  note spec = normalize_from_spec [OF assms(1,2) Cons.prems(1) i]
  show ?case
  proof (cases "normalize_from vs sn i")
    case (Ok sn')
    with spec have "alias_arrays_ok vs [] sn'" by simp
    from Cons.IH [OF this] Cons.prems(2) Ok spec show ?thesis by (auto split: outcome.splits)
  qed (use spec in auto)
qed simp

lemma normalize_aliases_spec:
  assumes "\<forall>v \<in> set vs. decl_in_range v"
  shows "case normalize_aliases vs of
      Ok as \<Rightarrow> dense_values vs \<and> length as = length vs \<and> (\<forall>i < length vs. placed_in_root vs i (as ! i))
    | Err e \<Rightarrow> \<not> dense_values vs \<or> alias_failure vs e
    | Panic \<Rightarrow> False"
proof (cases "dense_values vs")
  case False
  have "validate_dense_values vs \<noteq> Panic"
    unfolding validate_dense_values_def
    by (rule each_outcome_Panic) (auto simp: outcome_iff split: if_splits)
  with False show ?thesis
    using validate_dense_values_Ok [of vs]
    by (cases "validate_dense_values vs") (auto simp: normalize_aliases_def)
next
  case True
  then have dense: "validate_dense_values vs = Ok ()" by (simp add: validate_dense_values_Ok)
  let ?sn = "(replicate (length vs) 0, replicate (length vs) None)"
  have "alias_arrays_ok vs [] ?sn" by (simp add: alias_arrays_ok_def)
  note spec = normalize_loop_spec [OF True assms this, of "[0..<length vs]"]
  show ?thesis
  proof (cases "fold_outcome (normalize_from vs) ?sn [0..<length vs]")
    case (Ok sn)
    obtain state normalized where sn: "sn = (state, normalized)" by (cases sn)
    from spec Ok have ok: "alias_arrays_ok vs [] sn" "{..<length vs} \<subseteq> settled sn" by auto
    have some: "\<exists>a. normalized ! i = Some a \<and> placed_in_root vs i a" if "i < length vs" for i
      using ok that sn by (auto simp: alias_arrays_ok_def settled_def)
    have len: "length normalized = length vs" using ok sn by (simp add: alias_arrays_ok_def)
    have "normalized ! i = Some (the (normalized ! i))" if "i < length vs" for i
      using some [OF that] by auto
    then have "traverse expect normalized = (Ok (map the normalized) :: (_, planner_error) outcome)"
      unfolding traverse_Ok using len by (simp add: expect_Ok)
    moreover have "placed_in_root vs i (map the normalized ! i)" if "i < length vs" for i
      using some [OF that] that len by auto
    ultimately show ?thesis
      using dense Ok sn True len by (simp add: normalize_aliases_def)
  qed (use spec dense in \<open>auto simp: normalize_aliases_def\<close>)
qed


definition acyclic_aliases :: "'m value_decl list \<Rightarrow> bool" where
  "acyclic_aliases vs \<longleftrightarrow> (\<forall>i. \<not> (alias_step vs)\<^sup>+\<^sup>+ i i)"

lemma resolves_unique:
  "resolves vs i r off \<Longrightarrow> resolves vs i r' off' \<Longrightarrow> r' = r \<and> off' = off"
proof (induction arbitrary: r' off' rule: resolves.induct)
  case (root i)
  from root(3) root(2) show ?case by (cases rule: resolves_cases) auto
next
  case (hop i s off r off'')
  from hop.prems hop.hyps(2) obtain o' where "resolves vs (id_index s) r' o'" "off' = o' + off"
    by (cases rule: resolves_cases) auto
  with hop.IH show ?case by blast
qed

lemma alias_failure_refutes:
  assumes "alias_failure vs e" and "aliases_in_bounds vs" and "acyclic_aliases vs"
    and "\<forall>v \<in> set vs. decl_in_range v"
  shows False
  using assms(1) unfolding alias_failure_def
proof (elim exE conjE disjE)
  fix i j
  assume "i < length vs" "alias_step vs i j" "length vs \<le> j"
  with assms(2) show False by (fastforce simp: aliases_in_bounds_def hop_ok_def)
qed (use assms in \<open>fastforce simp: aliases_in_bounds_def hop_ok_def alias_step_def acyclic_aliases_def\<close>)+

text \<open>
  C16. Alias normalisation is total and exact. It returns a table exactly when the identifiers are
  the table positions, every alias views bytes its source has, and no chain of aliases closes on
  itself; it never panics. What it returns for a value is the root and the summed offset of its
  chain, the root is no alias, and the bytes of the value lie inside the bytes of the root.
\<close>
theorem normalize_aliases_exact:
  assumes "\<forall>v \<in> set vs. decl_in_range v"
  shows "((\<exists>as. normalize_aliases vs = Ok as) \<longleftrightarrow>
      dense_values vs \<and> aliases_in_bounds vs \<and> acyclic_aliases vs) \<and>
    normalize_aliases vs \<noteq> Panic \<and>
    (\<forall>as. normalize_aliases vs = Ok as \<longrightarrow> length as = length vs \<and>
      (\<forall>i < length vs. let r = id_index (alias_root (as ! i)) in
         resolves vs i r (alias_offset (as ! i)) \<and> r < length vs \<and> \<not> is_alias (decl_storage (vs ! r)) \<and>
         alias_offset (as ! i) + decl_bytes (vs ! i) \<le> decl_bytes (vs ! r)))"
proof -
  note spec = normalize_aliases_spec [OF assms]
  have "dense_values vs \<and> aliases_in_bounds vs \<and> acyclic_aliases vs"
    if "normalize_aliases vs = Ok as" for as
  proof -
    from spec that have d: "dense_values vs" and p: "\<forall>i < length vs. placed_in_root vs i (as ! i)" by auto
    have "aliases_in_bounds vs" using p by (auto simp: aliases_in_bounds_def placed_in_root_def Let_def)
    moreover have "\<not> (alias_step vs)\<^sup>+\<^sup>+ i i" for i
    proof (cases "i < length vs")
      case True
      with p show ?thesis by (auto simp: placed_in_root_def Let_def dest: resolves_acyclic)
    next
      case False
      then show ?thesis by (metis alias_step_def tranclpD)
    qed
    ultimately show ?thesis using d by (simp add: acyclic_aliases_def)
  qed
  moreover have "\<exists>as. normalize_aliases vs = Ok as"
    if "dense_values vs" "aliases_in_bounds vs" "acyclic_aliases vs"
    using spec that alias_failure_refutes [OF _ that(2,3) assms]
    by (cases "normalize_aliases vs") auto
  moreover have "normalize_aliases vs \<noteq> Panic" using spec by auto
  ultimately show ?thesis
    using spec by (auto simp: placed_in_root_def Let_def)
qed

definition aliased_values :: "native_memory_space value_decl list" where
  "aliased_values =
     [decl_alias (DenseId 0) ''view'' (DenseId 1) 4 4,
      decl_alias (DenseId 1) ''half'' (DenseId 2) 8 8,
      decl_planned (DenseId 2) ''base'' 16 8 Cpu WorkspaceOwned]"

lemma aliased_values_normalized:
  "normalize_aliases aliased_values =
    Ok [\<lparr>alias_root = DenseId 2, alias_offset = 12\<rparr>, \<lparr>alias_root = DenseId 2, alias_offset = 8\<rparr>,
        \<lparr>alias_root = DenseId 2, alias_offset = 0\<rparr>]"
  by (simp add: normalize_aliases_def aliased_values_def validate_dense_values_def decl_alias_def
      decl_planned_def from_index_def u32_try_from_def u32_max_def ok_or_def normalize_from_def
      follow.simps checked_add_def usize_max_def nth_opt_def expect_def upt_rec numeral_3_eq_3)

lemma normalize_aliases_exact_witness:
  "resolves aliased_values 0 2 12"
proof -
  have "\<forall>v \<in> set aliased_values. decl_in_range v"
    by (simp add: aliased_values_def decl_alias_def decl_planned_def decl_in_range_def usize_max_def u32_max_def)
  from normalize_aliases_exact [OF this] aliased_values_normalized
  have "\<forall>i < length aliased_values. resolves aliased_values i 2
     (alias_offset ([\<lparr>alias_root = DenseId 2, alias_offset = 12\<rparr>, \<lparr>alias_root = DenseId 2, alias_offset = 8\<rparr>,
        \<lparr>alias_root = DenseId 2, alias_offset = 0\<rparr>] ! i))"
    by (auto simp: aliased_values_def less_Suc_eq Let_def)
  from spec [OF this, of 0] show ?thesis by (simp add: aliased_values_def)
qed

end
