(* ===== verification/Liveness.thy ===== *)
theory Liveness
  imports Planner
begin

text \<open>
  The liveness stage of the memory planner (\<open>analyze_liveness\<close> in
  \<open>crates/compiler/src/planner.rs\<close>): the tables of first and last accesses, the interval of
  every storage root, and the proof that the intervals are exactly the uses of the program.
\<close>

section \<open>Liveness\<close>

record access_tables =
  first_read :: "nat option list"
  first_write :: "nat option list"
  last_access :: "nat option list"

definition get_or_insert :: "nat \<Rightarrow> nat option \<Rightarrow> nat option" where
  "get_or_insert i x = (case x of None \<Rightarrow> Some i | Some j \<Rightarrow> Some j)"

definition max_access :: "nat \<Rightarrow> nat option \<Rightarrow> nat option" where
  "max_access i x = Some (case x of None \<Rightarrow> i | Some j \<Rightarrow> max j i)"

definition record_access ::
    "normalized_alias list \<Rightarrow> instruction_id \<Rightarrow> access_tables \<Rightarrow> value_use
      \<Rightarrow> (access_tables, planner_error) outcome" where
  "record_access aliases instruction t u =
     and_then (ok_or (UnknownValue (Some instruction) (use_value u))
         (nth_opt aliases (id_index (use_value u)))) (\<lambda>normalized.
       let root = id_index (alias_root normalized); index = id_index instruction in
       if \<not> root < length (first_read t) then Panic
       else Ok \<lparr>first_read = (if access_reads (use_access u)
                  then (first_read t)[root := get_or_insert index (first_read t ! root)]
                  else first_read t),
                first_write = (if access_writes (use_access u)
                  then (first_write t)[root := get_or_insert index (first_write t ! root)]
                  else first_write t),
                last_access = (last_access t)[root := max_access index (last_access t ! root)]\<rparr>)"

definition record_instruction ::
    "normalized_alias list \<Rightarrow> access_tables \<Rightarrow> 'k lowered_instruction
      \<Rightarrow> (access_tables, planner_error) outcome" where
  "record_instruction aliases t instruction =
     fold_outcome (record_access aliases (instr_id instruction)) t (resource_uses instruction)"

definition record_output ::
    "('k, 'm) lowered_program \<Rightarrow> normalized_alias list \<Rightarrow> access_tables \<Rightarrow> value_id
      \<Rightarrow> (access_tables, planner_error) outcome" where
  "record_output p aliases t output =
     and_then (known_value (prog_values p) None output) (\<lambda>_.
     and_then (expect (nth_opt aliases (id_index output))) (\<lambda>normalized.
       let root = id_index (alias_root normalized) in
       (case checked_sub (length (prog_instructions p)) 1 of
          None \<Rightarrow> Ok t
        | Some last_instruction \<Rightarrow>
            if \<not> root < length (last_access t) then Panic
            else Ok (t\<lparr>last_access :=
              (last_access t)[root := max_access last_instruction (last_access t ! root)]\<rparr>))))"

definition interval_start ::
    "access_tables \<Rightarrow> nat \<times> 'm value_decl \<Rightarrow> (nat option, planner_error) outcome" where
  "interval_start t iv = (case iv of (index, v) \<Rightarrow>
     (case decl_storage v of
        Planned _ alignment _ _ \<Rightarrow>
          if alignment = 0 \<or> \<not> is_power_of_two alignment
          then Err (InvalidValueAlignment (decl_id v) alignment)
          else and_then (ok_or (UndefinedPlannedValue (decl_id v)) (first_write t ! index)) (\<lambda>definition.
            (case first_read t ! index of
               Some read \<Rightarrow>
                 if read < definition
                 then and_then (ok_or TooManyInstructions (from_index read)) (\<lambda>r.
                      and_then (ok_or TooManyInstructions (from_index definition)) (\<lambda>d.
                        Err (ReadBeforeDefinition (decl_id v) r d)))
                 else Ok (Some definition)
             | None \<Rightarrow> Ok (Some definition)))
      | _ \<Rightarrow> Ok (case (first_read t ! index, first_write t ! index) of
            (Some read, Some write) \<Rightarrow> Some (min read write)
          | (Some read, None) \<Rightarrow> Some read
          | (None, Some write) \<Rightarrow> Some write
          | (None, None) \<Rightarrow> None)))"

definition interval_of ::
    "access_tables \<Rightarrow> nat \<times> 'm value_decl \<Rightarrow> (live_interval option, planner_error) outcome" where
  "interval_of t iv = (case iv of (index, v) \<Rightarrow>
     if is_alias (decl_storage v) then Ok None
     else and_then (interval_start t iv) (\<lambda>start.
       (case start of
          None \<Rightarrow> Ok None
        | Some start \<Rightarrow>
            and_then (ok_or TooManyInstructions
              (case last_access t ! index of None \<Rightarrow> None | Some final \<Rightarrow> checked_add final 1)) (\<lambda>end.
            and_then (ok_or TooManyInstructions (from_index start)) (\<lambda>s.
            and_then (ok_or TooManyInstructions (from_index end)) (\<lambda>e.
              Ok (Some \<lparr>iv_value = decl_id v, iv_start = s, iv_end = e\<rparr>)))))))"

definition analyze_liveness :: "('k, 'm) lowered_program \<Rightarrow> (liveness, planner_error) outcome" where
  "analyze_liveness p =
     and_then (validate_lowered_program p) (\<lambda>_.
     and_then (normalize_aliases (prog_values p)) (\<lambda>aliases.
       let none = replicate (length (prog_values p)) None in
     and_then (fold_outcome (record_instruction aliases)
         \<lparr>first_read = none, first_write = none, last_access = none\<rparr> (prog_instructions p)) (\<lambda>t.
     and_then (fold_outcome (record_output p aliases) t (prog_outputs p)) (\<lambda>t'.
     and_then (traverse (interval_of t') (enumerate 0 (prog_values p))) (\<lambda>intervals.
       Ok \<lparr>live_aliases = aliases, live_intervals = intervals\<rparr>)))))"

section \<open>What the intervals promise\<close>

text \<open>The least and the greatest instruction with a property, as the tables hold them.\<close>

definition first_ok :: "(nat \<Rightarrow> bool) \<Rightarrow> nat option \<Rightarrow> bool" where
  "first_ok P x \<longleftrightarrow> (case x of None \<Rightarrow> \<forall>k. \<not> P k | Some f \<Rightarrow> P f \<and> (\<forall>k. P k \<longrightarrow> f \<le> k))"

definition last_ok :: "(nat \<Rightarrow> bool) \<Rightarrow> nat option \<Rightarrow> bool" where
  "last_ok P x \<longleftrightarrow> (case x of None \<Rightarrow> \<forall>k. \<not> P k | Some l \<Rightarrow> P l \<and> (\<forall>k. P k \<longrightarrow> k \<le> l))"

lemma first_ok_insert:
  "first_ok P x \<Longrightarrow> (\<And>j. P j \<Longrightarrow> j \<le> k) \<Longrightarrow> first_ok (\<lambda>j. j = k \<or> P j) (get_or_insert k x)"
  by (auto simp: first_ok_def get_or_insert_def split: option.splits)

lemma last_ok_insert: "last_ok P x \<Longrightarrow> last_ok (\<lambda>j. j = k \<or> P j) (max_access k x)"
  by (auto simp: last_ok_def max_access_def split: option.splits) 
     (metis max.cobounded1 max.coboundedI2 max_def)+

type_synonym access = "nat \<times> nat \<times> value_access"

text \<open>\<open>A\<close> is the set of accesses recorded so far: instruction, root and kind.\<close>

definition tables_ok :: "nat \<Rightarrow> access set \<Rightarrow> access_tables \<Rightarrow> bool" where
  "tables_ok n A t \<longleftrightarrow>
     length (first_read t) = n \<and> length (first_write t) = n \<and> length (last_access t) = n \<and>
     (\<forall>r < n. first_ok (\<lambda>k. \<exists>a. (k, r, a) \<in> A \<and> access_reads a) (first_read t ! r) \<and>
        first_ok (\<lambda>k. \<exists>a. (k, r, a) \<in> A \<and> access_writes a) (first_write t ! r) \<and>
        last_ok (\<lambda>k. \<exists>a. (k, r, a) \<in> A) (last_access t ! r))"

definition root_of :: "normalized_alias list \<Rightarrow> value_id \<Rightarrow> nat" where
  "root_of as v = id_index (alias_root (as ! id_index v))"

definition roots_ok :: "nat \<Rightarrow> normalized_alias list \<Rightarrow> bool" where
  "roots_ok n as \<longleftrightarrow> length as = n \<and> (\<forall>i < n. id_index (alias_root (as ! i)) < n)"

definition use_accesses :: "normalized_alias list \<Rightarrow> nat \<Rightarrow> value_use list \<Rightarrow> access set" where
  "use_accesses as k us = (\<lambda>u. (k, root_of as (use_value u), use_access u)) ` set us"

lemma first_ok_cong: "first_ok P x \<Longrightarrow> (\<And>k. P k \<longleftrightarrow> Q k) \<Longrightarrow> first_ok Q x"
  by (simp add: first_ok_def split: option.splits)

lemma last_ok_cong: "last_ok P x \<Longrightarrow> (\<And>k. P k \<longleftrightarrow> Q k) \<Longrightarrow> last_ok Q x"
  by (simp add: last_ok_def split: option.splits)

lemma record_access_spec:
  assumes t: "tables_ok n A t" and late: "\<forall>(j, r, a) \<in> A. j \<le> k" and roots: "roots_ok n as"
    and known: "id_index (use_value u) < n"
  shows "\<exists>t'. record_access as (DenseId k) t u = Ok t' \<and>
    tables_ok n (insert (k, root_of as (use_value u), use_access u) A) t'"
proof -
  let ?r = "root_of as (use_value u)" and ?a = "use_access u"
  define t' where "t' = \<lparr>first_read = (if access_reads ?a
        then (first_read t)[?r := get_or_insert k (first_read t ! ?r)] else first_read t),
      first_write = (if access_writes ?a
        then (first_write t)[?r := get_or_insert k (first_write t ! ?r)] else first_write t),
      last_access = (last_access t)[?r := max_access k (last_access t ! ?r)]\<rparr>"
  have r: "?r < n" using roots known by (simp add: roots_ok_def root_of_def)
  have len: "length (first_read t) = n" "length (first_write t) = n" "length (last_access t) = n"
    using t by (auto simp: tables_ok_def)
  have run: "record_access as (DenseId k) t u = Ok t'"
    using known roots r len
    by (simp add: record_access_def nth_opt_def ok_or_def roots_ok_def root_of_def Let_def t'_def)
  let ?A = "insert (k, ?r, ?a) A"
  have "first_ok (\<lambda>j. \<exists>a. (j, s, a) \<in> ?A \<and> access_reads a) (first_read t' ! s)"
    and "first_ok (\<lambda>j. \<exists>a. (j, s, a) \<in> ?A \<and> access_writes a) (first_write t' ! s)"
    and "last_ok (\<lambda>j. \<exists>a. (j, s, a) \<in> ?A) (last_access t' ! s)" if s: "s < n" for s
  proof -
    have old: "first_ok (\<lambda>j. \<exists>a. (j, s, a) \<in> A \<and> access_reads a) (first_read t ! s)"
      "first_ok (\<lambda>j. \<exists>a. (j, s, a) \<in> A \<and> access_writes a) (first_write t ! s)"
      "last_ok (\<lambda>j. \<exists>a. (j, s, a) \<in> A) (last_access t ! s)"
      using t s by (auto simp: tables_ok_def)
    have late': "\<And>j. \<exists>a. (j, s, a) \<in> A \<and> access_reads a \<Longrightarrow> j \<le> k"
      "\<And>j. \<exists>a. (j, s, a) \<in> A \<and> access_writes a \<Longrightarrow> j \<le> k"
      using late by auto
    show "first_ok (\<lambda>j. \<exists>a. (j, s, a) \<in> ?A \<and> access_reads a) (first_read t' ! s)"
    proof (cases "s = ?r \<and> access_reads ?a")
      case True
      then have "first_read t' ! s = get_or_insert k (first_read t ! s)"
        using r len by (simp add: t'_def)
      with first_ok_insert [OF old(1) late'(1)] True show ?thesis
        by (auto intro: first_ok_cong)
    next
      case False
      then have "first_read t' ! s = first_read t ! s" by (auto simp: t'_def nth_list_update)
      with old(1) False show ?thesis by (auto intro: first_ok_cong)
    qed
    show "first_ok (\<lambda>j. \<exists>a. (j, s, a) \<in> ?A \<and> access_writes a) (first_write t' ! s)"
    proof (cases "s = ?r \<and> access_writes ?a")
      case True
      then have "first_write t' ! s = get_or_insert k (first_write t ! s)"
        using r len by (simp add: t'_def)
      with first_ok_insert [OF old(2) late'(2)] True show ?thesis
        by (auto intro: first_ok_cong)
    next
      case False
      then have "first_write t' ! s = first_write t ! s" by (auto simp: t'_def nth_list_update)
      with old(2) False show ?thesis by (auto intro: first_ok_cong)
    qed
    show "last_ok (\<lambda>j. \<exists>a. (j, s, a) \<in> ?A) (last_access t' ! s)"
    proof (cases "s = ?r")
      case True
      then have "last_access t' ! s = max_access k (last_access t ! s)"
        using r len by (simp add: t'_def)
      with last_ok_insert [OF old(3), of k] True show ?thesis
        by (auto intro: last_ok_cong)
    next
      case False
      then have "last_access t' ! s = last_access t ! s" by (simp add: t'_def)
      with old(3) False show ?thesis by (auto intro: last_ok_cong)
    qed
  qed
  then have "tables_ok n ?A t'" using len by (simp add: tables_ok_def t'_def)
  with run show ?thesis by blast
qed

lemma record_uses_spec:
  assumes "tables_ok n A t" and "\<forall>(j, r, a) \<in> A. j \<le> k" and roots: "roots_ok n as"
    and "\<forall>u \<in> set us. id_index (use_value u) < n"
  shows "\<exists>t'. fold_outcome (record_access as (DenseId k)) t us = Ok t' \<and>
    tables_ok n (A \<union> use_accesses as k us) t'"
  using assms(1,2,4)
proof (induction us arbitrary: t A)
  case (Cons u us)
  from Cons.prems(3) have "id_index (use_value u) < n" by simp
  from record_access_spec [OF Cons.prems(1,2) roots this] obtain t1 where
    t1: "record_access as (DenseId k) t u = Ok t1"
      "tables_ok n (insert (k, root_of as (use_value u), use_access u) A) t1" by blast
  have "\<exists>t'. fold_outcome (record_access as (DenseId k)) t1 us = Ok t' \<and>
      tables_ok n (insert (k, root_of as (use_value u), use_access u) A \<union> use_accesses as k us) t'"
    by (rule Cons.IH [OF t1(2)]) (use Cons.prems in auto)
  with t1(1) show ?case by (simp add: use_accesses_def)
qed (simp add: use_accesses_def)

definition program_accesses ::
    "normalized_alias list \<Rightarrow> 'k lowered_instruction list \<Rightarrow> access set" where
  "program_accesses as is = (\<Union>k < length is. use_accesses as k (resource_uses (is ! k)))"

lemma program_accesses_snoc:
  "program_accesses as (is @ [i]) =
    program_accesses as is \<union> use_accesses as (length is) (resource_uses i)"
proof -
  have "use_accesses as k (resource_uses ((is @ [i]) ! k)) = use_accesses as k (resource_uses (is ! k))"
    if "k < length is" for k using that by (simp add: nth_append)
  then show ?thesis by (simp add: program_accesses_def lessThan_Suc Un_commute)
qed

lemma record_instructions_spec:
  assumes roots: "roots_ok n as"
    and "\<forall>k < length is. instr_id (is ! k) = DenseId k \<and>
      (\<forall>u \<in> set (resource_uses (is ! k)). id_index (use_value u) < n)"
  shows "\<exists>t. fold_outcome (record_instruction as)
      \<lparr>first_read = replicate n None, first_write = replicate n None, last_access = replicate n None\<rparr> is
      = Ok t \<and> tables_ok n (program_accesses as is) t"
  using assms(2)
proof (induction "is" rule: rev_induct)
  case Nil
  then show ?case by (simp add: tables_ok_def program_accesses_def first_ok_def last_ok_def)
next
  case (snoc i "is")
  have "\<forall>k < length is. instr_id (is ! k) = DenseId k \<and>
      (\<forall>u \<in> set (resource_uses (is ! k)). id_index (use_value u) < n)"
  proof (intro allI impI)
    fix k
    assume "k < length is"
    with snoc.prems [rule_format, of k] show "instr_id (is ! k) = DenseId k \<and>
      (\<forall>u \<in> set (resource_uses (is ! k)). id_index (use_value u) < n)" by (simp add: nth_append)
  qed
  from snoc.IH [OF this] obtain t where t: "fold_outcome (record_instruction as)
      \<lparr>first_read = replicate n None, first_write = replicate n None, last_access = replicate n None\<rparr> is
      = Ok t" "tables_ok n (program_accesses as is) t" by blast
  have i: "instr_id i = DenseId (length is)" "\<forall>u \<in> set (resource_uses i). id_index (use_value u) < n"
    using snoc.prems [rule_format, of "length is"] by simp_all
  have "\<forall>(j, r, a) \<in> program_accesses as is. j \<le> length is"
    by (auto simp: program_accesses_def use_accesses_def)
  from record_uses_spec [OF t(2) this roots i(2)] t(1) i(1) show ?case
    by (auto simp: fold_outcome_append program_accesses_snoc record_instruction_def [of _ _ i])
qed


definition output_roots :: "('k, 'm) lowered_program \<Rightarrow> normalized_alias list \<Rightarrow> nat set" where
  "output_roots p as = (if prog_instructions p = [] then {} else root_of as ` set (prog_outputs p))"

definition final_accesses ::
    "('k, 'm) lowered_program \<Rightarrow> normalized_alias list \<Rightarrow> value_id list \<Rightarrow> (nat \<times> nat) set" where
  "final_accesses p as outs =
     (\<lambda>(k, r, a). (k, r)) ` program_accesses as (prog_instructions p) \<union>
     (if prog_instructions p = [] then {}
      else (\<lambda>v. (length (prog_instructions p) - 1, root_of as v)) ` set outs)"

definition last_table_ok :: "nat \<Rightarrow> (nat \<times> nat) set \<Rightarrow> access_tables \<Rightarrow> bool" where
  "last_table_ok n B t \<longleftrightarrow> length (last_access t) = n \<and>
     (\<forall>r < n. last_ok (\<lambda>k. (k, r) \<in> B) (last_access t ! r))"

lemma record_outputs_spec:
  assumes roots: "roots_ok (length (prog_values p)) as"
    and "last_table_ok (length (prog_values p)) (final_accesses p as before) t"
    and "\<forall>v \<in> set outs. id_index v < length (prog_values p)"
  shows "\<exists>l. fold_outcome (record_output p as) t outs = Ok (t\<lparr>last_access := l\<rparr>) \<and>
    last_table_ok (length (prog_values p)) (final_accesses p as (before @ outs)) (t\<lparr>last_access := l\<rparr>)"
  using assms(2,3)
proof (induction outs arbitrary: t before)
  case Nil
  then show ?case by (intro exI [of _ "last_access t"]) simp
next
  case (Cons v outs)
  let ?n = "length (prog_values p)" and ?is = "prog_instructions p" and ?r = "root_of as v"
  have v: "id_index v < ?n" using Cons.prems by simp
  then have r: "?r < ?n" using roots by (simp add: roots_ok_def root_of_def)
  have len: "length (last_access t) = ?n" using Cons.prems by (simp add: last_table_ok_def)
  define l1 where "l1 = (if ?is = [] then last_access t
    else (last_access t)[?r := max_access (length ?is - 1) (last_access t ! ?r)])"
  have run: "record_output p as t v = Ok (t\<lparr>last_access := l1\<rparr>)"
  proof (cases "?is = []")
    case True
    with v roots show ?thesis
      by (simp add: record_output_def known_value_def nth_opt_def expect_def roots_ok_def checked_sub_def l1_def)
  next
    case False
    then have "checked_sub (length ?is) 1 = Some (length ?is - 1)"
      by (cases ?is) (simp_all add: checked_sub_def)
    with False v r len roots show ?thesis
      by (simp add: record_output_def known_value_def nth_opt_def expect_def roots_ok_def
          l1_def root_of_def Let_def del: One_nat_def)
  qed
  have "last_table_ok ?n (final_accesses p as (before @ [v])) (t\<lparr>last_access := l1\<rparr>)"
  proof (cases "?is = []")
    case True
    with Cons.prems show ?thesis by (simp add: l1_def last_table_ok_def final_accesses_def)
  next
    case False
    have "last_ok (\<lambda>k. (k, s) \<in> final_accesses p as (before @ [v])) (l1 ! s)" if s: "s < ?n" for s
    proof -
      have old: "last_ok (\<lambda>k. (k, s) \<in> final_accesses p as before) (last_access t ! s)"
        using Cons.prems s by (simp add: last_table_ok_def)
      have new: "(k, s) \<in> final_accesses p as (before @ [v]) \<longleftrightarrow>
          (k = length ?is - 1 \<and> s = ?r) \<or> (k, s) \<in> final_accesses p as before" for k
        using False by (auto simp: final_accesses_def)
      show ?thesis
      proof (cases "s = ?r")
        case True
        with len r False have "l1 ! s = max_access (length ?is - 1) (last_access t ! s)"
          by (simp add: l1_def)
        moreover have "last_ok (\<lambda>k. (k, s) \<in> final_accesses p as (before @ [v]))
            (max_access (length ?is - 1) (last_access t ! s))"
          by (rule last_ok_cong [OF last_ok_insert [OF old]]) (use new True in auto)
        ultimately show ?thesis by simp
      next
        case False
        then have "l1 ! s = last_access t ! s" by (simp add: l1_def)
        with old False show ?thesis by (simp add: new)
      qed
    qed
    moreover have "length l1 = ?n" using len by (simp add: l1_def)
    ultimately show ?thesis by (simp add: last_table_ok_def)
  qed
  moreover have "\<forall>v \<in> set outs. id_index v < ?n" using Cons.prems by simp
  ultimately obtain l where "fold_outcome (record_output p as) (t\<lparr>last_access := l1\<rparr>) outs =
      Ok (t\<lparr>last_access := l1, last_access := l\<rparr>)"
    "last_table_ok ?n (final_accesses p as ((before @ [v]) @ outs)) (t\<lparr>last_access := l1, last_access := l\<rparr>)"
    using Cons.IH by blast
  with run show ?case by auto
qed


definition accessed ::
    "('k, 'm) lowered_program \<Rightarrow> normalized_alias list \<Rightarrow> nat \<Rightarrow> nat \<Rightarrow> bool" where
  "accessed p as k r \<longleftrightarrow> k < length (prog_instructions p) \<and>
     (\<exists>u \<in> set (resource_uses (prog_instructions p ! k)). root_of as (use_value u) = r)"

definition written ::
    "('k, 'm) lowered_program \<Rightarrow> normalized_alias list \<Rightarrow> nat \<Rightarrow> nat \<Rightarrow> bool" where
  "written p as k r \<longleftrightarrow> k < length (prog_instructions p) \<and>
     (\<exists>u \<in> set (resource_uses (prog_instructions p ! k)).
        root_of as (use_value u) = r \<and> access_writes (use_access u))"

definition interval_exact ::
    "('k, 'm) lowered_program \<Rightarrow> normalized_alias list \<Rightarrow> nat \<Rightarrow> live_interval option \<Rightarrow> bool" where
  "interval_exact p as r x \<longleftrightarrow> (case x of
     None \<Rightarrow> is_alias (decl_storage (prog_values p ! r)) \<or>
       \<not> is_planned (decl_storage (prog_values p ! r)) \<and> (\<forall>k. \<not> accessed p as k r)
   | Some iv \<Rightarrow> \<not> is_alias (decl_storage (prog_values p ! r)) \<and>
       iv_value iv = decl_id (prog_values p ! r) \<and>
       accessed p as (id_index (iv_start iv)) r \<and>
       (is_planned (decl_storage (prog_values p ! r)) \<longrightarrow> written p as (id_index (iv_start iv)) r) \<and>
       (\<forall>cl al sp ow. decl_storage (prog_values p ! r) = Planned cl al sp ow \<longrightarrow> is_power_of_two al) \<and>
       (\<forall>k. accessed p as k r \<longrightarrow> iv_contains iv (DenseId k)) \<and>
       id_index (iv_start iv) < id_index (iv_end iv) \<and>
       id_index (iv_end iv) \<le> length (prog_instructions p) \<and> id_index (iv_end iv) \<le> u32_max \<and>
       (r \<in> root_of as ` set (prog_outputs p) \<longrightarrow>
          id_index (iv_end iv) = length (prog_instructions p)) \<and>
       (r \<in> root_of as ` set (prog_outputs p) \<or> accessed p as (id_index (iv_end iv) - 1) r))"

lemma reads_or_writes: "access_reads a \<or> access_writes a"
  by (cases a) auto

lemma program_accesses_iff:
  "(\<exists>a. (k, r, a) \<in> program_accesses as (prog_instructions p)) \<longleftrightarrow> accessed p as k r"
  "(\<exists>a. (k, r, a) \<in> program_accesses as (prog_instructions p) \<and> access_writes a) \<longleftrightarrow> written p as k r"
  by (auto simp: program_accesses_def use_accesses_def accessed_def written_def)

lemma final_accesses_iff:
  "(k, r) \<in> final_accesses p as (prog_outputs p) \<longleftrightarrow>
    accessed p as k r \<or>
    prog_instructions p \<noteq> [] \<and> k = length (prog_instructions p) - 1 \<and> r \<in> root_of as ` set (prog_outputs p)"
proof -
  have "(k, r) \<in> (\<lambda>(k, r, a). (k, r)) ` program_accesses as (prog_instructions p) \<longleftrightarrow> accessed p as k r"
    unfolding program_accesses_iff(1) [symmetric] by force
  then show ?thesis by (auto simp: final_accesses_def)
qed

lemma interval_of_spec:
  fixes p :: "('k, 'm) lowered_program" and r :: nat and as :: "normalized_alias list"
  defines "R \<equiv> \<lambda>k. \<exists>a. (k, r, a) \<in> program_accesses as (prog_instructions p) \<and> access_reads a"
    and "W \<equiv> \<lambda>k. written p as k r"
    and "L \<equiv> \<lambda>k. (k, r) \<in> final_accesses p as (prog_outputs p)"
  assumes reads: "first_ok R (first_read t ! r)" and writes: "first_ok W (first_write t ! r)"
    and last: "last_ok L (last_access t ! r)"
    and run: "interval_of t (r, prog_values p ! r) = Ok x"
  shows "interval_exact p as r x"
proof (cases "is_alias (decl_storage (prog_values p ! r))")
  case True
  with run show ?thesis by (auto simp: interval_of_def interval_exact_def)
next
  case False
  let ?v = "prog_values p ! r"
  have touch: "accessed p as k r \<longleftrightarrow> R k \<or> W k" for k
    unfolding R_def W_def program_accesses_iff(2) [symmetric] program_accesses_iff(1) [symmetric]
    using reads_or_writes by blast
  from run False obtain s where s: "interval_start t (r, ?v) = Ok s"
    by (auto simp: interval_of_def outcome_iff)
  have align: "is_power_of_two al" if "decl_storage ?v = Planned cl al sp ow" for cl al sp ow
    using s that by (auto simp: interval_start_def split: if_splits)
  have start: "case s of None \<Rightarrow> \<not> is_planned (decl_storage ?v) \<and> (\<forall>k. \<not> accessed p as k r)
    | Some f \<Rightarrow> accessed p as f r \<and> (\<forall>k. accessed p as k r \<longrightarrow> f \<le> k) \<and>
        (is_planned (decl_storage ?v) \<longrightarrow> written p as f r)"
  proof (cases "is_planned (decl_storage ?v)")
    case True
    then obtain c al sp ow where st: "decl_storage ?v = Planned c al sp ow"
      by (cases "decl_storage ?v") auto
    from s st obtain d where d: "first_write t ! r = Some d" "s = Some d"
      "\<forall>f < d. first_read t ! r \<noteq> Some f"
      by (auto simp: interval_start_def outcome_iff split: if_splits option.splits)
    then have "W d" "\<forall>k. W k \<longrightarrow> d \<le> k" using writes by (simp_all add: first_ok_def)
    moreover have "d \<le> k" if "R k" for k
    proof -
      from reads that obtain f where "first_read t ! r = Some f" "f \<le> k"
        by (cases "first_read t ! r") (auto simp: first_ok_def)
      with d(3) show ?thesis by (meson leI order_trans)
    qed
    ultimately show ?thesis using d(2) touch by (auto simp: W_def)
  next
    case planned: False
    with False s have "s = (case (first_read t ! r, first_write t ! r) of
            (Some read, Some write) \<Rightarrow> Some (min read write)
          | (Some read, None) \<Rightarrow> Some read
          | (None, Some write) \<Rightarrow> Some write
          | (None, None) \<Rightarrow> None)"
      by (cases "decl_storage ?v") (auto simp: interval_start_def)
    with reads writes planned touch show ?thesis
      by (auto simp: first_ok_def min_def split: option.splits dest: order_trans)
  qed
  show ?thesis
  proof (cases s)
    case None
    with run False s start show ?thesis
      by (auto simp: interval_of_def interval_exact_def)
  next
    case (Some f)
    with run False s obtain l where l: "last_access t ! r = Some l" "l + 1 \<le> usize_max"
      and f: "f \<le> u32_max" "l + 1 \<le> u32_max"
      and x: "x = Some \<lparr>iv_value = decl_id ?v, iv_start = DenseId f, iv_end = DenseId (l + 1)\<rparr>"
      by (auto simp: interval_of_def outcome_iff checked_simps split: option.splits)
    from last l(1) have L: "L l" "\<forall>k. L k \<longrightarrow> k \<le> l" by (simp_all add: last_ok_def)
    have all: "accessed p as k r \<Longrightarrow> f \<le> k \<and> k \<le> l" for k
      using start Some L(2) by (auto simp: L_def final_accesses_iff)
    have acc: "accessed p as f r" "is_planned (decl_storage ?v) \<longrightarrow> written p as f r"
      using start Some by auto
    then have len: "f \<le> l" "prog_instructions p \<noteq> []" using all by (auto simp: accessed_def)
    have "r \<in> root_of as ` set (prog_outputs p) \<Longrightarrow> length (prog_instructions p) - 1 \<le> l"
      using L(2) len by (simp add: L_def final_accesses_iff)
    moreover have "l < length (prog_instructions p)"
      using L(1) len by (auto simp: L_def final_accesses_iff accessed_def)
    moreover have "r \<in> root_of as ` set (prog_outputs p) \<or> accessed p as l r"
      using L(1) by (auto simp: L_def final_accesses_iff)
    ultimately show ?thesis
      using x False all acc len f align
      by (auto simp: interval_exact_def iv_contains_def less_Suc_eq_le)
  qed
qed


lemma interval_of_not_Panic: "interval_of t iv \<noteq> Panic"
proof -
  have "interval_start t iv \<noteq> Panic"
    by (auto simp: interval_start_def outcome_iff split: prod.splits value_storage.splits option.splits)
  then show ?thesis
    by (auto simp: interval_of_def outcome_iff split: prod.splits option.splits)
qed

lemma validate_lowered_program_not_Panic:
  fixes p :: "('k, 'm) lowered_program"
  shows "validate_lowered_program p \<noteq> Panic"
proof -
  have known: "known_value vs i v \<noteq> Panic" for vs :: "'m value_decl list" and i v
    by (simp add: known_value_def)
  have "validate_dense_values vs \<noteq> Panic" for vs :: "'m value_decl list"
    unfolding validate_dense_values_def
    by (rule each_outcome_Panic) (auto simp: outcome_iff split: if_splits)
  moreover have "validate_alias_source vs v \<noteq> Panic" for vs and v :: "'m value_decl"
    by (auto simp: validate_alias_source_def known split: value_storage.splits)
  moreover have "validate_instruction vs ii \<noteq> Panic"
    for vs :: "'m value_decl list" and ii :: "nat \<times> 'k lowered_instruction"
    by (auto simp: validate_instruction_def outcome_iff known intro!: each_outcome_Panic split: prod.splits)
  ultimately show ?thesis
    by (auto simp: validate_lowered_program_def outcome_iff known intro!: each_outcome_Panic)
qed

lemma analyze_liveness_spec:
  assumes range: "\<forall>v \<in> set (prog_values p). decl_in_range v"
  shows "case analyze_liveness p of
      Ok lv \<Rightarrow> program_ok p \<and> normalize_aliases (prog_values p) = Ok (live_aliases lv) \<and>
        roots_ok (length (prog_values p)) (live_aliases lv) \<and>
        length (live_intervals lv) = length (prog_values p) \<and>
        (\<forall>r < length (prog_values p). interval_exact p (live_aliases lv) r (live_intervals lv ! r))
    | Err e \<Rightarrow> True
    | Panic \<Rightarrow> False"
proof -
  let ?n = "length (prog_values p)"
  have "validate_lowered_program p \<noteq> Panic" by (rule validate_lowered_program_not_Panic)
  show ?thesis
  proof (cases "program_ok p")
    case False
    with \<open>validate_lowered_program p \<noteq> Panic\<close> validate_lowered_program_Ok [of p] show ?thesis
      by (cases "validate_lowered_program p") (auto simp: analyze_liveness_def)
  next
    case True
    then have valid: "validate_lowered_program p = Ok ()" by (simp add: validate_lowered_program_Ok)
    note norm = normalize_aliases_spec [OF range]
    show ?thesis
    proof (cases "normalize_aliases (prog_values p)")
      case (Ok as)
      with norm have roots: "roots_ok ?n as" by (auto simp: roots_ok_def placed_in_root_def Let_def)
      have "\<forall>k < length (prog_instructions p). instr_id (prog_instructions p ! k) = DenseId k \<and>
          (\<forall>u \<in> set (resource_uses (prog_instructions p ! k)). id_index (use_value u) < ?n)"
        and outs: "\<forall>v \<in> set (prog_outputs p). id_index v < ?n"
        using True by (auto simp: program_ok_def)
      from record_instructions_spec [OF roots this(1)] obtain t where
        t: "fold_outcome (record_instruction as) \<lparr>first_read = replicate ?n None,
            first_write = replicate ?n None, last_access = replicate ?n None\<rparr> (prog_instructions p) = Ok t"
          "tables_ok ?n (program_accesses as (prog_instructions p)) t" by blast
      have "last_table_ok ?n (final_accesses p as []) t"
      proof -
        have "(k, r) \<in> final_accesses p as [] \<longleftrightarrow> (\<exists>a. (k, r, a) \<in> program_accesses as (prog_instructions p))"
          for k r by (force simp: final_accesses_def)
        with t(2) show ?thesis by (simp add: last_table_ok_def tables_ok_def)
      qed
      from record_outputs_spec [OF roots this outs] obtain l where
        l: "fold_outcome (record_output p as) t (prog_outputs p) = Ok (t\<lparr>last_access := l\<rparr>)"
          "last_table_ok ?n (final_accesses p as (prog_outputs p)) (t\<lparr>last_access := l\<rparr>)" by auto
      let ?t = "t\<lparr>last_access := l\<rparr>"
      show ?thesis
      proof (cases "traverse (interval_of ?t) (enumerate 0 (prog_values p))")
        case ivs: (Ok ivs)
        then have run: "analyze_liveness p = Ok \<lparr>live_aliases = as, live_intervals = ivs\<rparr>"
          using valid Ok t(1) l(1) by (simp add: analyze_liveness_def Let_def)
        from ivs have len: "length ivs = ?n"
          and each: "\<forall>r < ?n. interval_of ?t (r, prog_values p ! r) = Ok (ivs ! r)"
          by (auto simp: traverse_Ok nth_enumerate_eq)
        have "interval_exact p as r (ivs ! r)" if r: "r < ?n" for r
        proof (rule interval_of_spec)
          show "interval_of ?t (r, prog_values p ! r) = Ok (ivs ! r)" using each r by blast
          show "last_ok (\<lambda>k. (k, r) \<in> final_accesses p as (prog_outputs p)) (last_access ?t ! r)"
            using l(2) r by (simp add: last_table_ok_def)
        qed (use t(2) r in \<open>auto simp: tables_ok_def program_accesses_iff\<close>)
        with run len roots Ok True show ?thesis by simp
      next
        case (Err e)
        with valid Ok t(1) l(1) show ?thesis by (simp add: analyze_liveness_def Let_def)
      next
        case Panic
        moreover have "traverse (interval_of ?t) (enumerate 0 (prog_values p)) \<noteq> Panic"
          by (rule traverse_Panic) (rule interval_of_not_Panic)
        ultimately show ?thesis by blast
      qed
    qed (use valid norm in \<open>auto simp: analyze_liveness_def\<close>)
  qed
qed


text \<open>
  C15. The live interval of a value is the exact hull of its uses. Analysis never panics, and
  when it succeeds: a value has an interval exactly when it owns storage and is used; every
  access, through any alias and in any resource category, falls inside the interval of its root;
  the first instruction of the interval accesses the value, and for a planned value, whose
  alignment is a power of two, defines it;
  the last one accesses it too, unless the value is an output, which stays live to the end.
\<close>
theorem analyze_liveness_exact:
  assumes "\<forall>v \<in> set (prog_values p). decl_in_range v"
  shows "analyze_liveness p \<noteq> Panic \<and>
    (\<forall>lv. analyze_liveness p = Ok lv \<longrightarrow>
       normalize_aliases (prog_values p) = Ok (live_aliases lv) \<and>
       length (live_intervals lv) = length (prog_values p) \<and>
       (\<forall>r < length (prog_values p). interval_exact p (live_aliases lv) r (live_intervals lv ! r)))"
  using analyze_liveness_spec [OF assms] by auto

definition shown_program :: "(string, native_memory_space) lowered_program" where
  "shown_program = program_new
     [decl_planned (DenseId 0) ''a'' 16 8 Cpu WorkspaceOwned,
      decl_planned (DenseId 1) ''b'' 8 8 Cpu WorkspaceOwned,
      decl_alias (DenseId 2) ''v'' (DenseId 0) 8 8,
      decl_planned (DenseId 3) ''c'' 16 8 Cpu WorkspaceOwned]
     [instruction_new (DenseId 0) ''fill'' [] [\<lparr>out_value = DenseId 0\<rparr>],
      instruction_new (DenseId 1) ''copy'' [use_read (DenseId 2)] [\<lparr>out_value = DenseId 1\<rparr>],
      instruction_new (DenseId 2) ''neg'' [use_read (DenseId 1)] [\<lparr>out_value = DenseId 3\<rparr>]]
     [DenseId 3]"

definition shown_liveness :: liveness where
  "shown_liveness = \<lparr>
     live_aliases = [\<lparr>alias_root = DenseId 0, alias_offset = 0\<rparr>, \<lparr>alias_root = DenseId 1, alias_offset = 0\<rparr>,
       \<lparr>alias_root = DenseId 0, alias_offset = 8\<rparr>, \<lparr>alias_root = DenseId 3, alias_offset = 0\<rparr>],
     live_intervals = [
       Some \<lparr>iv_value = DenseId 0, iv_start = DenseId 0, iv_end = DenseId 2\<rparr>,
       Some \<lparr>iv_value = DenseId 1, iv_start = DenseId 1, iv_end = DenseId 3\<rparr>, None,
       Some \<lparr>iv_value = DenseId 3, iv_start = DenseId 2, iv_end = DenseId 3\<rparr>]\<rparr>"

lemma power_of_two_8: "is_power_of_two 8"
  unfolding is_power_of_two_iff by (rule exI [of _ 3]) simp

lemmas shown_program_simps = shown_program_def program_new_def decl_planned_def decl_alias_def
  instruction_new_def

lemma shown_valid: "validate_lowered_program shown_program = Ok ()"
  by (auto simp: validate_lowered_program_Ok program_ok_def dense_values_def shown_program_simps
      u32_max_def less_Suc_eq resource_uses_def)

lemma shown_aliases: "normalize_aliases (prog_values shown_program) = Ok (live_aliases shown_liveness)"
  by (simp add: normalize_aliases_def shown_program_simps validate_dense_values_def from_index_def
      u32_try_from_def u32_max_def ok_or_def normalize_from_def follow.simps checked_add_def
      usize_max_def nth_opt_def expect_def upt_rec numeral_2_eq_2 numeral_3_eq_3 shown_liveness_def)

lemma shown_analysis: "analyze_liveness shown_program = Ok shown_liveness"
  unfolding analyze_liveness_def shown_valid shown_aliases
  by (simp add: shown_program_simps shown_liveness_def record_instruction_def resource_uses_def
      record_access_def nth_opt_def ok_or_def Let_def get_or_insert_def max_access_def record_output_def
      known_value_def expect_def checked_sub_def interval_of_def interval_start_def power_of_two_8
      checked_add_def usize_max_def from_index_def u32_try_from_def u32_max_def numeral_2_eq_2 numeral_3_eq_3)

lemma shown_in_range: "\<forall>v \<in> set (prog_values shown_program). decl_in_range v"
  by (simp add: shown_program_simps decl_in_range_def usize_max_def u32_max_def)

lemma analyze_liveness_exact_witness:
  "interval_exact shown_program (live_aliases shown_liveness) 0
     (Some \<lparr>iv_value = DenseId 0, iv_start = DenseId 0, iv_end = DenseId 2\<rparr>)"
proof -
  have "interval_exact shown_program (live_aliases shown_liveness) 0 (live_intervals shown_liveness ! 0)"
    using analyze_liveness_exact [OF shown_in_range] shown_analysis
    by (auto simp: shown_program_simps)
  then show ?thesis by (simp add: shown_liveness_def)
qed

end
