(* ===== verification/Packing.thy ===== *)
theory Packing
  imports Liveness
begin

text \<open>
  The last stage of the memory planner (\<open>plan_memory\<close> and its helpers in
  \<open>crates/compiler/src/planner.rs\<close>): values are packed into segments, the reuse edges, the
  locations and the report are derived, and the plan is validated.
\<close>

section \<open>Segments under construction\<close>

record active_allocation =
  act_end :: nat
  act_offset :: nat
  act_bytes :: nat

record 'm working_segment =
  ws_space :: 'm
  ws_ownership :: segment_ownership
  ws_max_bytes :: nat
  ws_granularity :: nat
  ws_alignment :: nat
  ws_used_end :: nat
  ws_free :: "(nat \<times> nat) list"
  ws_active :: "active_allocation list"

record assignment =
  asg_value :: value_id
  asg_segment :: nat
  asg_offset :: nat
  asg_bytes :: nat
  asg_interval :: live_interval

definition round_up :: "nat \<Rightarrow> nat \<Rightarrow> value_id option \<Rightarrow> (nat, planner_error) outcome" where
  "round_up value multiple i =
     (let remainder = value mod multiple in
      if remainder = 0 then Ok value
      else ok_or (PlanningByteSizeOverflow i) (checked_add value (multiple - remainder)))"

definition align_up :: "nat \<Rightarrow> nat \<Rightarrow> value_id \<Rightarrow> (nat, planner_error) outcome" where
  "align_up value alignment i = round_up value alignment (Some i)"

text \<open>\<open>merged\<close> is built from the front, with its last element kept at the head.\<close>

primrec merge_ranges :: "(nat \<times> nat) list \<Rightarrow> (nat \<times> nat) list \<Rightarrow> (nat \<times> nat) list" where
  "merge_ranges merged [] = rev merged"
| "merge_ranges merged (r # rs) = (case merged of
     previous # older \<Rightarrow>
       if fst r \<le> snd previous
       then merge_ranges ((fst previous, max (snd previous) (snd r)) # older) rs
       else merge_ranges (r # merged) rs
   | [] \<Rightarrow> merge_ranges [r] rs)"

definition coalesce :: "(nat \<times> nat) list \<Rightarrow> (nat \<times> nat) list" where
  "coalesce ranges = merge_ranges [] (sort_key (\<lambda>r. (fst r, snd r)) ranges)"

definition retire :: "nat \<Rightarrow> 'm working_segment \<Rightarrow> 'm working_segment" where
  "retire before s =
     (let freed = map (\<lambda>a. (act_offset a, wrapping_add (act_offset a) (act_bytes a)))
            (filter (\<lambda>a. act_end a \<le> before \<and> act_bytes a \<noteq> 0) (ws_active s)) in
      s\<lparr>ws_active := filter (\<lambda>a. \<not> act_end a \<le> before) (ws_active s),
        ws_free := coalesce (ws_free s @ freed)\<rparr>)"

definition consume_free_range ::
    "'m working_segment \<Rightarrow> nat \<Rightarrow> nat \<Rightarrow> nat \<Rightarrow> ('m working_segment, 'e) outcome" where
  "consume_free_range s range_index offset bytes =
     and_then (expect (nth_opt (ws_free s) range_index)) (\<lambda>range.
       let end = wrapping_add offset bytes in
       Ok (s\<lparr>ws_free := coalesce (remove_nth range_index (ws_free s) @
         (if fst range < offset then [(fst range, offset)] else []) @
         (if end < snd range then [(end, snd range)] else []))\<rparr>))"

section \<open>Report\<close>

definition add_bytes :: "nat \<Rightarrow> nat \<Rightarrow> (nat, planner_error) outcome" where
  "add_bytes target amount = ok_or (PlanningByteSizeOverflow None) (checked_add target amount)"

definition add_fixed_bytes ::
    "memory_report \<Rightarrow> storage_class \<Rightarrow> nat \<Rightarrow> (memory_report, planner_error) outcome" where
  "add_fixed_bytes r class bytes = (case class of
     ExternalInput \<Rightarrow>
       and_then (add_bytes (external_bytes r) bytes) (\<lambda>b. Ok (r\<lparr>external_bytes := b\<rparr>))
   | PersistentConstant \<Rightarrow>
       and_then (add_bytes (persistent_bytes r) bytes) (\<lambda>b. Ok (r\<lparr>persistent_bytes := b\<rparr>))
   | PersistentState \<Rightarrow>
       and_then (add_bytes (state_bytes r) bytes) (\<lambda>b. Ok (r\<lparr>state_bytes := b\<rparr>))
   | EscapingOutput \<Rightarrow>
       and_then (add_bytes (output_bytes r) bytes) (\<lambda>b. Ok (r\<lparr>output_bytes := b\<rparr>))
   | Workspace \<Rightarrow>
       and_then (add_bytes (workspace_bytes r) bytes) (\<lambda>b. Ok (r\<lparr>workspace_bytes := b\<rparr>))
   | DeviceStatus \<Rightarrow>
       and_then (add_bytes (workspace_bytes r) bytes) (\<lambda>b. Ok (r\<lparr>workspace_bytes := b\<rparr>)))"

text \<open>\<open>std::cmp::Reverse\<close>: the order of the wrapped type, reversed.\<close>

datatype 'a reverse = Reverse (unreverse: 'a)

instantiation reverse :: (linorder) linorder
begin

definition less_eq_reverse :: "'a reverse \<Rightarrow> 'a reverse \<Rightarrow> bool" where
  "less_eq_reverse a b \<longleftrightarrow> unreverse b \<le> unreverse a"

definition less_reverse :: "'a reverse \<Rightarrow> 'a reverse \<Rightarrow> bool" where
  "less_reverse a b \<longleftrightarrow> unreverse b < unreverse a"

instance
  by standard (auto simp: less_eq_reverse_def less_reverse_def reverse.expand)

end

type_synonym ranked_allocation = "nat reverse \<times> string \<times> value_id \<times> allocation_report"

definition ranked :: "'m value_decl \<Rightarrow> storage_class \<Rightarrow> ranked_allocation" where
  "ranked v class = (Reverse (decl_bytes v), decl_name v, decl_id v,
     \<lparr>report_name = decl_name v, report_class = class, report_bytes = decl_bytes v\<rparr>)"

definition report_value ::
    "memory_report \<times> ranked_allocation list \<Rightarrow> 'm value_decl
      \<Rightarrow> (memory_report \<times> ranked_allocation list, planner_error) outcome" where
  "report_value s v = (case s of (r, largest) \<Rightarrow>
     (case decl_storage v of
        Fixed class _ \<Rightarrow>
          and_then (add_fixed_bytes r class (decl_bytes v)) (\<lambda>r'. Ok (r', largest @ [ranked v class]))
      | Planned class _ _ _ \<Rightarrow> Ok (r, largest @ [ranked v class])
      | AliasOf _ _ \<Rightarrow> Ok (r, largest)))"

definition report_segment ::
    "memory_report \<Rightarrow> 'm segment_decl \<Rightarrow> (memory_report, planner_error) outcome" where
  "report_segment r s = (case seg_ownership s of
     WorkspaceOwned \<Rightarrow>
       and_then (add_bytes (workspace_bytes r) (seg_bytes s)) (\<lambda>b. Ok (r\<lparr>workspace_bytes := b\<rparr>))
   | InvocationStaging \<Rightarrow>
       and_then (add_bytes (workspace_bytes r) (seg_bytes s)) (\<lambda>b. Ok (r\<lparr>workspace_bytes := b\<rparr>))
   | ProvisionalOutput \<Rightarrow>
       and_then (add_bytes (output_bytes r) (seg_bytes s)) (\<lambda>b. Ok (r\<lparr>output_bytes := b\<rparr>))
   | StateTransaction \<Rightarrow>
       and_then (add_bytes (transaction_bytes r) (seg_bytes s)) (\<lambda>b. Ok (r\<lparr>transaction_bytes := b\<rparr>)))"

definition count_interval ::
    "nat list \<times> nat list \<Rightarrow> 'm value_decl \<times> live_interval option
      \<Rightarrow> (nat list \<times> nat list, planner_error) outcome" where
  "count_interval se vi = (case (se, vi) of ((starts, ends), (v, interval)) \<Rightarrow>
     if \<not> is_planned (decl_storage v) then Ok (starts, ends)
     else and_then (expect interval) (\<lambda>iv.
       let s = id_index (iv_start iv); e = id_index (iv_end iv) in
       and_then (expect (nth_opt starts s)) (\<lambda>at_start.
       and_then (add_bytes at_start (decl_bytes v)) (\<lambda>s'.
       and_then (expect (nth_opt ends e)) (\<lambda>at_end.
       and_then (add_bytes at_end (decl_bytes v)) (\<lambda>e'.
         Ok (starts[s := s'], ends[e := e'])))))))"

definition sweep ::
    "nat list \<Rightarrow> nat list \<Rightarrow> nat \<times> nat \<Rightarrow> nat \<Rightarrow> (nat \<times> nat, planner_error) outcome" where
  "sweep starts ends lp instruction = (case lp of (live, peak) \<Rightarrow>
     and_then (ok_or (PlanningByteSizeOverflow None) (checked_sub live (ends ! instruction))) (\<lambda>l.
     and_then (add_bytes l (starts ! instruction)) (\<lambda>l'. Ok (l', max peak l'))))"

definition build_report ::
    "('k, 'm) lowered_program \<Rightarrow> liveness \<Rightarrow> 'm segment_decl list \<Rightarrow> nat
      \<Rightarrow> (memory_report, planner_error) outcome" where
  "build_report p lv segments largest_allocs =
     and_then (fold_outcome report_value (default_report, []) (prog_values p)) (\<lambda>(r, largest).
     and_then (fold_outcome report_segment r segments) (\<lambda>r1.
     let zeros = replicate (length (prog_instructions p) + 1) 0 in
     and_then (fold_outcome count_interval (zeros, zeros) (zip (prog_values p) (live_intervals lv)))
       (\<lambda>(starts, ends).
     and_then (fold_outcome (sweep starts ends) (0, peak_live_bytes r1) [0..<length (prog_instructions p)])
       (\<lambda>(_, peak).
     and_then (ok_or (PlanningByteSizeOverflow None) (checked_segment_bytes segments)) (\<lambda>total.
     and_then (ok_or (PlanningByteSizeOverflow None) (checked_sub total peak)) (\<lambda>overhead.
       Ok (r1\<lparr>peak_live_bytes := peak, packing_overhead_bytes := overhead,
         largest_allocations := map (\<lambda>(_, _, _, a). a) (take largest_allocs
           (sort_key (\<lambda>(b, n, i, _). (b, n, i)) largest))\<rparr>)))))))"

section \<open>Placement\<close>

definition check_space ::
    "'m memory_space_config list \<Rightarrow> nat \<times> 'm memory_space_config \<Rightarrow> (unit, planner_error) outcome" where
  "check_space spaces is = (case is of (index, space) \<Rightarrow>
     if cfg_max_segment_bytes space = 0 \<or> cfg_segment_alignment space = 0 \<or>
        \<not> is_power_of_two (cfg_segment_alignment space) \<or> cfg_segment_granularity space = 0
     then Err (InvalidMemorySpaceConfig index)
     else (case find (\<lambda>previous. cfg_space (spaces ! previous) = cfg_space space) [0..<index] of
        Some previous \<Rightarrow> Err (DuplicateMemorySpaceConfig previous index)
      | None \<Rightarrow> Ok ()))"

definition allocation_order ::
    "('k, 'm) lowered_program \<Rightarrow> liveness \<Rightarrow> (nat list, planner_error) outcome" where
  "allocation_order p lv =
     (let indexes = map fst (filter (\<lambda>(_, v). is_planned (decl_storage v)) (enumerate 0 (prog_values p))) in
      if \<exists>i \<in> set indexes. \<not> (i < length (live_intervals lv)) \<or> live_intervals lv ! i = None then Panic
      else Ok (sort_key (\<lambda>i. (iv_start (the (live_intervals lv ! i)), decl_id (prog_values p ! i)))
        indexes))"

type_synonym free_choice = "nat \<times> nat \<times> nat \<times> nat"

definition better :: "'c::linorder option \<Rightarrow> 'c \<Rightarrow> 'c option" where
  "better current candidate = (case current of
     None \<Rightarrow> Some candidate
   | Some c \<Rightarrow> if candidate < c then Some candidate else Some c)"

definition try_free_range ::
    "'m value_decl \<Rightarrow> nat \<Rightarrow> nat \<Rightarrow> free_choice option \<Rightarrow> nat \<times> nat \<times> nat
      \<Rightarrow> (free_choice option, planner_error) outcome" where
  "try_free_range v alignment segment_index best ir = (case ir of (range_index, rng) \<Rightarrow>
     and_then (align_up (fst rng) alignment (decl_id v)) (\<lambda>offset.
     and_then (ok_or (PlanningByteSizeOverflow (Some (decl_id v))) (checked_add offset (decl_bytes v)))
       (\<lambda>end.
         if end \<le> snd rng
         then Ok (better best ((snd rng - fst rng) - decl_bytes v, segment_index, offset, range_index))
         else Ok best)))"

definition compatible :: "'m \<Rightarrow> segment_ownership \<Rightarrow> 'm working_segment \<Rightarrow> bool" where
  "compatible space ownership s \<longleftrightarrow> ws_space s = space \<and> ws_ownership s = ownership"

definition try_free_segment ::
    "'m value_decl \<Rightarrow> nat \<Rightarrow> 'm \<Rightarrow> segment_ownership \<Rightarrow> free_choice option
      \<Rightarrow> nat \<times> 'm working_segment \<Rightarrow> (free_choice option, planner_error) outcome" where
  "try_free_segment v alignment space ownership best is = (case is of (segment_index, s) \<Rightarrow>
     if \<not> compatible space ownership s then Ok best
     else fold_outcome (try_free_range v alignment segment_index) best (enumerate 0 (ws_free s)))"

definition free_candidate ::
    "'m value_decl \<Rightarrow> nat \<Rightarrow> 'm \<Rightarrow> segment_ownership \<Rightarrow> 'm working_segment list
      \<Rightarrow> (free_choice option, planner_error) outcome" where
  "free_candidate v alignment space ownership working =
     fold_outcome (try_free_segment v alignment space ownership) None (enumerate 0 working)"

type_synonym tail_choice = "nat \<times> nat \<times> nat"

definition try_tail ::
    "'m value_decl \<Rightarrow> nat \<Rightarrow> 'm \<Rightarrow> segment_ownership \<Rightarrow> tail_choice option
      \<Rightarrow> nat \<times> 'm working_segment \<Rightarrow> (tail_choice option, planner_error) outcome" where
  "try_tail v alignment space ownership best is = (case is of (segment_index, s) \<Rightarrow>
     if \<not> compatible space ownership s then Ok best
     else and_then (align_up (ws_used_end s) alignment (decl_id v)) (\<lambda>offset.
       and_then (ok_or (PlanningByteSizeOverflow (Some (decl_id v))) (checked_add offset (decl_bytes v)))
       (\<lambda>end.
       and_then (round_up end (ws_granularity s) (Some (decl_id v))) (\<lambda>capacity.
         if capacity \<le> ws_max_bytes s
         then and_then (round_up (ws_used_end s) (ws_granularity s) (Some (decl_id v))) (\<lambda>old.
           Ok (better best (capacity - old, segment_index, offset)))
         else Ok best))))"

definition tail_candidate ::
    "'m value_decl \<Rightarrow> nat \<Rightarrow> 'm \<Rightarrow> segment_ownership \<Rightarrow> 'm working_segment list
      \<Rightarrow> (tail_choice option, planner_error) outcome" where
  "tail_candidate v alignment space ownership working =
     fold_outcome (try_tail v alignment space ownership) None (enumerate 0 working)"

text \<open>The segment and offset chosen for a value, with the segments as the choice leaves them.\<close>

definition grow_tail :: "'m working_segment \<Rightarrow> nat \<Rightarrow> 'm value_decl \<Rightarrow> ('m working_segment, planner_error) outcome" where
  "grow_tail s offset v =
     (let s1 = (if ws_used_end s < offset
                then s\<lparr>ws_free := coalesce (ws_free s @ [(ws_used_end s, offset)])\<rparr> else s) in
      and_then (ok_or (PlanningByteSizeOverflow (Some (decl_id v))) (checked_add offset (decl_bytes v)))
        (\<lambda>end. Ok (s1\<lparr>ws_used_end := end\<rparr>)))"

definition choose_slot ::
    "'m memory_space_config \<Rightarrow> 'm value_decl \<Rightarrow> nat \<Rightarrow> 'm \<Rightarrow> segment_ownership
      \<Rightarrow> 'm working_segment list \<Rightarrow> ('m working_segment list \<times> nat \<times> nat, planner_error) outcome" where
  "choose_slot config v alignment space ownership working =
     and_then (free_candidate v alignment space ownership working) (\<lambda>free. (case free of
        Some (_, segment_index, offset, range_index) \<Rightarrow>
          and_then (consume_free_range (working ! segment_index) range_index offset (decl_bytes v)) (\<lambda>s.
            Ok (working[segment_index := s], segment_index, offset))
      | None \<Rightarrow>
          and_then (tail_candidate v alignment space ownership working) (\<lambda>tail. (case tail of
             Some (_, segment_index, offset) \<Rightarrow>
               and_then (grow_tail (working ! segment_index) offset v) (\<lambda>s.
                 Ok (working[segment_index := s], segment_index, offset))
           | None \<Rightarrow>
               and_then (ok_or TooManySegments (from_index (length working) :: segment_id option)) (\<lambda>_.
                 Ok (working @ [\<lparr>ws_space = space, ws_ownership = ownership,
                        ws_max_bytes = cfg_max_segment_bytes config,
                        ws_granularity = cfg_segment_granularity config,
                        ws_alignment = max (cfg_segment_alignment config) alignment,
                        ws_used_end = decl_bytes v, ws_free = [], ws_active = []\<rparr>],
                     length working, 0))))))"

type_synonym 'm packing = "'m working_segment list \<times> assignment list \<times> assignment option list"

definition place_value ::
    "('k, 'm) lowered_program \<Rightarrow> 'm planner_config \<Rightarrow> liveness \<Rightarrow> 'm packing \<Rightarrow> nat
      \<Rightarrow> ('m packing, planner_error) outcome" where
  "place_value p config lv pk value_index = (case pk of (working, assignments, by_value) \<Rightarrow>
     let v = prog_values p ! value_index in
     (case decl_storage v of
        Planned _ alignment space ownership \<Rightarrow>
          and_then (expect (live_intervals lv ! value_index)) (\<lambda>interval.
          and_then (ok_or (MissingMemorySpaceConfig (decl_id v))
              (find (\<lambda>c. cfg_space c = space) (cfg_memory_spaces config))) (\<lambda>cfg.
          and_then (round_up (decl_bytes v) (cfg_segment_granularity cfg) (Some (decl_id v))) (\<lambda>rounded.
          if decl_bytes v > cfg_max_segment_bytes cfg \<or> rounded > cfg_max_segment_bytes cfg
          then Err (ValueTooLarge (decl_id v) (decl_bytes v) rounded (cfg_max_segment_bytes cfg))
          else
          let retired = map (retire (id_index (iv_start interval))) working in
          and_then (choose_slot cfg v alignment space ownership retired)
            (\<lambda>(working', segment_index, offset).
              let s = working' ! segment_index;
                  s' = s\<lparr>ws_alignment := max (ws_alignment s) alignment,
                         ws_active := ws_active s @ [\<lparr>act_end = id_index (iv_end interval),
                           act_offset = offset, act_bytes = decl_bytes v\<rparr>]\<rparr>;
                  a = \<lparr>asg_value = decl_id v, asg_segment = segment_index, asg_offset = offset,
                       asg_bytes = decl_bytes v, asg_interval = interval\<rparr> in
              Ok (working'[segment_index := s'], assignments @ [a], by_value[value_index := Some a])))))
      | _ \<Rightarrow> Panic))"

section \<open>The plan\<close>

definition finish_segment :: "'m working_segment \<Rightarrow> ('m segment_decl, planner_error) outcome" where
  "finish_segment s = and_then (round_up (ws_used_end s) (ws_granularity s) None) (\<lambda>bytes.
     Ok \<lparr>seg_bytes = bytes, seg_alignment = ws_alignment s, seg_space = ws_space s,
         seg_ownership = ws_ownership s\<rparr>)"

definition reuse_pair ::
    "reuse_edge list \<Rightarrow> assignment \<times> assignment \<Rightarrow> (reuse_edge list, planner_error) outcome" where
  "reuse_pair edges pn = (case pn of (previous, next) \<Rightarrow>
     if asg_segment previous \<noteq> asg_segment next then Ok edges
     else
     and_then (ok_or (PlanningByteSizeOverflow (Some (asg_value previous)))
         (checked_add (asg_offset previous) (asg_bytes previous))) (\<lambda>previous_end.
     and_then (ok_or (PlanningByteSizeOverflow (Some (asg_value next)))
         (checked_add (asg_offset next) (asg_bytes next))) (\<lambda>next_end.
       if \<not> (asg_offset previous < next_end \<and> asg_offset next < previous_end) then Ok edges
       else if iv_overlaps (asg_interval previous) (asg_interval next)
       then Err (PackingConflict (asg_value previous) (asg_value next))
       else if get_id (iv_end (asg_interval previous)) \<le> get_id (iv_start (asg_interval next))
       then Ok (edges @ [\<lparr>previous_value = asg_value previous, next_value = asg_value next,
              edge_after = DenseId (get_id (iv_end (asg_interval previous)) - 1),
              edge_before = iv_start (asg_interval next)\<rparr>])
       else Ok edges)))"

definition earlier_pairs :: "assignment list \<Rightarrow> (assignment \<times> assignment) list" where
  "earlier_pairs assignments = concat (map (\<lambda>(next_index, next).
     map (\<lambda>previous. (previous, next)) (take next_index assignments)) (enumerate 0 assignments))"

definition reuse_edges :: "assignment list \<Rightarrow> (reuse_edge list, planner_error) outcome" where
  "reuse_edges assignments =
     and_then (fold_outcome reuse_pair [] (earlier_pairs assignments)) (\<lambda>edges.
       Ok (remdups_adj (sort_key (\<lambda>e. (edge_before e, edge_after e, next_value e, previous_value e)) edges)))"

definition location_of ::
    "liveness \<Rightarrow> assignment option list \<Rightarrow> nat \<times> 'm value_decl \<Rightarrow> (location, planner_error) outcome" where
  "location_of lv by_value iv = (case iv of (index, v) \<Rightarrow>
     and_then (ok_or TooManyLocations (from_index index :: location_id option)) (\<lambda>_.
       (case decl_storage v of
          Fixed _ location \<Rightarrow> Ok location
        | Planned _ _ _ _ \<Rightarrow>
            and_then (expect (by_value ! index)) (\<lambda>a.
            and_then (ok_or TooManySegments (from_index (asg_segment a))) (\<lambda>segment.
              Ok (LSegment segment (asg_offset a) (asg_bytes a))))
        | AliasOf _ _ \<Rightarrow>
            Ok (LAlias (alias_root (live_aliases lv ! index)) (alias_offset (live_aliases lv ! index))))))"

definition output_slot_of ::
    "('k, 'm) lowered_program \<Rightarrow> value_id \<Rightarrow> (output_slot, planner_error) outcome" where
  "output_slot_of p v =
     and_then (known_value (prog_values p) None v) (\<lambda>_.
     and_then (ok_or TooManyLocations (from_index (id_index v))) (\<lambda>l.
       Ok \<lparr>slot_value = v, slot_location = l\<rparr>))"

text \<open>
  \<open>plan_memory_with_liveness\<close> after its packing loop: the segments, the reuse edges, the
  locations, the outputs, the report, and the validation of all of them.
\<close>

definition finish_plan ::
    "('k, 'm) lowered_program \<Rightarrow> 'm planner_config \<Rightarrow> liveness \<Rightarrow> 'm packing
      \<Rightarrow> ('m memory_plan, planner_error) outcome" where
  "finish_plan p config lv pk = (case pk of (working, assignments, by_value) \<Rightarrow>
     and_then (traverse finish_segment working) (\<lambda>segments.
     and_then (reuse_edges assignments) (\<lambda>edges.
     and_then (traverse (location_of lv by_value) (enumerate 0 (prog_values p))) (\<lambda>locations.
     and_then (traverse (output_slot_of p) (prog_outputs p)) (\<lambda>outputs.
     and_then (build_report p lv segments (cfg_largest_allocations config)) (\<lambda>report.
       let plan = \<lparr>plan_segments = segments, plan_locations = locations, plan_outputs = outputs,
             plan_reuse_edges = edges, plan_report = report\<rparr> in
       and_then (map_err InvalidMemoryPlan (validate_plan plan)) (\<lambda>_. Ok plan)))))))"

definition plan_memory_with_liveness ::
    "('k, 'm) lowered_program \<Rightarrow> 'm planner_config \<Rightarrow> liveness \<Rightarrow> ('m memory_plan, planner_error) outcome" where
  "plan_memory_with_liveness p config lv =
     and_then (each_outcome (check_space (cfg_memory_spaces config)) (enumerate 0 (cfg_memory_spaces config)))
       (\<lambda>_.
     and_then (allocation_order p lv) (\<lambda>order.
     and_then (fold_outcome (place_value p config lv) ([], [], replicate (length (prog_values p)) None) order)
       (\<lambda>pk. finish_plan p config lv pk)))"

definition plan_memory ::
    "('k, 'm) lowered_program \<Rightarrow> 'm planner_config \<Rightarrow> ('m memory_plan, planner_error) outcome" where
  "plan_memory p config =
     and_then (analyze_liveness p) (\<lambda>lv. plan_memory_with_liveness p config lv)"

section \<open>Address ranges\<close>

definition addrs :: "nat \<times> nat \<Rightarrow> nat set" where
  "addrs r = {fst r..<snd r}"

definition cover :: "(nat \<times> nat) list \<Rightarrow> nat set" where
  "cover rs = (\<Union>r \<in> set rs. addrs r)"

text \<open>A free list in the form \<open>coalesce\<close> leaves it: no empty range, and gaps between them.\<close>

definition separated :: "(nat \<times> nat) list \<Rightarrow> bool" where
  "separated rs \<longleftrightarrow> (\<forall>r \<in> set rs. fst r < snd r) \<and> sorted_wrt (\<lambda>a b. snd a < fst b) rs"

lemma cover_simps [simp]:
  "cover [] = {}" "cover (r # rs) = addrs r \<union> cover rs" "cover (rs @ ss) = cover rs \<union> cover ss"
  by (auto simp: cover_def)

lemma cover_set: "set rs = set ss \<Longrightarrow> cover rs = cover ss"
  by (simp add: cover_def)

lemma cover_rev [simp]: "cover (rev rs) = cover rs"
  by (rule cover_set) simp

lemma separated_snoc:
  "separated (rs @ [r]) \<longleftrightarrow> separated rs \<and> fst r < snd r \<and> (\<forall>a \<in> set rs. snd a < fst r)"
  by (auto simp: separated_def sorted_wrt_append)

lemma merge_ranges_spec:
  assumes "sorted (map fst rs)" and "\<forall>r \<in> set rs. fst r < snd r" and "separated (rev merged)"
    and "\<forall>m \<in> set merged. \<forall>r \<in> set rs. fst m \<le> fst r"
  shows "separated (merge_ranges merged rs) \<and> cover (merge_ranges merged rs) = cover merged \<union> cover rs"
  using assms
proof (induction rs arbitrary: merged)
  case Nil
  then show ?case by simp
next
  case (Cons r rs)
  show ?case
  proof (cases merged)
    case Nil
    have "separated (rev [r])" using Cons.prems by (simp add: separated_def)
    with Cons.IH [of "[r]"] Cons.prems Nil show ?thesis by auto
  next
    case (Cons prev older)
    have sep: "separated (rev older)" "fst prev < snd prev" "\<forall>a \<in> set older. snd a < fst prev"
      using Cons.prems(3) Cons by (auto simp: separated_snoc)
    have le: "fst prev \<le> fst r" using Cons.prems(4) Cons by simp
    show ?thesis
    proof (cases "fst r \<le> snd prev")
      case True
      let ?m = "(fst prev, max (snd prev) (snd r))"
      have "separated (rev (?m # older))" using sep by (auto simp: separated_snoc)
      moreover have "\<forall>m \<in> set (?m # older). \<forall>q \<in> set rs. fst m \<le> fst q"
        using Cons.prems(4) Cons by auto
      ultimately have "separated (merge_ranges (?m # older) rs) \<and>
          cover (merge_ranges (?m # older) rs) = cover (?m # older) \<union> cover rs"
        using Cons.IH [of "?m # older"] Cons.prems by simp
      moreover have "addrs ?m = addrs prev \<union> addrs r" using True le by (auto simp: addrs_def)
      ultimately show ?thesis using Cons True by auto
    next
      case False
      have "separated (rev (r # merged))"
        using Cons Cons.prems(2) sep False by (fastforce simp: separated_def sorted_wrt_append)
      moreover have "\<forall>m \<in> set (r # merged). \<forall>q \<in> set rs. fst m \<le> fst q"
        using Cons.prems(1,4) by auto
      ultimately have "separated (merge_ranges (r # merged) rs) \<and>
          cover (merge_ranges (r # merged) rs) = cover (r # merged) \<union> cover rs"
        using Cons.IH [of "r # merged"] Cons.prems by simp
      with Cons False show ?thesis by auto
    qed
  qed
qed

lemma coalesce_spec:
  assumes "\<forall>r \<in> set rs. fst r < snd r"
  shows "separated (coalesce rs) \<and> cover (coalesce rs) = cover rs"
proof -
  let ?s = "sort_key (\<lambda>r. (fst r, snd r)) rs"
  have "sorted (map fst ?s)"
  proof -
    have "sorted_wrt (\<lambda>a b. (fst a, snd a) \<le> (fst b, snd b)) ?s"
      using sorted_sort_key [of "\<lambda>r. (fst r, snd r)" rs] unfolding sorted_map by simp
    then have "sorted_wrt (\<lambda>a b. fst a \<le> fst b) ?s"
      by (rule sorted_wrt_mono_rel [rotated]) auto
    then show ?thesis by (simp add: sorted_map)
  qed
  moreover have "cover ?s = cover rs" by (rule cover_set) simp
  ultimately show ?thesis
    using merge_ranges_spec [of ?s "[]"] assms by (simp add: coalesce_def separated_def)
qed

lemma separated_disjoint:
  assumes "separated rs" and "i < length rs"
  shows "cover (remove_nth i rs) = cover rs - addrs (rs ! i)"
    and "addrs (rs ! i) \<subseteq> cover rs"
proof -
  show "addrs (rs ! i) \<subseteq> cover rs" using nth_mem [OF assms(2)] by (auto simp: cover_def)
  have split: "rs = take i rs @ rs ! i # drop (Suc i) rs" by (rule id_take_nth_drop [OF assms(2)])
  let ?a = "take i rs" and ?b = "drop (Suc i) rs" and ?r = "rs ! i"
  have sep: "separated (?a @ ?r # ?b)" using assms(1) split by simp
  have "addrs x \<inter> addrs ?r = {}" if "x \<in> set (?a @ ?b)" for x
    using that sep by (fastforce simp: separated_def sorted_wrt_append addrs_def)
  then have "cover (?a @ ?b) \<inter> addrs ?r = {}" by (auto simp: cover_def)
  moreover have "cover rs = cover (?a @ ?b) \<union> addrs ?r" by (subst split) auto
  ultimately show "cover (remove_nth i rs) = cover rs - addrs ?r" by (auto simp: remove_nth_def)
qed

section \<open>Segments under construction\<close>

lemma sorted_wrt_distinct_pair:
  assumes "sorted_wrt P xs" and "\<And>x y. P x y \<Longrightarrow> P y x" and "a \<in> set xs" and "b \<in> set xs" and "a \<noteq> b"
  shows "P a b"
  using assms by (induction xs) auto

definition act_addrs :: "active_allocation \<Rightarrow> nat set" where
  "act_addrs a = {act_offset a..<act_offset a + act_bytes a}"

definition segment_inv :: "'m working_segment \<Rightarrow> bool" where
  "segment_inv s \<longleftrightarrow>
     separated (ws_free s) \<and> cover (ws_free s) \<subseteq> {..<ws_used_end s} \<and>
     (\<forall>a \<in> set (ws_active s). act_offset a + act_bytes a \<le> ws_used_end s \<and>
        act_addrs a \<inter> cover (ws_free s) = {}) \<and>
     sorted_wrt (\<lambda>a b. act_addrs a \<inter> act_addrs b = {}) (ws_active s) \<and>
     ws_used_end s \<le> usize_max"

definition live_addrs :: "'m working_segment \<Rightarrow> nat set" where
  "live_addrs s = (\<Union>a \<in> set (ws_active s). act_addrs a)"

lemma retire_inv:
  assumes "segment_inv s"
  shows "segment_inv (retire t s) \<and> ws_used_end (retire t s) = ws_used_end s \<and>
    set (ws_active (retire t s)) = {a \<in> set (ws_active s). t < act_end a}"
proof -
  define freed where "freed = map (\<lambda>a. (act_offset a, wrapping_add (act_offset a) (act_bytes a)))
     (filter (\<lambda>a. act_end a \<le> t \<and> act_bytes a \<noteq> 0) (ws_active s))"
  have no_wrap: "wrapping_add (act_offset a) (act_bytes a) = act_offset a + act_bytes a"
    if "a \<in> set (ws_active s)" for a
    using that assms by (intro wrapping_add_exact) (auto simp: segment_inv_def)
  have "\<forall>r \<in> set (ws_free s @ freed). fst r < snd r"
    using assms no_wrap by (auto simp: freed_def segment_inv_def separated_def)
  note spec = coalesce_spec [OF this]
  have free: "cover freed = (\<Union>a \<in> {a \<in> set (ws_active s). act_end a \<le> t}. act_addrs a)"
    using no_wrap by (fastforce simp: freed_def cover_def addrs_def act_addrs_def)
  have shape: "ws_active (retire t s) = filter (\<lambda>a. \<not> act_end a \<le> t) (ws_active s)"
    "ws_free (retire t s) = coalesce (ws_free s @ freed)" "ws_used_end (retire t s) = ws_used_end s"
    by (simp_all add: retire_def freed_def Let_def)
  have dist: "act_addrs a \<inter> act_addrs b = {}"
    if "a \<in> set (ws_active s)" "b \<in> set (ws_active s)" "act_end a \<le> t" "t < act_end b" for a b
    by (rule sorted_wrt_distinct_pair [where P = "\<lambda>a b. act_addrs a \<inter> act_addrs b = {}"])
      (use that assms in \<open>auto simp: segment_inv_def\<close>)
  have "cover freed \<subseteq> {..<ws_used_end s}"
    unfolding free using assms by (fastforce simp: segment_inv_def act_addrs_def)
  moreover have "act_addrs b \<inter> cover freed = {}" if "b \<in> set (ws_active s)" "t < act_end b" for b
    unfolding free using dist that by fastforce
  moreover have "sorted_wrt (\<lambda>a b. act_addrs a \<inter> act_addrs b = {}) (filter (\<lambda>a. \<not> act_end a \<le> t) (ws_active s))"
    using assms by (simp add: segment_inv_def sorted_wrt_filter)
  ultimately show ?thesis
    using spec assms unfolding segment_inv_def shape by (auto simp: not_le)
qed


lemma consume_inv:
  assumes "segment_inv s" and i: "i < length (ws_free s)" and low: "fst (ws_free s ! i) \<le> offset"
    and high: "offset + bytes \<le> snd (ws_free s ! i)" and "offset + bytes \<le> usize_max"
  shows "\<exists>s'. consume_free_range s i offset bytes = (Ok s' :: (_, 'e) outcome) \<and>
    s' = s\<lparr>ws_free := ws_free s'\<rparr> \<and> segment_inv s' \<and>
    cover (ws_free s') = cover (ws_free s) - {offset..<offset + bytes} \<and>
    {offset..<offset + bytes} \<subseteq> cover (ws_free s)"
proof -
  let ?r = "ws_free s ! i"
  define pieces where "pieces = (if fst ?r < offset then [(fst ?r, offset)] else []) @
      (if offset + bytes < snd ?r then [(offset + bytes, snd ?r)] else [])"
  define s' where "s' = s\<lparr>ws_free := coalesce (remove_nth i (ws_free s) @ pieces)\<rparr>"
  have sep: "separated (ws_free s)" using assms(1) by (simp add: segment_inv_def)
  have run: "consume_free_range s i offset bytes = (Ok s' :: (_, 'e) outcome)"
    using i assms(5) by (simp add: consume_free_range_def nth_opt_def expect_def Let_def s'_def pieces_def)
  have "\<forall>r \<in> set (remove_nth i (ws_free s) @ pieces). fst r < snd r"
    using sep set_remove_nth [of i "ws_free s"] by (auto simp: separated_def pieces_def)
  note spec = coalesce_spec [OF this]
  have range: "{offset..<offset + bytes} \<subseteq> addrs ?r" using low high by (auto simp: addrs_def)
  have "cover pieces = addrs ?r - {offset..<offset + bytes}"
    using low high by (auto simp: pieces_def addrs_def)
  then have cov: "cover (ws_free s') = cover (ws_free s) - {offset..<offset + bytes}"
    using spec separated_disjoint [OF sep i] range by (auto simp: s'_def)
  have "segment_inv s'"
    using assms(1) spec cov by (auto simp: segment_inv_def s'_def)
  moreover have "s' = s\<lparr>ws_free := ws_free s'\<rparr>" by (simp add: s'_def)
  ultimately show ?thesis using run cov range separated_disjoint(2) [OF sep i] by blast
qed

lemma grow_inv:
  assumes "segment_inv s" and "ws_used_end s \<le> offset" and "offset + decl_bytes v \<le> usize_max"
  shows "\<exists>s'. grow_tail s offset v = Ok s' \<and>
    s' = s\<lparr>ws_free := ws_free s', ws_used_end := offset + decl_bytes v\<rparr> \<and> segment_inv s' \<and>
    cover (ws_free s') = cover (ws_free s) \<union> {ws_used_end s..<offset}"
proof -
  define free' where "free' = (if ws_used_end s < offset
    then coalesce (ws_free s @ [(ws_used_end s, offset)]) else ws_free s)"
  define s' where "s' = s\<lparr>ws_free := free', ws_used_end := offset + decl_bytes v\<rparr>"
  have run: "grow_tail s offset v = Ok s'"
    using assms(3) by (cases s) (simp add: grow_tail_def checked_add_def ok_or_def Let_def s'_def free'_def)
  have sep: "separated (ws_free s)" using assms(1) by (simp add: segment_inv_def)
  have free': "separated free' \<and> cover free' = cover (ws_free s) \<union> {ws_used_end s..<offset}"
  proof (cases "ws_used_end s < offset")
    case True
    then have "\<forall>r \<in> set (ws_free s @ [(ws_used_end s, offset)]). fst r < snd r"
      using sep by (auto simp: separated_def)
    from coalesce_spec [OF this] True show ?thesis by (simp add: free'_def addrs_def)
  qed (use sep in \<open>simp add: free'_def\<close>)
  have "segment_inv s'"
    using assms free' by (fastforce simp: segment_inv_def s'_def act_addrs_def)
  with run free' show ?thesis by (auto simp: s'_def)
qed

text \<open>
  Putting an allocation on addresses that are neither free nor live, below the end of the
  segment, keeps the segment well formed.
\<close>

lemma activate_inv:
  assumes "segment_inv s" and "{offset..<offset + bytes} \<inter> cover (ws_free s) = {}"
    and "{offset..<offset + bytes} \<inter> live_addrs s = {}" and "offset + bytes \<le> ws_used_end s"
  shows "segment_inv (s\<lparr>ws_alignment := al, ws_active := ws_active s @
    [\<lparr>act_end = e, act_offset = offset, act_bytes = bytes\<rparr>]\<rparr>)"
proof -
  have "act_addrs \<lparr>act_end = e, act_offset = offset, act_bytes = bytes\<rparr> = {offset..<offset + bytes}"
    by (simp add: act_addrs_def)
  then show ?thesis
    using assms unfolding segment_inv_def live_addrs_def by (simp add: sorted_wrt_append) blast
qed

section \<open>Choice of a slot\<close>

text \<open>The errors that placement itself can return.\<close>

fun placement_error :: "planner_error \<Rightarrow> bool" where
  "placement_error (PlanningByteSizeOverflow _) = True"
| "placement_error (MissingMemorySpaceConfig _) = True"
| "placement_error (ValueTooLarge _ _ _ _) = True"
| "placement_error TooManySegments = True"
| "placement_error _ = False"

lemma round_up_spec:
  assumes "0 < multiple"
  shows "case round_up value multiple i of
      Ok c \<Rightarrow> value \<le> c \<and> multiple dvd c \<and> c < value + multiple \<and> (value \<le> usize_max \<longrightarrow> c \<le> usize_max)
    | Err e \<Rightarrow> e = PlanningByteSizeOverflow i
    | Panic \<Rightarrow> False"
proof (cases "value mod multiple = 0")
  case True
  with assms show ?thesis by (simp add: round_up_def dvd_eq_mod_eq_0)
next
  case False
  have "(value + (multiple - value mod multiple)) mod multiple = 0"
    by (rule mod_add_gap [OF assms False])
  moreover have "value mod multiple < multiple" using assms by simp
  moreover have "value mod multiple \<le> value" by simp
  ultimately show ?thesis
    using False by (auto simp: round_up_def Let_def ok_or_def checked_add_def dvd_eq_mod_eq_0)
qed

lemma round_up_Ok_any: "round_up v m i = Ok c \<Longrightarrow> round_up v m j = Ok c"
  by (auto simp: round_up_def Let_def outcome_iff split: if_splits)

definition segment_fits :: "'m working_segment \<Rightarrow> bool" where
  "segment_fits s \<longleftrightarrow> 0 < ws_granularity s \<and>
     (\<exists>c. round_up (ws_used_end s) (ws_granularity s) None = Ok c \<and> c \<le> ws_max_bytes s)"

text \<open>What is promised of every candidate the two searches collect.\<close>

definition free_choice_ok ::
    "'m value_decl \<Rightarrow> nat \<Rightarrow> 'm \<Rightarrow> segment_ownership \<Rightarrow> 'm working_segment list \<Rightarrow> free_choice option \<Rightarrow> bool" where
  "free_choice_ok v al sp ow working best \<longleftrightarrow> (case best of None \<Rightarrow> True
     | Some (waste, k, offset, i) \<Rightarrow>
         k < length working \<and> compatible sp ow (working ! k) \<and> i < length (ws_free (working ! k)) \<and>
         fst (ws_free (working ! k) ! i) \<le> offset \<and> al dvd offset \<and>
         offset + decl_bytes v \<le> snd (ws_free (working ! k) ! i) \<and>
         offset + decl_bytes v \<le> usize_max)"

definition tail_choice_ok ::
    "'m value_decl \<Rightarrow> nat \<Rightarrow> 'm \<Rightarrow> segment_ownership \<Rightarrow> 'm working_segment list \<Rightarrow> tail_choice option \<Rightarrow> bool" where
  "tail_choice_ok v al sp ow working best \<longleftrightarrow> (case best of None \<Rightarrow> True
     | Some (growth, k, offset) \<Rightarrow>
         k < length working \<and> compatible sp ow (working ! k) \<and>
         ws_used_end (working ! k) \<le> offset \<and> al dvd offset \<and> offset + decl_bytes v \<le> usize_max \<and>
         (\<exists>c. round_up (offset + decl_bytes v) (ws_granularity (working ! k)) None = Ok c \<and>
            c \<le> ws_max_bytes (working ! k)))"

lemma better_cases: "better best c = best \<or> better best c = Some c"
  by (auto simp: better_def split: option.splits)

lemma free_candidate_spec:
  assumes "0 < al"
  shows "case free_candidate v al sp ow working of
      Ok best \<Rightarrow> free_choice_ok v al sp ow working best
    | Err e \<Rightarrow> placement_error e
    | Panic \<Rightarrow> False"
  unfolding free_candidate_def
proof (rule fold_outcome_case)
  show "free_choice_ok v al sp ow working None" by (simp add: free_choice_ok_def)
next
  fix best ks
  assume mem: "ks \<in> set (enumerate 0 working)" and best: "free_choice_ok v al sp ow working best"
  obtain k s where ks: "ks = (k, s)" by (cases ks)
  with mem have k: "k < length working" "working ! k = s" by auto
  show "case try_free_segment v al sp ow best ks of Ok best' \<Rightarrow> free_choice_ok v al sp ow working best'
    | Err e \<Rightarrow> placement_error e | Panic \<Rightarrow> False"
  proof (cases "compatible sp ow s")
    case False
    with best ks show ?thesis by (simp add: try_free_segment_def)
  next
    case True
    have "case fold_outcome (try_free_range v al k) best (enumerate 0 (ws_free s)) of
        Ok best' \<Rightarrow> free_choice_ok v al sp ow working best' | Err e \<Rightarrow> placement_error e | Panic \<Rightarrow> False"
    proof (rule fold_outcome_case [where I = "free_choice_ok v al sp ow working"])
      fix b ir
      assume ir: "ir \<in> set (enumerate 0 (ws_free s))" and b: "free_choice_ok v al sp ow working b"
      obtain i r where pair: "ir = (i, r)" by (cases ir)
      with ir have r: "ir = (i, r)" "i < length (ws_free s)" "ws_free s ! i = r" by simp_all
      note up = round_up_spec [OF assms, of "fst r" "Some (decl_id v)"]
      show "case try_free_range v al k b ir of Ok b' \<Rightarrow> free_choice_ok v al sp ow working b'
        | Err e \<Rightarrow> placement_error e | Panic \<Rightarrow> False"
      proof (cases "align_up (fst r) al (decl_id v)")
        case (Ok offset)
        with up have "fst r \<le> offset" "al dvd offset" by (auto simp: align_up_def)
        then have "free_choice_ok v al sp ow working
            (better b ((snd r - fst r) - decl_bytes v, k, offset, i))"
          if "offset + decl_bytes v \<le> usize_max" "offset + decl_bytes v \<le> snd r"
          using better_cases [of b "((snd r - fst r) - decl_bytes v, k, offset, i)"] b k r True that
          by (auto simp: free_choice_ok_def)
        with Ok b r show ?thesis
          by (auto simp: try_free_range_def checked_add_def ok_or_def)
      qed (use up r in \<open>auto simp: try_free_range_def align_up_def\<close>)
    qed (rule best)
    with True ks show ?thesis by (simp add: try_free_segment_def)
  qed
qed

lemma tail_candidate_spec:
  assumes "0 < al" and fits: "\<forall>s \<in> set working. segment_fits s"
  shows "case tail_candidate v al sp ow working of
      Ok best \<Rightarrow> tail_choice_ok v al sp ow working best
    | Err e \<Rightarrow> placement_error e
    | Panic \<Rightarrow> False"
  unfolding tail_candidate_def
proof (rule fold_outcome_case)
  show "tail_choice_ok v al sp ow working None" by (simp add: tail_choice_ok_def)
next
  fix best ks
  assume mem: "ks \<in> set (enumerate 0 working)" and best: "tail_choice_ok v al sp ow working best"
  obtain k s where ks: "ks = (k, s)" by (cases ks)
  with mem have k: "k < length working" "working ! k = s" by auto
  with fits have s: "0 < ws_granularity s" "\<exists>c. round_up (ws_used_end s) (ws_granularity s) None = Ok c"
    by (auto simp: segment_fits_def dest: nth_mem)
  show "case try_tail v al sp ow best ks of Ok best' \<Rightarrow> tail_choice_ok v al sp ow working best'
    | Err e \<Rightarrow> placement_error e | Panic \<Rightarrow> False"
  proof (cases "compatible sp ow s")
    case False
    with best ks show ?thesis by (simp add: try_tail_def)
  next
    case True
    note up = round_up_spec [OF assms(1), of "ws_used_end s" "Some (decl_id v)"]
    from s(2) obtain old where old: "round_up (ws_used_end s) (ws_granularity s) (Some (decl_id v)) = Ok old"
      by (auto dest: round_up_Ok_any)
    show ?thesis
    proof (cases "align_up (ws_used_end s) al (decl_id v)")
      case (Ok offset)
      with up have off: "ws_used_end s \<le> offset" "al dvd offset" by (auto simp: align_up_def)
      note cap = round_up_spec [OF s(1), of "offset + decl_bytes v" "Some (decl_id v)"]
      have good: "tail_choice_ok v al sp ow working (better best (c - old, k, offset))"
        if "offset + decl_bytes v \<le> usize_max" "c \<le> ws_max_bytes s"
          "round_up (offset + decl_bytes v) (ws_granularity s) (Some (decl_id v)) = Ok c" for c
        using better_cases [of best "(c - old, k, offset)"] best k True off that
          round_up_Ok_any [OF that(3), of None]
        by (auto simp: tail_choice_ok_def)
      show ?thesis
      proof (cases "round_up (offset + decl_bytes v) (ws_granularity s) (Some (decl_id v))")
        case (Ok c)
        with \<open>align_up (ws_used_end s) al (decl_id v) = Ok offset\<close> True ks best old good [of c]
        show ?thesis by (auto simp: try_tail_def checked_add_def ok_or_def)
      next
        case (Err e)
        with \<open>align_up (ws_used_end s) al (decl_id v) = Ok offset\<close> True ks cap
        show ?thesis by (auto simp: try_tail_def checked_add_def ok_or_def)
      qed (use cap in simp)
    qed (use up True ks in \<open>auto simp: try_tail_def align_up_def\<close>)
  qed
qed

definition slot_chosen ::
    "'m memory_space_config \<Rightarrow> 'm value_decl \<Rightarrow> nat \<Rightarrow> 'm \<Rightarrow> segment_ownership
      \<Rightarrow> 'm working_segment list \<Rightarrow> 'm working_segment list \<times> nat \<times> nat \<Rightarrow> bool" where
  "slot_chosen config v al sp ow working res \<longleftrightarrow> (case res of (working', k, offset) \<Rightarrow>
     k < length working' \<and> al dvd offset \<and>
     compatible sp ow (working' ! k) \<and> segment_inv (working' ! k) \<and> segment_fits (working' ! k) \<and>
     offset + decl_bytes v \<le> ws_used_end (working' ! k) \<and>
     {offset..<offset + decl_bytes v} \<inter> cover (ws_free (working' ! k)) = {} \<and>
     {offset..<offset + decl_bytes v} \<inter> live_addrs (working' ! k) = {} \<and>
     (if k < length working
      then length working' = length working \<and> (\<forall>j < length working. j \<noteq> k \<longrightarrow> working' ! j = working ! j) \<and>
        ws_active (working' ! k) = ws_active (working ! k) \<and>
        ws_alignment (working' ! k) = ws_alignment (working ! k) \<and>
        ws_used_end (working ! k) \<le> ws_used_end (working' ! k) \<and>
        compatible (ws_space (working ! k)) (ws_ownership (working ! k)) (working' ! k)
      else k = length working \<and> (\<exists>s. working' = working @ [s] \<and> ws_active s = [] \<and>
        ws_alignment s = max (cfg_segment_alignment config) al)))"

lemma free_range_below:
  assumes "segment_inv s" and "i < length (ws_free s)"
  shows "snd (ws_free s ! i) \<le> ws_used_end s"
proof -
  have "fst (ws_free s ! i) < snd (ws_free s ! i)"
    using assms by (simp add: segment_inv_def separated_def)
  then have "snd (ws_free s ! i) - 1 \<in> addrs (ws_free s ! i)" by (auto simp: addrs_def)
  moreover have "addrs (ws_free s ! i) \<subseteq> {..<ws_used_end s}"
    using assms separated_disjoint(2) by (fastforce simp: segment_inv_def)
  ultimately show ?thesis by auto
qed

lemma choose_slot_spec:
  assumes al: "0 < al" and inv: "\<forall>s \<in> set working. segment_inv s \<and> segment_fits s"
    and bytes: "decl_bytes v \<le> usize_max" and gran: "0 < cfg_segment_granularity config"
    and room: "round_up (decl_bytes v) (cfg_segment_granularity config) i = Ok rounded"
      "rounded \<le> cfg_max_segment_bytes config"
  shows "case choose_slot config v al sp ow working of
      Ok res \<Rightarrow> slot_chosen config v al sp ow working res
    | Err e \<Rightarrow> placement_error e
    | Panic \<Rightarrow> False"
proof -
  note free = free_candidate_spec [OF al, of v sp ow working]
  show ?thesis
  proof (cases "free_candidate v al sp ow working")
    case (Ok best)
    show ?thesis
    proof (cases best)
      case (Some c)
      obtain waste k offset i where c: "c = (waste, k, offset, i)" by (cases c)
      let ?s = "working ! k"
      from free Ok Some c have k: "k < length working" "compatible sp ow ?s" "i < length (ws_free ?s)"
        "fst (ws_free ?s ! i) \<le> offset" "al dvd offset" "offset + decl_bytes v \<le> snd (ws_free ?s ! i)"
        "offset + decl_bytes v \<le> usize_max"
        by (auto simp: free_choice_ok_def)
      have s: "segment_inv ?s" "segment_fits ?s" using inv k(1) by auto
      from consume_inv [OF s(1) k(3,4,6,7), where 'e = planner_error] obtain s' where
        run: "consume_free_range ?s i offset (decl_bytes v) = (Ok s' :: (_, planner_error) outcome)"
        and eq: "s' = ?s\<lparr>ws_free := ws_free s'\<rparr>" and inv': "segment_inv s'"
        and cov: "cover (ws_free s') = cover (ws_free ?s) - {offset..<offset + decl_bytes v}"
        and sub: "{offset..<offset + decl_bytes v} \<subseteq> cover (ws_free ?s)" by blast
      have fields: "ws_active s' = ws_active ?s" "ws_used_end s' = ws_used_end ?s"
        "ws_alignment s' = ws_alignment ?s" "ws_space s' = ws_space ?s" "ws_ownership s' = ws_ownership ?s"
        "ws_granularity s' = ws_granularity ?s" "ws_max_bytes s' = ws_max_bytes ?s"
        by (subst eq, simp)+
      have "offset + decl_bytes v \<le> ws_used_end s'"
        using free_range_below [OF s(1) k(3)] k(6) fields(2) by simp
      moreover have "{offset..<offset + decl_bytes v} \<inter> live_addrs s' = {}"
        using s(1) sub fields(1) by (fastforce simp: segment_inv_def live_addrs_def)
      moreover have "segment_fits s'" using s(2) fields by (simp add: segment_fits_def)
      ultimately have "slot_chosen config v al sp ow working (working[k := s'], k, offset)"
        using k inv' cov fields by (auto simp: slot_chosen_def compatible_def)
      with Ok Some c run show ?thesis by (simp add: choose_slot_def)
    next
      case None
      from inv have fits: "\<forall>s \<in> set working. segment_fits s" by blast
      note tail = tail_candidate_spec [OF al fits, of v sp ow]
      show ?thesis
      proof (cases "tail_candidate v al sp ow working")
        case tail_ok: (Ok best')
        show ?thesis
        proof (cases best')
          case (Some c)
          obtain growth k offset where c: "c = (growth, k, offset)" by (cases c)
          let ?s = "working ! k"
          from tail tail_ok Some c have k: "k < length working" "compatible sp ow ?s"
            "ws_used_end ?s \<le> offset" "al dvd offset" "offset + decl_bytes v \<le> usize_max"
            "\<exists>c. round_up (offset + decl_bytes v) (ws_granularity ?s) None = Ok c \<and> c \<le> ws_max_bytes ?s"
            by (auto simp: tail_choice_ok_def)
          have s: "segment_inv ?s" "segment_fits ?s" using inv k(1) by auto
          from grow_inv [OF s(1) k(3,5)] obtain s' where run: "grow_tail ?s offset v = Ok s'"
            and eq: "s' = ?s\<lparr>ws_free := ws_free s', ws_used_end := offset + decl_bytes v\<rparr>"
            and inv': "segment_inv s'" and cov: "cover (ws_free s') = cover (ws_free ?s) \<union> {ws_used_end ?s..<offset}"
            by blast
          have fields: "ws_active s' = ws_active ?s" "ws_used_end s' = offset + decl_bytes v"
            "ws_alignment s' = ws_alignment ?s" "ws_space s' = ws_space ?s" "ws_ownership s' = ws_ownership ?s"
            "ws_granularity s' = ws_granularity ?s" "ws_max_bytes s' = ws_max_bytes ?s"
            by (subst eq, simp)+
          have "cover (ws_free ?s) \<subseteq> {..<ws_used_end ?s}" "live_addrs ?s \<subseteq> {..<ws_used_end ?s}"
            using s(1) by (fastforce simp: segment_inv_def live_addrs_def act_addrs_def)+
          then have "{offset..<offset + decl_bytes v} \<inter> cover (ws_free s') = {}"
            "{offset..<offset + decl_bytes v} \<inter> live_addrs s' = {}"
            using k(3) cov fields(1) by (fastforce simp: live_addrs_def)+
          moreover have "segment_fits s'" using s(2) k(6) fields by (simp add: segment_fits_def)
          ultimately have "slot_chosen config v al sp ow working (working[k := s'], k, offset)"
            using k inv' fields by (auto simp: slot_chosen_def compatible_def)
          with Ok None tail_ok Some c run show ?thesis by (simp add: choose_slot_def)
        next
          case no_tail: None
          let ?s = "\<lparr>ws_space = sp, ws_ownership = ow, ws_max_bytes = cfg_max_segment_bytes config,
            ws_granularity = cfg_segment_granularity config,
            ws_alignment = max (cfg_segment_alignment config) al,
            ws_used_end = decl_bytes v, ws_free = [], ws_active = []\<rparr>"
          have "segment_fits ?s"
            using gran room by (auto simp: segment_fits_def dest: round_up_Ok_any)
          then have "slot_chosen config v al sp ow working (working @ [?s], length working, 0)"
            using bytes by (simp add: slot_chosen_def compatible_def segment_inv_def separated_def live_addrs_def)
          with Ok None tail_ok no_tail show ?thesis
            by (auto simp: choose_slot_def ok_or_def split: option.splits)
        qed
      qed (use tail Ok None in \<open>auto simp: choose_slot_def\<close>)
    qed
  qed (use free in \<open>auto simp: choose_slot_def\<close>)
qed

section \<open>Placement of all values\<close>

definition asg_addrs :: "assignment \<Rightarrow> nat set" where
  "asg_addrs a = {asg_offset a..<asg_offset a + asg_bytes a}"

definition asg_start :: "assignment \<Rightarrow> nat" where
  "asg_start a = id_index (iv_start (asg_interval a))"

definition asg_end :: "assignment \<Rightarrow> nat" where
  "asg_end a = id_index (iv_end (asg_interval a))"

text \<open>\<open>a\<close> was placed before \<open>b\<close>: they share no address, or \<open>a\<close> is dead when \<open>b\<close> starts.\<close>

definition apart :: "assignment \<Rightarrow> assignment \<Rightarrow> bool" where
  "apart a b \<longleftrightarrow> (asg_segment a = asg_segment b \<longrightarrow>
     asg_addrs a \<inter> asg_addrs b = {} \<or> asg_end a \<le> asg_start b)"

text \<open>The assignment \<open>a\<close> of value \<open>i\<close>, in a segment that suits the value.\<close>

definition assigned ::
    "('k, 'm) lowered_program \<Rightarrow> liveness \<Rightarrow> 'm working_segment list \<Rightarrow> nat \<Rightarrow> assignment \<Rightarrow> bool" where
  "assigned p lv working i a \<longleftrightarrow> (let v = prog_values p ! i in
     asg_value a = decl_id v \<and> asg_bytes a = decl_bytes v \<and>
     live_intervals lv ! i = Some (asg_interval a) \<and>
     asg_segment a < length working \<and>
     (case decl_storage v of
        Planned _ al sp ow \<Rightarrow> al dvd asg_offset a \<and> al dvd ws_alignment (working ! asg_segment a) \<and>
          compatible sp ow (working ! asg_segment a)
      | _ \<Rightarrow> False) \<and>
     asg_offset a + asg_bytes a \<le> ws_used_end (working ! asg_segment a))"

definition still_active :: "nat \<Rightarrow> 'm working_segment list \<Rightarrow> assignment \<Rightarrow> bool" where
  "still_active t working a \<longleftrightarrow> asg_start a \<le> t \<and>
     (t < asg_end a \<longrightarrow> \<lparr>act_end = asg_end a, act_offset = asg_offset a, act_bytes = asg_bytes a\<rparr>
        \<in> set (ws_active (working ! asg_segment a)))"

definition packing_inv ::
    "('k, 'm) lowered_program \<Rightarrow> liveness \<Rightarrow> nat list \<Rightarrow> nat \<Rightarrow> 'm packing \<Rightarrow> bool" where
  "packing_inv p lv placed t pk \<longleftrightarrow> (case pk of (working, assignments, by_value) \<Rightarrow>
     (\<forall>s \<in> set working. segment_inv s \<and> segment_fits s \<and> is_power_of_two (ws_alignment s)) \<and>
     length by_value = length (prog_values p) \<and>
     map Some assignments = map (\<lambda>i. by_value ! i) placed \<and>
     (\<forall>i \<in> set placed. i < length (prog_values p)) \<and>
     (\<forall>j < length placed. assigned p lv working (placed ! j) (assignments ! j)) \<and>
     (\<forall>a \<in> set assignments. still_active t working a) \<and>
     sorted_wrt apart assignments)"

lemma act_addrs_simp [simp]:
  "act_addrs \<lparr>act_end = e, act_offset = off, act_bytes = b\<rparr> = {off..<off + b}"
  by (simp add: act_addrs_def)

text \<open>Segments only grow: what was said of a segment before stays true.\<close>

definition grows :: "'m working_segment list \<Rightarrow> 'm working_segment list \<Rightarrow> bool" where
  "grows working working' \<longleftrightarrow> length working \<le> length working' \<and>
     (\<forall>k < length working. ws_used_end (working ! k) \<le> ws_used_end (working' ! k) \<and>
        ws_alignment (working ! k) dvd ws_alignment (working' ! k) \<and>
        compatible (ws_space (working ! k)) (ws_ownership (working ! k)) (working' ! k))"

lemma assigned_grows:
  assumes "assigned p lv working i a" and "grows working working'"
  shows "assigned p lv working' i a"
proof -
  let ?k = "asg_segment a"
  have k: "?k < length working" using assms(1) by (simp add: assigned_def Let_def)
  with assms(2) have g: "ws_used_end (working ! ?k) \<le> ws_used_end (working' ! ?k)"
    "ws_alignment (working ! ?k) dvd ws_alignment (working' ! ?k)" "?k < length working'"
    "compatible (ws_space (working ! ?k)) (ws_ownership (working ! ?k)) (working' ! ?k)"
    by (auto simp: grows_def)
  with assms(1) show ?thesis
    by (auto simp: assigned_def Let_def compatible_def split: value_storage.splits intro: dvd_trans)
qed

lemma retired_inv:
  fixes working :: "'m working_segment list"
  assumes "\<forall>s \<in> set working. segment_inv s \<and> segment_fits s \<and> is_power_of_two (ws_alignment s)"
    and "\<forall>a \<in> set assignments. still_active t working a \<and> asg_segment a < length working" and "t \<le> t'"
  shows "\<forall>s \<in> set (map (retire t') working). segment_inv s \<and> segment_fits s \<and> is_power_of_two (ws_alignment s)"
    and "\<forall>a \<in> set assignments. still_active t' (map (retire t') working) a"
    and "grows working (map (retire t') working)"
    and "\<forall>k < length working. \<forall>a \<in> set (ws_active (map (retire t') working ! k)). t' < act_end a"
proof -
  have same: "ws_space (retire t' s) = ws_space s" "ws_ownership (retire t' s) = ws_ownership s"
    "ws_alignment (retire t' s) = ws_alignment s" "ws_granularity (retire t' s) = ws_granularity s"
    "ws_max_bytes (retire t' s) = ws_max_bytes s" "ws_used_end (retire t' s) = ws_used_end s"
    for s :: "'m working_segment"
    by (simp_all add: retire_def Let_def)
  show "\<forall>s \<in> set (map (retire t') working). segment_inv s \<and> segment_fits s \<and> is_power_of_two (ws_alignment s)"
    using assms(1) retire_inv by (auto simp: same segment_fits_def)
  show "grows working (map (retire t') working)"
    by (auto simp: grows_def same compatible_def)
  have act: "set (ws_active (map (retire t') working ! k)) =
      {a \<in> set (ws_active (working ! k)). t' < act_end a}" if "k < length working" for k
    using that assms(1) retire_inv [of "working ! k" t'] by simp
  then show "\<forall>k < length working. \<forall>a \<in> set (ws_active (map (retire t') working ! k)). t' < act_end a"
    by auto
  show "\<forall>a \<in> set assignments. still_active t' (map (retire t') working) a"
    using assms(2,3) act by (auto simp: still_active_def)
qed

lemma slot_chosen_grows:
  assumes "slot_chosen config v al sp ow working (working', k, offset)"
    and "\<forall>s \<in> set working. is_power_of_two (ws_alignment s)" and "is_power_of_two al"
    and "is_power_of_two (cfg_segment_alignment config)"
  defines "al' \<equiv> max (ws_alignment (working' ! k)) al"
  shows "grows working (working'[k := (working' ! k)\<lparr>ws_alignment := al', ws_active := acts\<rparr>])"
    and "is_power_of_two al'" and "al dvd al'"
proof -
  have pow: "is_power_of_two (ws_alignment (working' ! k))"
    using assms(1-4) by (auto simp: slot_chosen_def is_power_of_two_max split: if_splits)
  with assms(3) show p: "is_power_of_two al'" by (simp add: al'_def is_power_of_two_max)
  show "al dvd al'" by (rule power_of_two_dvd [OF assms(3) p]) (simp add: al'_def)
  have up: "ws_alignment (working' ! k) dvd al'"
    by (rule power_of_two_dvd [OF pow p]) (simp add: al'_def)
  show "grows working (working'[k := (working' ! k)\<lparr>ws_alignment := al', ws_active := acts\<rparr>])"
    unfolding grows_def
  proof (intro conjI allI impI)
    show "length working \<le> length (working'[k := (working' ! k)\<lparr>ws_alignment := al', ws_active := acts\<rparr>])"
      using assms(1) by (auto simp: slot_chosen_def split: if_splits)
  next
    fix j
    assume j: "j < length working"
    let ?w = "working'[k := (working' ! k)\<lparr>ws_alignment := al', ws_active := acts\<rparr>]"
    have "ws_used_end (working ! j) \<le> ws_used_end (?w ! j) \<and>
        ws_alignment (working ! j) dvd ws_alignment (?w ! j) \<and>
        compatible (ws_space (working ! j)) (ws_ownership (working ! j)) (?w ! j)"
    proof (cases "j = k")
      case True
      with assms(1) j up show ?thesis by (auto simp: slot_chosen_def compatible_def)
    next
      case False
      with assms(1) j have "working' ! j = working ! j"
        by (auto simp: slot_chosen_def nth_append split: if_splits)
      with False show ?thesis by (simp add: compatible_def)
    qed
    then show "ws_used_end (working ! j) \<le> ws_used_end (?w ! j)"
      "ws_alignment (working ! j) dvd ws_alignment (?w ! j)"
      "compatible (ws_space (working ! j)) (ws_ownership (working ! j)) (?w ! j)" by auto
  qed
qed

definition spaces_ok :: "'m planner_config \<Rightarrow> bool" where
  "spaces_ok config \<longleftrightarrow> (\<forall>c \<in> set (cfg_memory_spaces config).
     is_power_of_two (cfg_segment_alignment c) \<and> 0 < cfg_segment_granularity c)"

lemma slot_chosen_keeps:
  fixes new_al :: nat
  assumes chosen: "slot_chosen config v al sp ow ws (ws', k, offset)"
    and act: "\<forall>b \<in> set bs. still_active t ws b \<and> asg_segment b < length ws"
    and e: "asg_offset a = offset" "asg_bytes a = decl_bytes v" "asg_segment a = k" "asg_start a = t"
  defines "ws'' \<equiv> ws'[k := (ws' ! k)\<lparr>ws_alignment := new_al, ws_active := ws_active (ws' ! k) @
     [\<lparr>act_end = asg_end a, act_offset = offset, act_bytes = decl_bytes v\<rparr>]\<rparr>]"
  shows "\<forall>b \<in> set (bs @ [a]). still_active t ws'' b"
    and "\<forall>b \<in> set bs. apart b a"
proof -
  have k: "k < length ws'" using chosen by (simp add: slot_chosen_def)
  have old: "still_active t ws'' b" if "b \<in> set bs" for b
  proof -
    let ?j = "asg_segment b"
    have b: "still_active t ws b" "?j < length ws" using act that by auto
    show ?thesis
    proof (cases "?j = k")
      case True
      with b chosen k show ?thesis by (auto simp: slot_chosen_def still_active_def ws''_def)
    next
      case False
      with b(2) chosen have "ws' ! ?j = ws ! ?j"
        by (auto simp: slot_chosen_def nth_append split: if_splits)
      with b False show ?thesis by (simp add: still_active_def ws''_def)
    qed
  qed
  moreover have "still_active t ws'' a"
    using e k by (simp add: still_active_def ws''_def)
  ultimately show "\<forall>b \<in> set (bs @ [a]). still_active t ws'' b" by auto
  show "\<forall>b \<in> set bs. apart b a"
  proof
    fix b
    assume "b \<in> set bs"
    with act have b: "still_active t ws b" "asg_segment b < length ws" by auto
    show "apart b a"
    proof (cases "asg_segment b = k \<and> t < asg_end b")
      case True
      with b chosen have "\<lparr>act_end = asg_end b, act_offset = asg_offset b, act_bytes = asg_bytes b\<rparr>
          \<in> set (ws_active (ws' ! k))"
        by (auto simp: still_active_def slot_chosen_def)
      then have "asg_addrs b \<subseteq> live_addrs (ws' ! k)"
        by (force simp: live_addrs_def asg_addrs_def)
      moreover have "asg_addrs a \<inter> live_addrs (ws' ! k) = {}"
        using chosen e by (simp add: slot_chosen_def asg_addrs_def)
      ultimately show ?thesis by (auto simp: apart_def)
    next
      case False
      with e show ?thesis by (auto simp: apart_def not_less)
    qed
  qed
qed

lemma place_value_spec:
  assumes inv: "packing_inv p lv placed t pk" and i: "i < length (prog_values p)" "i \<notin> set placed"
    and planned: "decl_storage (prog_values p ! i) = Planned cl al sp ow" and al: "is_power_of_two al"
    and iv: "live_intervals lv ! i = Some iv" and t': "t' = id_index (iv_start iv)" "t \<le> t'"
    and range: "decl_bytes (prog_values p ! i) \<le> usize_max" and spaces: "spaces_ok config"
  shows "case place_value p config lv pk i of
      Ok pk' \<Rightarrow> packing_inv p lv (placed @ [i]) t' pk'
    | Err e \<Rightarrow> placement_error e
    | Panic \<Rightarrow> False"
proof -
  obtain working bs by_value where pk: "pk = (working, bs, by_value)" by (cases pk)
  let ?v = "prog_values p ! i"
  let ?find = "find (\<lambda>c. cfg_space c = sp) (cfg_memory_spaces config)"
  note unfold_place = place_value_def pk planned iv Let_def
  show ?thesis
  proof (cases ?find)
    case None
    then show ?thesis by (simp add: unfold_place expect_def ok_or_def)
  next
    case (Some cfg)
    then have cfg: "is_power_of_two (cfg_segment_alignment cfg)" "0 < cfg_segment_granularity cfg"
      using spaces by (auto simp: spaces_ok_def find_Some_iff)
    note rounded = round_up_spec [OF cfg(2), of "decl_bytes ?v" "Some (decl_id ?v)"]
    show ?thesis
    proof (cases "round_up (decl_bytes ?v) (cfg_segment_granularity cfg) (Some (decl_id ?v))")
      case (Ok r)
      show ?thesis
      proof (cases "decl_bytes ?v > cfg_max_segment_bytes cfg \<or> r > cfg_max_segment_bytes cfg")
        case True
        with Ok Some show ?thesis by (simp add: unfold_place expect_def ok_or_def)
      next
        case False
        let ?ws = "map (retire t') working"
        have segs: "\<forall>s \<in> set working. segment_inv s \<and> segment_fits s \<and> is_power_of_two (ws_alignment s)"
          and lby: "length by_value = length (prog_values p)"
          and slots: "map Some bs = map (\<lambda>i. by_value ! i) placed"
          and below: "\<forall>i \<in> set placed. i < length (prog_values p)"
          and asg: "\<forall>j < length placed. assigned p lv working (placed ! j) (bs ! j)"
          and act: "\<forall>a \<in> set bs. still_active t working a" and sorted: "sorted_wrt apart bs"
          using inv pk by (simp_all add: packing_inv_def)
        have len: "length bs = length placed" using arg_cong [OF slots, of length] by simp
        have "\<forall>a \<in> set bs. asg_segment a < length working"
          using asg len by (auto simp: in_set_conv_nth assigned_def Let_def)
        with act have inseg: "\<forall>a \<in> set bs. still_active t working a \<and> asg_segment a < length working" by blast
        note ret = retired_inv [OF segs inseg t'(2)]
        have "\<forall>s \<in> set ?ws. segment_inv s \<and> segment_fits s" using ret(1) by blast
        from choose_slot_spec [OF is_power_of_two_pos [OF al] this range cfg(2) Ok, of sp ow] False
        have chosen: "case choose_slot cfg ?v al sp ow ?ws of
            Ok res \<Rightarrow> slot_chosen cfg ?v al sp ow ?ws res | Err e \<Rightarrow> placement_error e | Panic \<Rightarrow> False"
          by simp
        show ?thesis
        proof (cases "choose_slot cfg ?v al sp ow ?ws")
          case slot: (Ok res)
          obtain ws' k offset where res: "res = (ws', k, offset)" by (metis surj_pair)
          define a where "a = \<lparr>asg_value = decl_id ?v, asg_segment = k, asg_offset = offset,
            asg_bytes = decl_bytes ?v, asg_interval = iv\<rparr>"
          define ws'' where "ws'' = ws'[k := (ws' ! k)\<lparr>ws_alignment := max (ws_alignment (ws' ! k)) al,
            ws_active := ws_active (ws' ! k) @
              [\<lparr>act_end = asg_end a, act_offset = offset, act_bytes = decl_bytes ?v\<rparr>]\<rparr>]"
          have run: "place_value p config lv pk i = Ok (ws'', bs @ [a], by_value[i := Some a])"
            using Ok False Some slot res t'
            by (simp add: unfold_place expect_def ok_or_def a_def ws''_def asg_end_def)
          have c: "slot_chosen cfg ?v al sp ow ?ws (ws', k, offset)" using chosen slot res by simp
          have a: "asg_offset a = offset" "asg_bytes a = decl_bytes ?v" "asg_segment a = k" "asg_start a = t'"
            using t' by (simp_all add: a_def asg_start_def)
          have "\<forall>b \<in> set bs. still_active t' ?ws b \<and> asg_segment b < length ?ws"
            using ret(2) inseg by simp
          note keeps = slot_chosen_keeps(1) [where new_al = "max (ws_alignment (ws' ! k)) al", OF c this a, folded ws''_def]
            slot_chosen_keeps(2) [OF c this a]
          have pows: "\<forall>s \<in> set ?ws. is_power_of_two (ws_alignment s)" using ret(1) by blast
          note grown = slot_chosen_grows [OF c pows al cfg(1)]
          have grow: "grows working ws''"
            using ret(3) grown(1) by (auto simp: grows_def ws''_def compatible_def intro: order_trans dvd_trans)
          have kk: "k < length ws'" using c by (simp add: slot_chosen_def)
          have new: "ws'' ! k = (ws' ! k)\<lparr>ws_alignment := max (ws_alignment (ws' ! k)) al,
            ws_active := ws_active (ws' ! k) @
              [\<lparr>act_end = asg_end a, act_offset = offset, act_bytes = decl_bytes ?v\<rparr>]\<rparr>"
            using kk by (simp add: ws''_def)
          have "segment_inv (ws'' ! k)"
            unfolding new by (rule activate_inv) (use c in \<open>auto simp: slot_chosen_def\<close>)
          moreover have "segment_fits (ws'' ! k)" "is_power_of_two (ws_alignment (ws'' ! k))"
            using c grown(2) by (simp_all add: new slot_chosen_def segment_fits_def)
          moreover have "ws'' ! j = ?ws ! j" if "j < length ws''" "j \<noteq> k" for j
            using c that by (auto simp: slot_chosen_def ws''_def nth_append less_Suc_eq split: if_splits)
          moreover have "j < length ?ws" if "j < length ws''" "j \<noteq> k" for j
            using c that by (auto simp: slot_chosen_def ws''_def less_Suc_eq split: if_splits)
          ultimately have "segment_inv s \<and> segment_fits s \<and> is_power_of_two (ws_alignment s)"
            if "s \<in> set ws''" for s
            using that ret(1) by (metis in_set_conv_nth nth_mem)
          moreover have "map Some (bs @ [a]) = map (\<lambda>j. by_value[i := Some a] ! j) (placed @ [i])"
          proof -
            have "map (\<lambda>j. by_value[i := Some a] ! j) placed = map (\<lambda>j. by_value ! j) placed"
              using i(2) by (intro map_cong refl) (metis nth_list_update_neq)
            with slots i(1) lby show ?thesis by simp
          qed
          moreover have "assigned p lv ws'' i a"
          proof -
            have "offset + decl_bytes ?v \<le> ws_used_end (ws'' ! k)" "al dvd offset"
              "al dvd ws_alignment (ws'' ! k)" "compatible sp ow (ws'' ! k)" "k < length ws''"
              using c grown(3) kk by (simp_all add: new slot_chosen_def compatible_def ws''_def)
            then show ?thesis using iv planned by (simp add: assigned_def a_def)
          qed
          then have "\<forall>j < length (placed @ [i]). assigned p lv ws'' ((placed @ [i]) ! j) ((bs @ [a]) ! j)"
            using asg grow len by (auto simp: nth_append less_Suc_eq intro: assigned_grows)
          moreover have "sorted_wrt apart (bs @ [a])"
            using sorted keeps(2) by (simp add: sorted_wrt_append)
          ultimately have "packing_inv p lv (placed @ [i]) t' (ws'', bs @ [a], by_value[i := Some a])"
            using keeps(1) lby below i(1) by (simp add: packing_inv_def)
          with run show ?thesis by simp
        next
          case slot: (Err e)
          with chosen Ok False Some t' show ?thesis by (simp add: unfold_place expect_def ok_or_def)
        next
          case Panic
          with chosen show ?thesis by simp
        qed
      qed
    next
      case (Err e)
      with Some rounded show ?thesis by (simp add: unfold_place expect_def ok_or_def)
    next
      case Panic
      with rounded show ?thesis by simp
    qed
  qed
qed


text \<open>What liveness analysis hands to the packer, as far as the packer relies on it.\<close>

definition packable :: "('k, 'm) lowered_program \<Rightarrow> liveness \<Rightarrow> bool" where
  "packable p lv \<longleftrightarrow> length (live_intervals lv) = length (prog_values p) \<and>
     (\<forall>i < length (prog_values p). decl_bytes (prog_values p ! i) \<le> usize_max \<and>
        (\<forall>cl al sp ow. decl_storage (prog_values p ! i) = Planned cl al sp ow \<longrightarrow>
           is_power_of_two al \<and> (\<exists>iv. live_intervals lv ! i = Some iv \<and>
             id_index (iv_start iv) < id_index (iv_end iv) \<and>
             id_index (iv_end iv) \<le> length (prog_instructions p))))"

definition value_start :: "liveness \<Rightarrow> nat \<Rightarrow> nat" where
  "value_start lv i = id_index (iv_start (the (live_intervals lv ! i)))"

lemma place_values_spec:
  assumes "packable p lv" and "spaces_ok config"
    and "packing_inv p lv placed t pk" and "distinct (placed @ order)"
    and "\<forall>i \<in> set order. i < length (prog_values p) \<and> is_planned (decl_storage (prog_values p ! i)) \<and>
      t \<le> value_start lv i"
    and "sorted (map (value_start lv) order)"
  shows "case fold_outcome (place_value p config lv) pk order of
      Ok pk' \<Rightarrow> (\<exists>t'. packing_inv p lv (placed @ order) t' pk')
    | Err e \<Rightarrow> placement_error e
    | Panic \<Rightarrow> False"
  using assms(3-6)
proof (induction order arbitrary: placed t pk)
  case Nil
  then show ?case by auto
next
  case (Cons i order)
  have i: "i < length (prog_values p)" "i \<notin> set placed" "t \<le> value_start lv i"
    using Cons.prems by auto
  obtain cl al sp ow where st: "decl_storage (prog_values p ! i) = Planned cl al sp ow"
    using Cons.prems(3) by (cases "decl_storage (prog_values p ! i)") auto
  with assms(1) i(1) obtain iv where iv: "live_intervals lv ! i = Some iv" "is_power_of_two al"
    "decl_bytes (prog_values p ! i) \<le> usize_max"
    unfolding packable_def by blast
  have start: "value_start lv i = id_index (iv_start iv)" using iv by (simp add: value_start_def)
  note spec = place_value_spec [OF Cons.prems(1) i(1,2) st iv(2,1) start i(3) iv(3) assms(2)]
  show ?case
  proof (cases "place_value p config lv pk i")
    case (Ok pk')
    with spec have inv: "packing_inv p lv (placed @ [i]) (value_start lv i) pk'" by simp
    have "case fold_outcome (place_value p config lv) pk' order of
        Ok pk' \<Rightarrow> (\<exists>t'. packing_inv p lv ((placed @ [i]) @ order) t' pk')
      | Err e \<Rightarrow> placement_error e
      | Panic \<Rightarrow> False"
      by (rule Cons.IH [OF inv]) (use Cons.prems in auto)
    from this [unfolded append_assoc append_Cons append_Nil] Ok show ?thesis by simp
  qed (use spec in auto)
qed

lemma allocation_order_spec:
  assumes "packable p lv"
  shows "\<exists>order. allocation_order p lv = Ok order \<and> distinct order \<and>
    set order = {i. i < length (prog_values p) \<and> is_planned (decl_storage (prog_values p ! i))} \<and>
    sorted (map (value_start lv) order)"
proof -
  define indexes where
    "indexes = map fst (filter (\<lambda>(_, v). is_planned (decl_storage v)) (enumerate 0 (prog_values p)))"
  let ?key = "\<lambda>i. (iv_start (the (live_intervals lv ! i)), decl_id (prog_values p ! i))"
  define order where "order = sort_key ?key indexes"
  have mem: "set indexes = {i. i < length (prog_values p) \<and> is_planned (decl_storage (prog_values p ! i))}"
    by (force simp: indexes_def)
  have "distinct indexes"
  proof -
    have "distinct (map fst (enumerate 0 (prog_values p)))" by simp
    then show ?thesis unfolding indexes_def by (rule distinct_map_filter)
  qed
  moreover have "live_intervals lv ! i \<noteq> None \<and> i < length (live_intervals lv)" if "i \<in> set indexes" for i
  proof -
    from that mem have i: "i < length (prog_values p)" "is_planned (decl_storage (prog_values p ! i))" by auto
    then obtain cl al sp ow where "decl_storage (prog_values p ! i) = Planned cl al sp ow"
      by (cases "decl_storage (prog_values p ! i)") auto
    with assms i show ?thesis by (fastforce simp: packable_def)
  qed
  then have "allocation_order p lv = Ok order"
    unfolding allocation_order_def Let_def indexes_def [symmetric] order_def by auto
  moreover have "sorted (map (value_start lv) order)"
  proof -
    have "sorted_wrt (\<lambda>a b. ?key a \<le> ?key b) order"
      using sorted_sort_key [of ?key indexes] unfolding sorted_map order_def by simp
    then have "sorted_wrt (\<lambda>a b. value_start lv a \<le> value_start lv b) order"
      by (rule sorted_wrt_mono_rel [rotated])
        (auto simp: value_start_def id_index_def less_eq_dense_id_def less_dense_id_def split: if_splits)
    then show ?thesis by (simp add: sorted_map)
  qed
  ultimately show ?thesis using mem by (auto simp: order_def)
qed

lemma packing_inv_empty:
  "packing_inv p lv [] 0 ([], [], replicate (length (prog_values p)) None)"
  by (simp add: packing_inv_def)

end
