(* ===== verification/Plan.thy ===== *)
theory Plan
  imports Packing
begin

text \<open>
  The memory plan as a whole (\<open>plan_memory\<close> in \<open>crates/compiler/src/planner.rs\<close>): what a returned
  plan promises about the placement of the values and about the reuse edges, when planning fails,
  and what the report counts.
\<close>

section \<open>The plan as a whole\<close>

lemma analyze_liveness_packable:
  assumes "\<forall>v \<in> set (prog_values p). decl_in_range v" and "analyze_liveness p = Ok lv"
  shows "packable p lv" and "length (live_aliases lv) = length (prog_values p)" and "program_ok p"
proof -
  from analyze_liveness_spec [OF assms(1)] assms(2)
  have len: "length (live_intervals lv) = length (prog_values p)"
    and exact: "\<forall>r < length (prog_values p). interval_exact p (live_aliases lv) r (live_intervals lv ! r)"
    and roots: "roots_ok (length (prog_values p)) (live_aliases lv)" and ok: "program_ok p" by auto
  show "length (live_aliases lv) = length (prog_values p)" using roots by (simp add: roots_ok_def)
  show "program_ok p" by (rule ok)
  have "is_power_of_two al \<and> (\<exists>iv. live_intervals lv ! i = Some iv \<and>
      id_index (iv_start iv) < id_index (iv_end iv) \<and>
      id_index (iv_end iv) \<le> length (prog_instructions p))"
    if "i < length (prog_values p)" "decl_storage (prog_values p ! i) = Planned cl al sp ow" for i cl al sp ow
    using exact [rule_format, OF that(1)] that(2)
    by (auto simp: interval_exact_def split: option.splits)
  moreover have "decl_bytes (prog_values p ! i) \<le> usize_max" if "i < length (prog_values p)" for i
    using assms(1) that by (simp add: decl_in_range_def)
  ultimately show "packable p lv" using len unfolding packable_def by blast
qed

lemma check_spaces_ok:
  "each_outcome (check_space (cfg_memory_spaces config)) (enumerate 0 (cfg_memory_spaces config)) = Ok ()
    \<Longrightarrow> spaces_ok config"
  by (auto simp: outcome_iff ball_enumerate spaces_ok_def check_space_def in_set_conv_nth
      simp del: enumerate_member split: if_splits)

text \<open>The stages of a successful planning run.\<close>

definition planned_run ::
    "('k, 'm) lowered_program \<Rightarrow> 'm planner_config \<Rightarrow> liveness \<Rightarrow> nat list \<Rightarrow> 'm packing
      \<Rightarrow> 'm memory_plan \<Rightarrow> bool" where
  "planned_run p config lv order pk plan \<longleftrightarrow> (case pk of (working, assignments, by_value) \<Rightarrow>
     analyze_liveness p = Ok lv \<and> packable p lv \<and> spaces_ok config \<and>
     distinct order \<and>
     set order = {i. i < length (prog_values p) \<and> is_planned (decl_storage (prog_values p ! i))} \<and>
     (\<exists>t. packing_inv p lv order t pk) \<and>
     traverse finish_segment working = Ok (plan_segments plan) \<and>
     reuse_edges assignments = Ok (plan_reuse_edges plan) \<and>
     traverse (location_of lv by_value) (enumerate 0 (prog_values p)) = Ok (plan_locations plan) \<and>
     traverse (output_slot_of p) (prog_outputs p) = Ok (plan_outputs plan) \<and>
     build_report p lv (plan_segments plan) (cfg_largest_allocations config) = Ok (plan_report plan) \<and>
     validate_plan plan = Ok ())"

lemma plan_memory_Ok:
  assumes range: "\<forall>v \<in> set (prog_values p). decl_in_range v" and run: "plan_memory p config = Ok plan"
  shows "\<exists>lv order pk. planned_run p config lv order pk plan"
proof -
  from run obtain lv where lv: "analyze_liveness p = Ok lv" "plan_memory_with_liveness p config lv = Ok plan"
    by (auto simp: plan_memory_def outcome_iff)
  note pack = analyze_liveness_packable(1) [OF range lv(1)]
  from allocation_order_spec [OF pack] obtain order where order: "allocation_order p lv = Ok order"
    "distinct order" "sorted (map (value_start lv) order)"
    "set order = {i. i < length (prog_values p) \<and> is_planned (decl_storage (prog_values p ! i))}" by blast
  from lv(2) order(1) have spaces: "spaces_ok config"
    by (auto simp: plan_memory_with_liveness_def and_then_Ok intro: check_spaces_ok)
  let ?init = "([], [], replicate (length (prog_values p)) None)"
  have "case fold_outcome (place_value p config lv) ?init order of
      Ok pk' \<Rightarrow> (\<exists>t'. packing_inv p lv ([] @ order) t' pk')
    | Err e \<Rightarrow> placement_error e | Panic \<Rightarrow> False"
    by (rule place_values_spec [OF pack spaces packing_inv_empty]) (use order in auto)
  moreover from lv(2) order(1) obtain pk where
    pk: "fold_outcome (place_value p config lv) ?init order = Ok pk" "finish_plan p config lv pk = Ok plan"
    by (auto simp: plan_memory_with_liveness_def and_then_Ok)
  ultimately have "\<exists>t. packing_inv p lv order t pk" by simp
  moreover obtain working assignments by_value where pk3: "pk = (working, assignments, by_value)"
    by (metis surj_pair)
  moreover from pk(2) pk3 have "traverse finish_segment working = Ok (plan_segments plan) \<and>
     reuse_edges assignments = Ok (plan_reuse_edges plan) \<and>
     traverse (location_of lv by_value) (enumerate 0 (prog_values p)) = Ok (plan_locations plan) \<and>
     traverse (output_slot_of p) (prog_outputs p) = Ok (plan_outputs plan) \<and>
     build_report p lv (plan_segments plan) (cfg_largest_allocations config) = Ok (plan_report plan) \<and>
     validate_plan plan = Ok ()"
    by (auto simp: finish_plan_def and_then_Ok Let_def map_err_Ok)
  ultimately have "planned_run p config lv order pk plan"
    unfolding planned_run_def using lv(1) pack spaces order(2,4) by auto
  then show ?thesis by blast
qed

lemma planned_location:
  assumes run: "planned_run p config lv order (working, assignments, by_value) plan"
    and i: "i < length (prog_values p)" "is_planned (decl_storage (prog_values p ! i))"
  shows "\<exists>j a. j < length order \<and> order ! j = i \<and> j < length assignments \<and> assignments ! j = a \<and>
    assigned p lv working i a \<and> asg_segment a < length (plan_segments plan) \<and>
    plan_locations plan ! i = LSegment (DenseId (asg_segment a)) (asg_offset a) (asg_bytes a) \<and>
    finish_segment (working ! asg_segment a) = Ok (plan_segments plan ! asg_segment a)"
proof -
  from run obtain t where inv: "packing_inv p lv order t (working, assignments, by_value)"
    and ord: "i \<in> set order" and segs: "traverse finish_segment working = Ok (plan_segments plan)"
    and locs: "traverse (location_of lv by_value) (enumerate 0 (prog_values p)) = Ok (plan_locations plan)"
    using i by (auto simp: planned_run_def)
  from ord obtain j where j: "j < length order" "order ! j = i" by (auto simp: in_set_conv_nth)
  from inv have slots: "map Some assignments = map (\<lambda>i. by_value ! i) order"
    and asg: "\<forall>j < length order. assigned p lv working (order ! j) (assignments ! j)"
    by (auto simp: packing_inv_def)
  have len: "length assignments = length order" using arg_cong [OF slots, of length] by simp
  have by_i: "by_value ! i = Some (assignments ! j)"
    using arg_cong [OF slots, of "\<lambda>xs. xs ! j"] j len by simp
  from segs have seg: "length (plan_segments plan) = length working"
    "\<forall>k < length working. finish_segment (working ! k) = Ok (plan_segments plan ! k)"
    by (auto simp: traverse_Ok)
  have a: "assigned p lv working i (assignments ! j)" using asg j by blast
  then have k: "asg_segment (assignments ! j) < length working" by (simp add: assigned_def Let_def)
  from locs i(1) have "location_of lv by_value (i, prog_values p ! i) = Ok (plan_locations plan ! i)"
    by (auto simp: traverse_Ok nth_enumerate_eq)
  then have "plan_locations plan ! i = LSegment (DenseId (asg_segment (assignments ! j)))
      (asg_offset (assignments ! j)) (asg_bytes (assignments ! j))"
    using i(2) by_i by (cases "decl_storage (prog_values p ! i)")
      (auto simp: location_of_def outcome_iff checked_simps)
  then show ?thesis using j len a k seg by auto
qed

text \<open>
  C4. A plan places every planned value well: in an existing segment of the value's memory space
  and ownership, at an offset aligned for the value, in a segment aligned for the value, with all
  bytes of the value inside the segment.
\<close>
theorem plan_memory_places:
  assumes "\<forall>v \<in> set (prog_values p). decl_in_range v" and "plan_memory p config = Ok plan"
    and "i < length (prog_values p)" and "decl_storage (prog_values p ! i) = Planned cl al sp ow"
  shows "\<exists>k offset. plan_locations plan ! i = LSegment (DenseId k) offset (decl_bytes (prog_values p ! i)) \<and>
    k < length (plan_segments plan) \<and> al dvd offset \<and>
    offset + decl_bytes (prog_values p ! i) \<le> seg_bytes (plan_segments plan ! k) \<and>
    al dvd seg_alignment (plan_segments plan ! k) \<and> seg_space (plan_segments plan ! k) = sp \<and>
    seg_ownership (plan_segments plan ! k) = ow"
proof -
  from plan_memory_Ok [OF assms(1,2)] obtain lv order working assignments by_value where
    run: "planned_run p config lv order (working, assignments, by_value) plan" by (metis surj_pair)
  have planned: "is_planned (decl_storage (prog_values p ! i))" using assms(4) by simp
  from planned_location [OF run assms(3) planned] obtain j a where
    a: "assigned p lv working i a" "asg_segment a < length (plan_segments plan)"
      "plan_locations plan ! i = LSegment (DenseId (asg_segment a)) (asg_offset a) (asg_bytes a)"
      "finish_segment (working ! asg_segment a) = Ok (plan_segments plan ! asg_segment a)" by blast
  let ?w = "working ! asg_segment a" and ?s = "plan_segments plan ! asg_segment a"
  have asg: "asg_bytes a = decl_bytes (prog_values p ! i)" "al dvd asg_offset a" "al dvd ws_alignment ?w"
    "compatible sp ow ?w" "asg_offset a + asg_bytes a \<le> ws_used_end ?w" "asg_segment a < length working"
    using a(1) assms(4) by (simp_all add: assigned_def Let_def)
  have "0 < ws_granularity ?w"
    using run asg(6) by (auto simp: planned_run_def packing_inv_def segment_fits_def)
  note up = round_up_spec [OF this, of "ws_used_end ?w" None]
  from a(4) obtain x where x: "round_up (ws_used_end ?w) (ws_granularity ?w) None = Ok x"
    "?s = \<lparr>seg_bytes = x, seg_alignment = ws_alignment ?w, seg_space = ws_space ?w,
       seg_ownership = ws_ownership ?w\<rparr>"
    by (auto simp: finish_segment_def outcome_iff)
  have "ws_used_end ?w \<le> seg_bytes ?s" "seg_alignment ?s = ws_alignment ?w"
    "seg_space ?s = ws_space ?w" "seg_ownership ?s = ws_ownership ?w"
    using up x(1) unfolding x(2) by simp_all
  with a asg show ?thesis by (auto simp: compatible_def)
qed

lemma apart_disjoint:
  assumes "apart a b" and "asg_segment a = asg_segment b" and "iv_overlaps (asg_interval a) (asg_interval b)"
  shows "asg_addrs a \<inter> asg_addrs b = {}"
  using assms by (auto simp: apart_def iv_overlaps_def asg_end_def asg_start_def id_index_def)

text \<open>
  C1. Values that are live at the same time never share memory: if two different planned values
  are live together and a plan puts both in one segment, their byte ranges are disjoint. This
  rests on the packer's free list and tails alone; the conflict check at the end of planning is
  not used.
\<close>
theorem plan_memory_no_sharing:
  assumes "\<forall>v \<in> set (prog_values p). decl_in_range v" and "plan_memory p config = Ok plan"
    and "analyze_liveness p = Ok lv" and "i < length (prog_values p)" and "j < length (prog_values p)"
    and "i \<noteq> j" and "is_planned (decl_storage (prog_values p ! i))"
    and "is_planned (decl_storage (prog_values p ! j))"
    and "live_intervals lv ! i = Some a" and "live_intervals lv ! j = Some b" and "iv_overlaps a b"
    and "plan_locations plan ! i = LSegment k off bytes" and "plan_locations plan ! j = LSegment k off' bytes'"
  shows "{off..<off + bytes} \<inter> {off'..<off' + bytes'} = {}"
proof -
  from plan_memory_Ok [OF assms(1,2)] obtain lv' order working assignments by_value where
    run: "planned_run p config lv' order (working, assignments, by_value) plan" by (metis surj_pair)
  then have lv': "lv' = lv" using assms(3) by (simp add: planned_run_def)
  note run = run [unfolded lv']
  from planned_location [OF run assms(4,7)] obtain x where
    x: "order ! x = i" "x < length assignments" "assigned p lv working i (assignments ! x)"
      "plan_locations plan ! i = LSegment (DenseId (asg_segment (assignments ! x)))
         (asg_offset (assignments ! x)) (asg_bytes (assignments ! x))" by blast
  from planned_location [OF run assms(5,8)] obtain y where
    y: "order ! y = j" "y < length assignments" "assigned p lv working j (assignments ! y)"
      "plan_locations plan ! j = LSegment (DenseId (asg_segment (assignments ! y)))
         (asg_offset (assignments ! y)) (asg_bytes (assignments ! y))" by blast
  have iv: "asg_interval (assignments ! x) = a" "asg_interval (assignments ! y) = b"
    using x(3) y(3) assms(9,10) by (simp_all add: assigned_def Let_def)
  have seg: "asg_segment (assignments ! x) = asg_segment (assignments ! y)"
    using x(4) y(4) assms(12,13) by simp
  have sorted: "sorted_wrt apart assignments" using run by (auto simp: planned_run_def packing_inv_def)
  have "asg_addrs (assignments ! x) \<inter> asg_addrs (assignments ! y) = {}"
  proof (cases "x < y")
    case True
    then have "apart (assignments ! x) (assignments ! y)"
      using sorted y(2) by (simp add: sorted_wrt_iff_nth_less)
    from apart_disjoint [OF this seg] iv assms(11) show ?thesis by simp
  next
    case False
    with x(1) y(1) assms(6) have "y < x" by (cases "x = y") auto
    then have "apart (assignments ! y) (assignments ! x)"
      using sorted x(2) by (simp add: sorted_wrt_iff_nth_less)
    from apart_disjoint [OF this seg [symmetric]] iv assms(11)
    have "asg_addrs (assignments ! y) \<inter> asg_addrs (assignments ! x) = {}" by (auto simp: iv_overlaps_def)
    then show ?thesis by (simp add: Int_commute)
  qed
  then show ?thesis using x(4) y(4) assms(12,13) by (simp add: asg_addrs_def)
qed

definition shown_config :: "native_memory_space planner_config" where
  "shown_config = planner_config_uniform Cpu 1024 64 64"

lemma power_of_two_64: "is_power_of_two 64"
  unfolding is_power_of_two_iff by (rule exI [of _ 6]) simp

lemma shown_order: "allocation_order shown_program shown_liveness = Ok [0, 1, 3]"
  by (simp add: allocation_order_def shown_program_simps shown_liveness_def less_eq_dense_id_def
      less_dense_id_def numeral_2_eq_2 numeral_3_eq_3)

lemma shown_spaces:
  "each_outcome (check_space (cfg_memory_spaces shown_config))
     (enumerate 0 (cfg_memory_spaces shown_config)) = Ok ()"
  by (simp add: shown_config_def planner_config_uniform_def planner_config_new_def check_space_def
      power_of_two_64)

lemmas packing_simps = place_value_def choose_slot_def free_candidate_def try_free_segment_def
  try_free_range_def tail_candidate_def try_tail_def grow_tail_def consume_free_range_def
  retire_def coalesce_def round_up_def align_up_def compatible_def better_def expect_def ok_or_def
  nth_opt_def checked_add_def usize_max_def from_index_def u32_try_from_def u32_max_def Let_def
  wrapping_add_def remove_nth_def

lemmas config_simps = planner_config_uniform_def planner_config_new_def

lemmas plan_simps = finish_plan_def finish_segment_def reuse_edges_def earlier_pairs_def reuse_pair_def
  iv_overlaps_def location_of_def output_slot_of_def known_value_def build_report_def report_value_def
  ranked_def report_segment_def add_bytes_def count_interval_def sweep_def checked_segment_bytes_def
  checked_sub_def default_report_def validate_plan_def validate_segment_def validate_location_def
  validate_output_def less_eq_reverse_def less_reverse_def less_eq_dense_id_def less_dense_id_def

definition shown_plan :: "native_memory_space memory_plan" where
  "shown_plan = \<lparr>plan_segments = [\<lparr>seg_bytes = 64, seg_alignment = 64, seg_space = Cpu,
       seg_ownership = WorkspaceOwned\<rparr>],
     plan_locations = [LSegment (DenseId 0) 0 16, LSegment (DenseId 0) 16 8, LAlias (DenseId 0) 8,
       LSegment (DenseId 0) 0 16],
     plan_outputs = [\<lparr>slot_value = DenseId 3, slot_location = DenseId 3\<rparr>],
     plan_reuse_edges = [\<lparr>previous_value = DenseId 0, next_value = DenseId 3,
       edge_after = DenseId 1, edge_before = DenseId 2\<rparr>],
     plan_report = \<lparr>external_bytes = 0, persistent_bytes = 0, state_bytes = 0, output_bytes = 0,
       workspace_bytes = 64, transaction_bytes = 0, peak_live_bytes = 24, packing_overhead_bytes = 40,
       largest_allocations =
         [\<lparr>report_name = ''a'', report_class = Workspace, report_bytes = 16\<rparr>,
          \<lparr>report_name = ''c'', report_class = Workspace, report_bytes = 16\<rparr>,
          \<lparr>report_name = ''b'', report_class = Workspace, report_bytes = 8\<rparr>]\<rparr>\<rparr>"

lemma shown_planned: "plan_memory shown_program shown_config = Ok shown_plan"
  unfolding plan_memory_def shown_analysis and_then.simps plan_memory_with_liveness_def shown_spaces shown_order
  by (simp add: packing_simps config_simps shown_config_def shown_program_simps shown_liveness_def
      numeral_2_eq_2 numeral_3_eq_3 plan_simps power_of_two_64 shown_plan_def less_eq_char_def less_char_def)

definition clash_program :: "(string, native_memory_space) lowered_program" where
  "clash_program = program_new
     [decl_planned (DenseId 0) ''a'' 8 8 Cpu WorkspaceOwned,
      decl_planned (DenseId 1) ''b'' 32 8 Cpu WorkspaceOwned,
      decl_planned (DenseId 2) ''z'' 0 16 Cpu WorkspaceOwned,
      decl_planned (DenseId 3) ''c'' 32 8 Cpu WorkspaceOwned]
     [instruction_new (DenseId 0) ''ab'' [] [\<lparr>out_value = DenseId 0\<rparr>, \<lparr>out_value = DenseId 1\<rparr>],
      instruction_new (DenseId 1) ''zc'' [use_read (DenseId 0)] [\<lparr>out_value = DenseId 2\<rparr>, \<lparr>out_value = DenseId 3\<rparr>]]
     [DenseId 3]"

lemma power_of_two_16: "is_power_of_two 16"
  unfolding is_power_of_two_iff by (rule exI [of _ 4]) simp

lemma clash_valid: "validate_lowered_program clash_program = Ok ()"
  by (auto simp: validate_lowered_program_Ok program_ok_def dense_values_def clash_program_def
      program_new_def decl_planned_def instruction_new_def u32_max_def less_Suc_eq resource_uses_def)

lemma zero_sized_value_conflicts:
  "plan_memory clash_program shown_config = Err (PackingConflict (DenseId 2) (DenseId 3))"
proof -
  have aliases: "normalize_aliases (prog_values clash_program) = Ok
      [\<lparr>alias_root = DenseId 0, alias_offset = 0\<rparr>, \<lparr>alias_root = DenseId 1, alias_offset = 0\<rparr>,
       \<lparr>alias_root = DenseId 2, alias_offset = 0\<rparr>, \<lparr>alias_root = DenseId 3, alias_offset = 0\<rparr>]"
    by (simp add: normalize_aliases_def clash_program_def program_new_def decl_planned_def
      validate_dense_values_def from_index_def
      u32_try_from_def u32_max_def ok_or_def normalize_from_def follow.simps 
      nth_opt_def expect_def upt_rec numeral_2_eq_2 numeral_3_eq_3)
  have live: "analyze_liveness clash_program = Ok \<lparr>live_aliases =
      [\<lparr>alias_root = DenseId 0, alias_offset = 0\<rparr>, \<lparr>alias_root = DenseId 1, alias_offset = 0\<rparr>,
       \<lparr>alias_root = DenseId 2, alias_offset = 0\<rparr>, \<lparr>alias_root = DenseId 3, alias_offset = 0\<rparr>],
     live_intervals = [
       Some \<lparr>iv_value = DenseId 0, iv_start = DenseId 0, iv_end = DenseId 2\<rparr>,
       Some \<lparr>iv_value = DenseId 1, iv_start = DenseId 0, iv_end = DenseId 1\<rparr>,
       Some \<lparr>iv_value = DenseId 2, iv_start = DenseId 1, iv_end = DenseId 2\<rparr>,
       Some \<lparr>iv_value = DenseId 3, iv_start = DenseId 1, iv_end = DenseId 2\<rparr>]\<rparr>"
    unfolding analyze_liveness_def clash_valid aliases
    by (simp add: clash_program_def program_new_def decl_planned_def instruction_new_def
      record_instruction_def resource_uses_def
      record_access_def nth_opt_def ok_or_def Let_def get_or_insert_def max_access_def record_output_def
      known_value_def expect_def checked_sub_def interval_of_def interval_start_def power_of_two_8 power_of_two_16
      checked_add_def usize_max_def from_index_def u32_try_from_def u32_max_def numeral_2_eq_2 numeral_3_eq_3)
  show ?thesis
    unfolding plan_memory_def live and_then.simps plan_memory_with_liveness_def shown_spaces
    by (simp add: allocation_order_def packing_simps config_simps shown_config_def clash_program_def
      program_new_def decl_planned_def instruction_new_def
      numeral_2_eq_2 numeral_3_eq_3 plan_simps)
qed

section \<open>Reuse edges and conflicts\<close>

definition touching :: "assignment \<Rightarrow> assignment \<Rightarrow> bool" where
  "touching a b \<longleftrightarrow> asg_segment a = asg_segment b \<and>
     asg_offset a < asg_offset b + asg_bytes b \<and> asg_offset b < asg_offset a + asg_bytes a"

definition edge_of :: "assignment \<Rightarrow> assignment \<Rightarrow> reuse_edge" where
  "edge_of a b = \<lparr>previous_value = asg_value a, next_value = asg_value b,
     edge_after = DenseId (asg_end a - 1), edge_before = iv_start (asg_interval b)\<rparr>"

definition conflicting :: "assignment \<Rightarrow> assignment \<Rightarrow> bool" where
  "conflicting a b \<longleftrightarrow> touching a b \<and> iv_overlaps (asg_interval a) (asg_interval b)"

lemma reuse_pair_spec:
  "case reuse_pair edges (a, b) of
     Ok edges' \<Rightarrow> edges' = edges @
       (if touching a b \<and> \<not> conflicting a b \<and> asg_end a \<le> asg_start b then [edge_of a b] else []) \<and>
       \<not> conflicting a b
   | Err e \<Rightarrow> e = PackingConflict (asg_value a) (asg_value b) \<and> conflicting a b \<or>
       (\<exists>v. e = PlanningByteSizeOverflow v)
   | Panic \<Rightarrow> False"
  by (auto simp: reuse_pair_def touching_def conflicting_def edge_of_def ok_or_def checked_add_def
      asg_end_def asg_start_def id_index_def)

lemma earlier_pairs_set:
  "set (earlier_pairs as) = {(as ! i, as ! j) | i j. i < j \<and> j < length as}"
proof -
  have nth: "set (take j as) = (!) as ` {0..<j}" if "j < length as" for j
    using nth_image [of j as] that by simp
  have "set (earlier_pairs as) =
      (\<Union>(j, n) \<in> set (enumerate 0 as). (\<lambda>p. (p, n)) ` set (take j as))"
    by (simp add: earlier_pairs_def split_beta)
  also have "\<dots> = (\<Union>j < length as. (\<lambda>p. (p, as ! j)) ` set (take j as))"
    by fastforce
  also have "\<dots> = (\<Union>j < length as. (\<lambda>p. (p, as ! j)) ` (!) as ` {0..<j})"
    using nth by simp
  also have "\<dots> = {(as ! i, as ! j) | i j. i < j \<and> j < length as}" by (auto, blast)
  finally show ?thesis .
qed

lemma reuse_loop_spec:
  "case fold_outcome reuse_pair edges pairs of
     Ok edges' \<Rightarrow> set edges' = set edges \<union>
       {edge_of a b | a b. (a, b) \<in> set pairs \<and> touching a b \<and> asg_end a \<le> asg_start b} \<and>
       (\<forall>(a, b) \<in> set pairs. \<not> conflicting a b)
   | Err e \<Rightarrow> (\<exists>(a, b) \<in> set pairs. e = PackingConflict (asg_value a) (asg_value b) \<and> conflicting a b) \<or>
       (\<exists>v. e = PlanningByteSizeOverflow v)
   | Panic \<Rightarrow> False"
proof (induction pairs arbitrary: edges)
  case (Cons ab pairs)
  obtain a b where ab: "ab = (a, b)" by (cases ab)
  note one = reuse_pair_spec [of edges a b]
  show ?case
  proof (cases "reuse_pair edges (a, b)")
    case (Ok edges')
    with one have e: "edges' = edges @
        (if touching a b \<and> \<not> conflicting a b \<and> asg_end a \<le> asg_start b then [edge_of a b] else [])"
      "\<not> conflicting a b" by auto
    have set_e: "set edges' = set edges \<union>
        {edge_of x y | x y. (x, y) = (a, b) \<and> touching x y \<and> asg_end x \<le> asg_start y}"
      unfolding e(1) using e(2) by auto
    note IH = Cons.IH [of edges']
    show ?thesis
    proof (cases "fold_outcome reuse_pair edges' pairs")
      case fold: (Ok edges'')
      have "set edges'' = set edges' \<union>
          {edge_of x y | x y. (x, y) \<in> set pairs \<and> touching x y \<and> asg_end x \<le> asg_start y}"
        using IH fold by simp
      also have "\<dots> = set edges \<union> {edge_of x y | x y. (x, y) \<in> set (ab # pairs) \<and> touching x y \<and>
          asg_end x \<le> asg_start y}"
        unfolding set_e ab by auto
      finally show ?thesis using IH fold ab Ok e(2) by simp
    next
      case (Err x)
      with IH show ?thesis using ab Ok by auto
    next
      case Panic
      with IH show ?thesis by simp
    qed
  qed (use one ab in auto)
qed simp

lemma reuse_edges_spec:
  "case reuse_edges as of
     Ok edges \<Rightarrow> set edges =
       {edge_of (as ! i) (as ! j) | i j. i < j \<and> j < length as \<and> touching (as ! i) (as ! j) \<and>
          asg_end (as ! i) \<le> asg_start (as ! j)}
   | Err e \<Rightarrow> (\<exists>i j. i < j \<and> j < length as \<and> conflicting (as ! i) (as ! j) \<and>
         e = PackingConflict (asg_value (as ! i)) (asg_value (as ! j))) \<or>
       (\<exists>v. e = PlanningByteSizeOverflow v)
   | Panic \<Rightarrow> False"
proof -
  note loop = reuse_loop_spec [of "[]" "earlier_pairs as"]
  show ?thesis
  proof (cases "fold_outcome reuse_pair [] (earlier_pairs as)")
    case (Ok edges)
    with loop have "set edges =
        {edge_of a b | a b. (a, b) \<in> set (earlier_pairs as) \<and> touching a b \<and> asg_end a \<le> asg_start b}"
      by simp
    also have "\<dots> = {edge_of (as ! i) (as ! j) | i j. i < j \<and> j < length as \<and> touching (as ! i) (as ! j) \<and>
          asg_end (as ! i) \<le> asg_start (as ! j)}"
      unfolding earlier_pairs_set by blast
    finally show ?thesis using Ok by (simp add: reuse_edges_def)
  next
    case (Err e)
    with loop show ?thesis
      unfolding earlier_pairs_set by (auto simp: reuse_edges_def)
  next
    case Panic
    with loop show ?thesis by simp
  qed
qed

lemma apart_not_conflicting:
  assumes "apart a b" and "0 < asg_bytes a" and "0 < asg_bytes b"
  shows "\<not> conflicting a b"
proof
  assume c: "conflicting a b"
  then have t: "touching a b" "iv_overlaps (asg_interval a) (asg_interval b)"
    by (auto simp: conflicting_def)
  then have "asg_addrs a \<inter> asg_addrs b = {}"
    using apart_disjoint [OF assms(1)] by (auto simp: touching_def)
  moreover have "max (asg_offset a) (asg_offset b) \<in> asg_addrs a \<inter> asg_addrs b"
    using t(1) assms(2,3) by (auto simp: asg_addrs_def touching_def)
  ultimately show False by simp
qed

section \<open>Totality\<close>

lemma report_not_Panic:
  "add_fixed_bytes r c b \<noteq> Panic" "report_value s v \<noteq> Panic" "report_segment r d \<noteq> Panic"
  "sweep starts ends lp k \<noteq> Panic"
proof -
  show fixed: "add_fixed_bytes r c b \<noteq> Panic" for r c b
    by (cases c) (auto simp: add_fixed_bytes_def add_bytes_def outcome_iff)
  show "report_value s v \<noteq> Panic"
    using fixed by (auto simp: report_value_def outcome_iff split: prod.splits value_storage.splits)
  show "report_segment r d \<noteq> Panic"
    by (cases "seg_ownership d") (auto simp: report_segment_def add_bytes_def outcome_iff)
  show "sweep starts ends lp k \<noteq> Panic"
    by (auto simp: sweep_def add_bytes_def outcome_iff split: prod.splits)
qed

lemma count_intervals_total:
  assumes "packable p lv"
  shows "case fold_outcome count_interval (replicate (length (prog_instructions p) + 1) 0,
        replicate (length (prog_instructions p) + 1) 0) (zip (prog_values p) (live_intervals lv)) of
      Ok (starts, ends) \<Rightarrow> length starts = length (prog_instructions p) + 1 \<and>
        length ends = length (prog_instructions p) + 1
    | Err e \<Rightarrow> (\<exists>v. e = PlanningByteSizeOverflow v)
    | Panic \<Rightarrow> False"
proof -
  let ?n = "length (prog_instructions p)"
  let ?I = "\<lambda>(starts :: nat list, ends :: nat list). length starts = ?n + 1 \<and> length ends = ?n + 1"
  have "case fold_outcome count_interval (replicate (?n + 1) 0, replicate (?n + 1) 0)
        (zip (prog_values p) (live_intervals lv)) of
      Ok s \<Rightarrow> ?I s | Err e \<Rightarrow> (\<exists>v. e = PlanningByteSizeOverflow v) | Panic \<Rightarrow> False"
  proof (rule fold_outcome_case)
    fix s x
    assume x: "x \<in> set (zip (prog_values p) (live_intervals lv))" and s: "?I s"
    obtain starts ends v iv where sx: "s = (starts, ends)" "x = (v, iv)" by (metis surj_pair)
    show "case count_interval s x of Ok s \<Rightarrow> ?I s
      | Err e \<Rightarrow> (\<exists>v. e = PlanningByteSizeOverflow v) | Panic \<Rightarrow> False"
    proof (cases "is_planned (decl_storage v)")
      case False
      with sx s show ?thesis by (simp add: count_interval_def)
    next
      case True
      from x sx obtain i where i: "i < length (prog_values p)" "v = prog_values p ! i"
        "iv = live_intervals lv ! i"
        by (auto simp: set_zip)
      from True obtain cl al sp ow where "decl_storage v = Planned cl al sp ow"
        by (cases "decl_storage v") auto
      with assms i obtain iv' where "iv = Some iv'" "id_index (iv_start iv') < id_index (iv_end iv')"
        "id_index (iv_end iv') \<le> ?n"
        unfolding packable_def by metis
      with sx s True show ?thesis
        by (auto simp: count_interval_def expect_def add_bytes_def ok_or_def checked_add_def Let_def nth_opt_def)
    qed
  qed simp
  then show ?thesis by (simp add: case_prod_unfold)
qed

lemma build_report_total:
  fixes p :: "('k, 'm) lowered_program" and segments :: "'m segment_decl list"
  assumes "packable p lv"
  shows "build_report p lv segments n \<noteq> Panic"
    and "build_report p lv segments n = Err e \<Longrightarrow> \<exists>v. e = PlanningByteSizeOverflow v"
proof -
  note counts = count_intervals_total [OF assms]
  have value_err: "report_value s v = Err e \<Longrightarrow> \<exists>w. e = PlanningByteSizeOverflow w" for s and v :: "'m value_decl"
    by (auto simp: report_value_def add_fixed_bytes_def add_bytes_def outcome_iff
        split: prod.splits value_storage.splits storage_class.splits)
  have seg_err: "report_segment r d = Err e \<Longrightarrow> \<exists>v. e = PlanningByteSizeOverflow v" for r and d :: "'m segment_decl"
    by (auto simp: report_segment_def add_bytes_def outcome_iff split: segment_ownership.splits)
  have sweep_err: "sweep starts ends lp k = Err e \<Longrightarrow> \<exists>v. e = PlanningByteSizeOverflow v" for starts ends lp k
    by (auto simp: sweep_def add_bytes_def outcome_iff split: prod.splits)
  have folds: "fold_outcome report_value s vs \<noteq> Panic" "fold_outcome report_segment r ds \<noteq> Panic"
    "fold_outcome (sweep starts ends) lp ks \<noteq> Panic"
    for s and vs :: "'m value_decl list" and r and ds :: "'m segment_decl list" and starts ends lp ks
    using fold_outcome_safe [where I = "\<lambda>_. True"] report_not_Panic by metis+
  show "build_report p lv segments n \<noteq> Panic"
    using counts folds by (auto simp: build_report_def outcome_iff Let_def split: prod.splits outcome.splits)
  show "build_report p lv segments n = Err e \<Longrightarrow> \<exists>v. e = PlanningByteSizeOverflow v"
    using counts value_err seg_err sweep_err
    by (auto simp: build_report_def outcome_iff Let_def split: prod.splits outcome.splits
        dest!: fold_outcome_Err)
qed

fun is_conflict :: "planner_error \<Rightarrow> bool" where
  "is_conflict (PackingConflict _ _) = True"
| "is_conflict _ = False"

lemma placement_error_no_conflict: "placement_error e \<Longrightarrow> \<not> is_conflict e"
  by (cases e) auto

lemma known_value_no_conflict: "known_value vs i v = Err e \<Longrightarrow> \<not> is_conflict e"
  by (auto simp: known_value_def split: if_splits)

lemma validate_dense_values_no_conflict: "validate_dense_values vs = Err e \<Longrightarrow> \<not> is_conflict e"
  unfolding validate_dense_values_def
  by (drule each_outcome_Err) (auto simp: outcome_iff split: if_splits)

lemma normalize_no_conflict:
  assumes "\<forall>v \<in> set vs. decl_in_range v" and "normalize_aliases vs = Err e"
  shows "\<not> is_conflict e"
proof (cases "dense_values vs")
  case True
  with normalize_aliases_spec [OF assms(1)] assms(2) have "alias_failure vs e" by simp
  then show ?thesis by (auto simp: alias_failure_def)
next
  case False
  with assms(2) have "validate_dense_values vs = Err e"
    using validate_dense_values_Ok [of vs]
    by (cases "validate_dense_values vs") (auto simp: normalize_aliases_def)
  then show ?thesis by (rule validate_dense_values_no_conflict)
qed

lemma interval_no_conflict: "interval_of t iv = Err e \<Longrightarrow> \<not> is_conflict e"
proof -
  have "interval_start t iv = Err e \<Longrightarrow> \<not> is_conflict e"
    by (auto simp: interval_start_def outcome_iff split: prod.splits value_storage.splits option.splits if_splits)
  then show "interval_of t iv = Err e \<Longrightarrow> \<not> is_conflict e"
    by (auto simp: interval_of_def outcome_iff split: prod.splits option.splits if_splits)
qed

lemma validate_no_conflict: "validate_lowered_program p = Err e \<Longrightarrow> \<not> is_conflict e"
  unfolding validate_lowered_program_def
  by (auto simp: and_then_Err validate_alias_source_def validate_instruction_def ok_or_Err
      dest!: each_outcome_Err validate_dense_values_no_conflict known_value_no_conflict
      split: value_storage.splits if_splits)

lemma analyze_no_conflict:
  assumes "\<forall>v \<in> set (prog_values p). decl_in_range v" and "analyze_liveness p = Err e"
  shows "\<not> is_conflict e"
proof -
  have access: "record_access as i t u = Err x \<Longrightarrow> \<not> is_conflict x" for as i t u x
    by (auto simp: record_access_def outcome_iff Let_def split: if_splits)
  have instr: "record_instruction as t ins = Err x \<Longrightarrow> \<not> is_conflict x" for as t ins x
    by (auto simp: record_instruction_def dest!: fold_outcome_Err access)
  have out: "record_output p as t v = Err x \<Longrightarrow> \<not> is_conflict x" for as t v x
    by (auto simp: record_output_def and_then_Err expect_Err Let_def dest: known_value_no_conflict
        split: option.splits if_splits)
  from assms(2) show ?thesis
    unfolding analyze_liveness_def Let_def and_then_Err
    by (elim disjE exE conjE)
      (auto dest!: fold_outcome_Err traverse_Err
        dest: validate_no_conflict normalize_no_conflict [OF assms(1)] instr out interval_no_conflict)
qed

lemma finish_segment_Ok:
  "segment_fits s \<Longrightarrow> \<exists>d. finish_segment s = Ok d"
  by (auto simp: segment_fits_def finish_segment_def outcome_iff)

lemma location_of_total:
  assumes "packing_inv p lv order t (working, assignments, by_value)"
    and "set order = {i. i < length (prog_values p) \<and> is_planned (decl_storage (prog_values p ! i))}"
    and "iv \<in> set (enumerate 0 (prog_values p))"
  shows "location_of lv by_value iv \<noteq> Panic"
    and "location_of lv by_value iv = Err e \<Longrightarrow> \<not> is_conflict e"
proof -
  obtain i v where iv: "iv = (i, v)" by (cases iv)
  with assms(3) have i: "i < length (prog_values p)" "prog_values p ! i = v" by auto
  have "by_value ! i \<noteq> None" if "is_planned (decl_storage v)"
  proof -
    have "i \<in> set order" using that i assms(2) by simp
    then obtain j where j: "j < length order" "order ! j = i" by (auto simp: in_set_conv_nth)
    have slots: "map Some assignments = map (\<lambda>i. by_value ! i) order"
      using assms(1) by (simp add: packing_inv_def)
    have "j < length assignments" using arg_cong [OF slots, of length] j by simp
    then have "by_value ! i = Some (assignments ! j)"
      using arg_cong [OF slots, of "\<lambda>xs. xs ! j"] j by simp
    then show ?thesis by simp
  qed
  then show "location_of lv by_value iv \<noteq> Panic"
    using iv by (auto simp: location_of_def outcome_iff split: value_storage.splits)
  show "location_of lv by_value iv = Err e \<Longrightarrow> \<not> is_conflict e"
    using iv by (auto simp: location_of_def outcome_iff split: value_storage.splits)
qed

lemma output_slot_of_total:
  "output_slot_of p v \<noteq> Panic" "output_slot_of p v = Err e \<Longrightarrow> \<not> is_conflict e"
  by (auto simp: output_slot_of_def known_value_def outcome_iff split: if_splits)

lemma finish_plan_spec:
  assumes pack: "packable p lv" and inv: "packing_inv p lv order t pk"
    and planned: "set order = {i. i < length (prog_values p) \<and> is_planned (decl_storage (prog_values p ! i))}"
    and sizes: "\<forall>v \<in> set (prog_values p). is_planned (decl_storage v) \<longrightarrow> 0 < decl_bytes v"
  shows "finish_plan p config lv pk = Err e \<Longrightarrow> \<not> is_conflict e"
proof -
  obtain working assignments by_value where pk: "pk = (working, assignments, by_value)" by (metis surj_pair)
  have len: "length assignments = length order"
    using inv pk by (auto simp: packing_inv_def dest: map_eq_imp_length_eq)
  have pos: "0 < asg_bytes (assignments ! j)" if "j < length assignments" for j
  proof -
    have "assigned p lv working (order ! j) (assignments ! j)" using inv pk that len by (simp add: packing_inv_def)
    moreover have "order ! j \<in> set order" using that len by simp
    ultimately show ?thesis using planned sizes by (auto simp: assigned_def Let_def)
  qed
  have "sorted_wrt apart assignments" using inv pk by (simp add: packing_inv_def)
  then have "\<not> conflicting (assignments ! i) (assignments ! j)" if "i < j" "j < length assignments" for i j
    using that pos by (intro apart_not_conflicting) (simp_all add: sorted_wrt_iff_nth_less)
  then have edges: "reuse_edges assignments = Err e \<Longrightarrow> \<not> is_conflict e" for e
    using reuse_edges_spec [of assignments] by fastforce
  have segs: "finish_segment s \<noteq> Err e" if "s \<in> set working" for s e
    using inv pk that finish_segment_Ok [of s] by (auto simp: packing_inv_def)
  note locs = location_of_total(2) [OF inv [unfolded pk] planned]
  show "finish_plan p config lv pk = Err e \<Longrightarrow> \<not> is_conflict e"
    unfolding finish_plan_def pk prod.case and_then_Err Let_def
    by (elim disjE exE conjE)
      (auto dest: segs edges locs output_slot_of_total(2) build_report_total(2) [OF pack]
        dest!: traverse_Err simp: map_err_Err)
qed


lemma finish_plan_not_Panic:
  assumes pack: "packable p lv" and inv: "packing_inv p lv order t pk"
    and planned: "set order = {i. i < length (prog_values p) \<and> is_planned (decl_storage (prog_values p ! i))}"
  shows "finish_plan p config lv pk \<noteq> Panic"
proof -
  obtain working assignments by_value where pk: "pk = (working, assignments, by_value)" by (metis surj_pair)
  have "finish_segment s \<noteq> Panic" if "s \<in> set working" for s
    using inv pk that finish_segment_Ok [of s] by (auto simp: packing_inv_def)
  then have "traverse finish_segment working \<noteq> Panic" by (rule traverse_Panic)
  moreover have "reuse_edges assignments \<noteq> Panic" using reuse_edges_spec [of assignments] by auto
  moreover have "traverse (location_of lv by_value) (enumerate 0 (prog_values p)) \<noteq> Panic"
    by (rule traverse_Panic) (rule location_of_total(1) [OF inv [unfolded pk] planned])
  moreover have "traverse (output_slot_of p) (prog_outputs p) \<noteq> Panic"
    by (rule traverse_Panic) (rule output_slot_of_total(1))
  ultimately show ?thesis
    unfolding finish_plan_def pk prod.case and_then_Panic Let_def
    using build_report_total(1) [OF pack] validate_plan_not_Panic by (auto simp: outcome_iff)
qed

lemma plan_memory_stages:
  fixes p :: "('k, 'm) lowered_program"
  assumes range: "\<forall>v \<in> set (prog_values p). decl_in_range v" and lv: "analyze_liveness p = Ok lv"
  shows "(\<exists>order t pk. packable p lv \<and> packing_inv p lv order t pk \<and>
       set order = {i. i < length (prog_values p) \<and> is_planned (decl_storage (prog_values p ! i))} \<and>
       plan_memory p config = finish_plan p config lv pk)
    \<or> (\<exists>e'. plan_memory p config = Err e' \<and> \<not> is_conflict e')"
proof -
  note pack = analyze_liveness_packable(1) [OF range lv]
  let ?check = "each_outcome (check_space (cfg_memory_spaces config)) (enumerate 0 (cfg_memory_spaces config))"
  have check: "check_space spaces x \<noteq> Panic \<and> (\<forall>e. check_space spaces x = Err e \<longrightarrow> \<not> is_conflict e)"
    for spaces :: "'m memory_space_config list" and x
    by (auto simp: check_space_def split: prod.splits option.splits if_splits)
  from allocation_order_spec [OF pack] obtain order where order: "allocation_order p lv = Ok order"
    "distinct order" "sorted (map (value_start lv) order)"
    "set order = {i. i < length (prog_values p) \<and> is_planned (decl_storage (prog_values p ! i))}" by blast
  show ?thesis
  proof (cases ?check)
    case (Err e')
    then have "\<not> is_conflict e'" using check by (auto dest: each_outcome_Err)
    with Err show ?thesis using lv by (simp add: plan_memory_def plan_memory_with_liveness_def)
  next
    case Panic
    then show ?thesis using check each_outcome_Panic by metis
  next
    case (Ok u)
    then have spaces: "spaces_ok config" by (auto intro: check_spaces_ok)
    let ?init = "([], [], replicate (length (prog_values p)) None)"
    have spec: "case fold_outcome (place_value p config lv) ?init order of
        Ok pk' \<Rightarrow> (\<exists>t'. packing_inv p lv ([] @ order) t' pk')
      | Err e \<Rightarrow> placement_error e | Panic \<Rightarrow> False"
      by (rule place_values_spec [OF pack spaces packing_inv_empty]) (use order in auto)
    show ?thesis
    proof (cases "fold_outcome (place_value p config lv) ?init order")
      case placed: (Ok pk)
      with spec obtain t where "packing_inv p lv order t pk" by auto
      moreover have "plan_memory p config = finish_plan p config lv pk"
        using lv Ok order(1) placed by (simp add: plan_memory_def plan_memory_with_liveness_def)
      ultimately show ?thesis using pack order(4) by blast
    next
      case (Err e')
      then have "\<not> is_conflict e'" using spec placement_error_no_conflict by simp
      with Err show ?thesis using lv Ok order by (simp add: plan_memory_def plan_memory_with_liveness_def)
    qed (use spec in simp)
  qed
qed



section \<open>The report\<close>

text \<open>The planned bytes of the pairs of a table that satisfy a condition on the interval.\<close>

definition planned_bytes ::
    "('m value_decl \<times> live_interval option) list \<Rightarrow> (live_interval \<Rightarrow> bool) \<Rightarrow> nat" where
  "planned_bytes xs P =
     sum_list (map (decl_bytes \<circ> fst) (filter (\<lambda>(v, iv). is_planned (decl_storage v) \<and> P (the iv)) xs))"

definition live_bytes :: "('k, 'm) lowered_program \<Rightarrow> liveness \<Rightarrow> nat \<Rightarrow> nat" where
  "live_bytes p lv k =
     planned_bytes (zip (prog_values p) (live_intervals lv)) (\<lambda>iv. iv_contains iv (DenseId k))"

lemma planned_bytes_simps:
  "planned_bytes [] P = 0"
  "planned_bytes (x # xs) P = planned_bytes [x] P + planned_bytes xs P"
  by (simp_all add: planned_bytes_def)

lemma planned_bytes_split:
  assumes "\<And>v iv. (v, iv) \<in> set xs \<Longrightarrow> is_planned (decl_storage v) \<Longrightarrow>
    (R (the iv) \<longleftrightarrow> P (the iv) \<or> Q (the iv)) \<and> \<not> (P (the iv) \<and> Q (the iv))"
  shows "planned_bytes xs R = planned_bytes xs P + planned_bytes xs Q"
  using assms
proof (induction xs)
  case (Cons x xs)
  obtain v iv where x: "x = (v, iv)" by (cases x)
  have "planned_bytes xs R = planned_bytes xs P + planned_bytes xs Q"
    by (rule Cons.IH) (use Cons.prems in auto)
  moreover have "planned_bytes [x] R = planned_bytes [x] P + planned_bytes [x] Q"
    using Cons.prems [of v iv] x by (auto simp: planned_bytes_def)
  ultimately show ?case
    using planned_bytes_simps(2) [of x xs] by simp
qed (simp add: planned_bytes_def)

lemma count_loop:
  assumes "fold_outcome count_interval (starts, ends) xs = Ok (starts', ends')"
  shows "length starts' = length starts \<and> length ends' = length ends \<and>
    (\<forall>k < length starts. starts' ! k = starts ! k + planned_bytes xs (\<lambda>iv. id_index (iv_start iv) = k)) \<and>
    (\<forall>k < length ends. ends' ! k = ends ! k + planned_bytes xs (\<lambda>iv. id_index (iv_end iv) = k))"
  using assms
proof (induction xs arbitrary: starts ends)
  case Nil
  then show ?case by (simp add: planned_bytes_def)
next
  case (Cons x xs)
  obtain v iv where x: "x = (v, iv)" by (cases x)
  from Cons.prems obtain s1 e1 where one: "count_interval (starts, ends) x = Ok (s1, e1)"
    and rest: "fold_outcome count_interval (s1, e1) xs = Ok (starts', ends')"
    by (auto simp: outcome_iff)
  have "length s1 = length starts \<and> length e1 = length ends \<and>
      (\<forall>k < length starts. s1 ! k = starts ! k + planned_bytes [x] (\<lambda>iv. id_index (iv_start iv) = k)) \<and>
      (\<forall>k < length ends. e1 ! k = ends ! k + planned_bytes [x] (\<lambda>iv. id_index (iv_end iv) = k))"
    using one x
    by (auto simp: count_interval_def outcome_iff Let_def add_bytes_def checked_simps planned_bytes_def
        nth_list_update split: if_splits)
  with Cons.IH [OF rest] show ?case
    unfolding planned_bytes_simps(2) [of x xs] by auto
qed

lemma sweep_loop:
  assumes "fold_outcome (sweep starts ends) (0, peak0) [0..<n] = Ok (live, peak)"
    and starts: "\<forall>k < n. starts ! k = planned_bytes xs (\<lambda>iv. id_index (iv_start iv) = k)"
    and ends: "\<forall>k < n. ends ! k = planned_bytes xs (\<lambda>iv. id_index (iv_end iv) = k)"
    and order: "\<And>v iv. (v, iv) \<in> set xs \<Longrightarrow> is_planned (decl_storage v) \<Longrightarrow>
      id_index (iv_start (the iv)) < id_index (iv_end (the iv))"
  shows "live + planned_bytes xs (\<lambda>iv. id_index (iv_end iv) < n) =
      planned_bytes xs (\<lambda>iv. id_index (iv_start iv) < n) \<and>
    peak = Max (insert peak0 ((\<lambda>k. planned_bytes xs (\<lambda>iv. iv_contains iv (DenseId k))) ` {..<n}))"
  using assms(1-3)
proof (induction n arbitrary: live peak)
  case 0
  then show ?case by (simp add: planned_bytes_def)
next
  case (Suc n)
  let ?at = "\<lambda>k. planned_bytes xs (\<lambda>iv. iv_contains iv (DenseId k))"
  from Suc.prems(1) obtain l pk where
    before: "fold_outcome (sweep starts ends) (0, peak0) [0..<n] = Ok (l, pk)"
    and step: "sweep starts ends (l, pk) n = Ok (live, peak)"
    by (auto simp: fold_outcome_append outcome_iff)
  have IH: "l + planned_bytes xs (\<lambda>iv. id_index (iv_end iv) < n) =
      planned_bytes xs (\<lambda>iv. id_index (iv_start iv) < n)"
    "pk = Max (insert peak0 (?at ` {..<n}))"
    using Suc.IH [OF before] Suc.prems(2,3) by auto
  from step have live: "ends ! n \<le> l" "live = l - ends ! n + starts ! n" "peak = max pk live"
    by (auto simp: sweep_def add_bytes_def outcome_iff checked_simps)
  have e: "planned_bytes xs (\<lambda>iv. id_index (iv_end iv) < Suc n) =
      planned_bytes xs (\<lambda>iv. id_index (iv_end iv) < n) + ends ! n"
    using Suc.prems(3) by (simp add: planned_bytes_split [where P = "\<lambda>iv. id_index (iv_end iv) < n"
        and Q = "\<lambda>iv. id_index (iv_end iv) = n"] less_Suc_eq)
  have s: "planned_bytes xs (\<lambda>iv. id_index (iv_start iv) < Suc n) =
      planned_bytes xs (\<lambda>iv. id_index (iv_start iv) < n) + starts ! n"
    using Suc.prems(2) by (simp add: planned_bytes_split [where P = "\<lambda>iv. id_index (iv_start iv) < n"
        and Q = "\<lambda>iv. id_index (iv_start iv) = n"] less_Suc_eq)
  have sum: "live + planned_bytes xs (\<lambda>iv. id_index (iv_end iv) < Suc n) =
      planned_bytes xs (\<lambda>iv. id_index (iv_start iv) < Suc n)"
    using IH(1) live e s by linarith
  have "planned_bytes xs (\<lambda>iv. id_index (iv_start iv) < Suc n) =
      ?at n + planned_bytes xs (\<lambda>iv. id_index (iv_end iv) < Suc n)"
  proof (rule planned_bytes_split)
    fix v iv
    assume "(v, iv) \<in> set xs" "is_planned (decl_storage v)"
    from order [OF this] show "(id_index (iv_start (the iv)) < Suc n \<longleftrightarrow>
        iv_contains (the iv) (DenseId n) \<or> id_index (iv_end (the iv)) < Suc n) \<and>
      \<not> (iv_contains (the iv) (DenseId n) \<and> id_index (iv_end (the iv)) < Suc n)"
      by (auto simp: iv_contains_def id_index_def)
  qed
  with sum have "live = ?at n" by linarith
  then have "peak = Max (insert peak0 (?at ` {..<Suc n}))"
    using live(3) IH(2) by (simp add: lessThan_Suc insert_commute [of peak0] max.commute)
  with sum show ?case by simp
qed

text \<open>
  C17. The report's peak is exact: it is the largest number of planned bytes that are live at one
  instruction (0 for a program without instructions), and the overhead is what the segments hold
  beyond it.
\<close>
theorem peak_live_bytes_exact:
  assumes "\<forall>v \<in> set (prog_values p). decl_in_range v" and "plan_memory p config = Ok plan"
    and "analyze_liveness p = Ok lv"
  shows "peak_live_bytes (plan_report plan) =
      Max (insert 0 (live_bytes p lv ` {..<length (prog_instructions p)})) \<and>
    peak_live_bytes (plan_report plan) + packing_overhead_bytes (plan_report plan) =
      sum_list (map seg_bytes (plan_segments plan))"
proof -
  from plan_memory_Ok [OF assms(1,2)] obtain order pk where
    run: "planned_run p config lv order pk plan"
    using assms(3) by (force simp: planned_run_def)
  then have report: "build_report p lv (plan_segments plan) (cfg_largest_allocations config) =
      Ok (plan_report plan)" and pack: "packable p lv"
    by (auto simp: planned_run_def split: prod.splits)
  let ?xs = "zip (prog_values p) (live_intervals lv)" and ?n = "length (prog_instructions p)"
  let ?zeros = "replicate (?n + 1) (0 :: nat)"
  have peak0: "peak_live_bytes r1 = 0"
    if "fold_outcome report_value (default_report, []) (prog_values p) = Ok (r, l)"
      "fold_outcome report_segment r (plan_segments plan) = Ok r1" for r l r1
  proof -
    have "peak_live_bytes (fst (r, l)) = 0"
      by (rule fold_outcome_inv [OF that(1), where I = "\<lambda>s. peak_live_bytes (fst s) = 0"])
        (auto simp: default_report_def report_value_def add_fixed_bytes_def outcome_iff
          split: value_storage.splits storage_class.splits)
    then have "peak_live_bytes r = 0" by simp
    with that(2) show ?thesis
      by (rule fold_outcome_inv [where I = "\<lambda>s. peak_live_bytes s = 0"])
        (auto simp: report_segment_def outcome_iff split: segment_ownership.splits)
  qed
  from report obtain r l r1 starts ends live peak total allocs where
    fixed: "fold_outcome report_value (default_report, []) (prog_values p) = Ok (r, l)"
      "fold_outcome report_segment r (plan_segments plan) = Ok r1"
    and counts: "fold_outcome count_interval (?zeros, ?zeros) ?xs = Ok (starts, ends)"
    and sweep1: "fold_outcome (sweep starts ends) (0, peak_live_bytes r1) [0..<?n] = Ok (live, peak)"
    and total: "checked_segment_bytes (plan_segments plan) = Some total" "peak \<le> total"
    and eq: "r1\<lparr>peak_live_bytes := peak, packing_overhead_bytes := total - peak,
      largest_allocations := allocs\<rparr> = plan_report plan"
    unfolding build_report_def Let_def and_then_Ok ok_or_Ok checked_sub_Some split_paired_Ex prod.case
    by (elim exE conjE) simp
  have final: "peak_live_bytes (plan_report plan) = peak"
      "packing_overhead_bytes (plan_report plan) = total - peak"
    by (simp_all add: eq [symmetric])
  note sweep = sweep1 [unfolded peak0 [OF fixed]]
  have "id_index (iv_start (the iv)) < id_index (iv_end (the iv))"
    if "(v, iv) \<in> set ?xs" "is_planned (decl_storage v)" for v iv
  proof -
    from that(1) obtain i where i: "i < length (prog_values p)" "v = prog_values p ! i"
      "iv = live_intervals lv ! i" by (auto simp: set_zip)
    from that(2) obtain cl al sp ow where "decl_storage v = Planned cl al sp ow"
      by (cases "decl_storage v") auto
    with pack i show ?thesis unfolding packable_def by fastforce
  qed
  moreover from count_loop [OF counts]
  have "\<forall>k < ?n. starts ! k = planned_bytes ?xs (\<lambda>iv. id_index (iv_start iv) = k)"
    "\<forall>k < ?n. ends ! k = planned_bytes ?xs (\<lambda>iv. id_index (iv_end iv) = k)"
    by (auto simp del: replicate.simps)
  ultimately have "peak = Max (insert 0 (live_bytes p lv ` {..<?n}))"
    using sweep_loop [OF sweep, of ?xs] by (simp add: live_bytes_def [abs_def])
  with final total show ?thesis by (simp add: checked_segment_bytes_eq split: if_splits)
qed

lemma peak_live_bytes_exact_witness:
  "peak_live_bytes (plan_report shown_plan) =
     Max (insert 0 (live_bytes shown_program shown_liveness ` {..<3})) \<and>
   peak_live_bytes (plan_report shown_plan) = 24"
  using peak_live_bytes_exact [OF shown_in_range shown_planned shown_analysis]
  by (simp add: shown_plan_def shown_program_simps numeral_3_eq_3)

text \<open>
  C3. Every reuse of memory is ordered. When a plan gives two different planned values bytes in
  common, their live intervals do not overlap, and the plan carries the edge that lets the runtime
  order the hand-over: after the last instruction of the earlier value, before the first one of
  the later value.
\<close>
theorem plan_memory_orders_reuse:
  assumes "\<forall>v \<in> set (prog_values p). decl_in_range v" and "plan_memory p config = Ok plan"
    and "analyze_liveness p = Ok lv" and "i < length (prog_values p)" and "j < length (prog_values p)"
    and "i \<noteq> j" and "is_planned (decl_storage (prog_values p ! i))"
    and "is_planned (decl_storage (prog_values p ! j))"
    and "live_intervals lv ! i = Some a" and "live_intervals lv ! j = Some b"
    and "plan_locations plan ! i = LSegment k off bytes" and "plan_locations plan ! j = LSegment k off' bytes'"
    and "{off..<off + bytes} \<inter> {off'..<off' + bytes'} \<noteq> {}"
  shows "\<exists>(m, x, n, y) \<in> {(i, a, j, b), (j, b, i, a)}.
    id_index (iv_end x) \<le> id_index (iv_start y) \<and>
    \<lparr>previous_value = decl_id (prog_values p ! m), next_value = decl_id (prog_values p ! n),
      edge_after = DenseId (id_index (iv_end x) - 1), edge_before = iv_start y\<rparr>
      \<in> set (plan_reuse_edges plan)"
proof -
  from plan_memory_Ok [OF assms(1,2)] obtain order working asgs by_value where
    run: "planned_run p config lv order (working, asgs, by_value) plan"
    using assms(3) by (force simp: planned_run_def)
  then have edges: "reuse_edges asgs = Ok (plan_reuse_edges plan)" and sorted: "sorted_wrt apart asgs"
    by (auto simp: planned_run_def packing_inv_def)
  note edge_set = reuse_edges_spec [of asgs, unfolded edges outcome.case]
  have ordered: "asg_end (asgs ! x) \<le> asg_start (asgs ! y) \<and>
      edge_of (asgs ! x) (asgs ! y) \<in> set (plan_reuse_edges plan)"
    if "x < y" "y < length asgs" "asg_segment (asgs ! x) = asg_segment (asgs ! y)"
      "asg_addrs (asgs ! x) \<inter> asg_addrs (asgs ! y) \<noteq> {}" for x y
  proof -
    have "apart (asgs ! x) (asgs ! y)" using sorted that by (simp add: sorted_wrt_iff_nth_less)
    then have "asg_end (asgs ! x) \<le> asg_start (asgs ! y)" using that by (auto simp: apart_def)
    moreover have "touching (asgs ! x) (asgs ! y)" using that(3,4) by (auto simp: touching_def asg_addrs_def)
    ultimately show ?thesis unfolding edge_set using that(1,2) by blast
  qed
  from planned_location [OF run assms(4,7)] obtain x where
    x: "order ! x = i" "x < length asgs" "assigned p lv working i (asgs ! x)"
      "plan_locations plan ! i = LSegment (DenseId (asg_segment (asgs ! x)))
         (asg_offset (asgs ! x)) (asg_bytes (asgs ! x))" by blast
  from planned_location [OF run assms(5,8)] obtain y where
    y: "order ! y = j" "y < length asgs" "assigned p lv working j (asgs ! y)"
      "plan_locations plan ! j = LSegment (DenseId (asg_segment (asgs ! y)))
         (asg_offset (asgs ! y)) (asg_bytes (asgs ! y))" by blast
  have iv: "asg_interval (asgs ! x) = a" "asg_value (asgs ! x) = decl_id (prog_values p ! i)"
    "asg_interval (asgs ! y) = b" "asg_value (asgs ! y) = decl_id (prog_values p ! j)"
    using x(3) y(3) assms(9,10) by (simp_all add: assigned_def Let_def)
  have seg: "asg_segment (asgs ! x) = asg_segment (asgs ! y)"
    and meet: "asg_addrs (asgs ! x) \<inter> asg_addrs (asgs ! y) \<noteq> {}"
    using x(4) y(4) assms(11-13) by (auto simp: asg_addrs_def)
  from x(1) y(1) assms(6) consider "x < y" | "y < x" by fastforce
  then show ?thesis
  proof cases
    case 1
    from ordered [OF this y(2) seg meet] iv show ?thesis
      by (simp add: edge_of_def asg_end_def asg_start_def)
  next
    case 2
    have "asg_addrs (asgs ! y) \<inter> asg_addrs (asgs ! x) \<noteq> {}" using meet by (simp add: Int_commute)
    from ordered [OF 2 x(2) seg [symmetric] this] iv show ?thesis
      by (simp add: edge_of_def asg_end_def asg_start_def)
  qed
qed

lemma plan_memory_orders_reuse_witness:
  "\<lparr>previous_value = DenseId 0, next_value = DenseId 3, edge_after = DenseId 1,
     edge_before = DenseId 2\<rparr> \<in> set (plan_reuse_edges shown_plan)"
  using plan_memory_orders_reuse [OF shown_in_range shown_planned shown_analysis,
      of 0 3 "\<lparr>iv_value = DenseId 0, iv_start = DenseId 0, iv_end = DenseId 2\<rparr>"
        "\<lparr>iv_value = DenseId 3, iv_start = DenseId 2, iv_end = DenseId 3\<rparr>" "DenseId 0" 0 16 0 16]
  by (simp add: shown_program_simps shown_plan_def shown_liveness_def numeral_3_eq_3)

lemma plan_memory_places_witness:
  "\<exists>k offset. plan_locations shown_plan ! 1 = LSegment (DenseId k) offset 8 \<and> 8 dvd offset \<and>
     offset + 8 \<le> seg_bytes (plan_segments shown_plan ! k)"
  using plan_memory_places [OF shown_in_range shown_planned, of 1 Workspace 8 Cpu WorkspaceOwned]
  by (auto simp: shown_program_simps)

lemma plan_memory_no_sharing_witness:
  "{0..<16::nat} \<inter> {16..<16 + 8} = {} \<and>
   plan_locations shown_plan ! 0 = LSegment (DenseId 0) 0 16"
  using plan_memory_no_sharing [OF shown_in_range shown_planned shown_analysis,
      of 0 1 "\<lparr>iv_value = DenseId 0, iv_start = DenseId 0, iv_end = DenseId 2\<rparr>"
        "\<lparr>iv_value = DenseId 1, iv_start = DenseId 1, iv_end = DenseId 3\<rparr>" "DenseId 0" 0 16 16 8]
  by (simp add: shown_program_simps shown_plan_def shown_liveness_def iv_overlaps_def)


end
