(* ===== verification/Layout.thy ===== *)
theory Layout
  imports Dense
begin

text \<open>
  Element types and tensor geometry (\<open>crates/runtime/src/dtype.rs\<close>,
  \<open>crates/runtime/src/layout.rs\<close>).

  \<open>layout\<close> is the struct \<open>Layout\<close>. The specification of a layout is the module's own: the
  element offset of coordinate \<open>c\<close> is \<open>offset + sum of c[d] * strides[d]\<close> (\<open>address\<close>), for
  the coordinates with \<open>c[d] < shape[d]\<close> (\<open>in_bounds\<close>). Every constructor, view and size
  computation below is related to that specification.
\<close>

section \<open>Element types\<close>

datatype dtype = F32 | F64 | F16 | BF16 | U8 | U32 | I64

fun size_in_bytes :: "dtype \<Rightarrow> nat" where
  "size_in_bytes F32 = 4"
| "size_in_bytes F64 = 8"
| "size_in_bytes F16 = 2"
| "size_in_bytes BF16 = 2"
| "size_in_bytes U8 = 1"
| "size_in_bytes U32 = 4"
| "size_in_bytes I64 = 8"

fun dtype_name :: "dtype \<Rightarrow> string" where
  "dtype_name F32 = ''f32''"
| "dtype_name F64 = ''f64''"
| "dtype_name F16 = ''f16''"
| "dtype_name BF16 = ''bf16''"
| "dtype_name U8 = ''u8''"
| "dtype_name U32 = ''u32''"
| "dtype_name I64 = ''i64''"

fun is_float :: "dtype \<Rightarrow> bool" where
  "is_float d = (case d of F32 \<Rightarrow> True | F64 \<Rightarrow> True | F16 \<Rightarrow> True | BF16 \<Rightarrow> True | _ \<Rightarrow> False)"

lemma size_in_bytes_pos [simp]: "0 < size_in_bytes d"
  by (cases d) auto

section \<open>Layouts\<close>

record layout =
  shape :: "nat list"
  strides :: "nat list"
  offset :: nat

definition layout_new :: "nat list \<Rightarrow> nat list \<Rightarrow> nat \<Rightarrow> (layout, 'e) outcome" where
  "layout_new sh st off =
     (if length sh = length st then Ok \<lparr>shape = sh, strides = st, offset = off\<rparr> else Panic)"

text \<open>The loop \<open>for d in (0..n).rev()\<close> of \<open>contiguous\<close>: the argument counts \<open>d + 1\<close> down.\<close>

fun contiguous_loop :: "nat list \<Rightarrow> nat \<Rightarrow> nat \<Rightarrow> nat list \<Rightarrow> (nat list, 'e) outcome" where
  "contiguous_loop sh 0 acc st = Ok st"
| "contiguous_loop sh (Suc d) acc st =
     (let st' = st[d := acc] in
      if d \<noteq> 0
      then and_then (expect (checked_mul acc (sh ! d))) (\<lambda>acc'. contiguous_loop sh d acc' st')
      else contiguous_loop sh d acc st')"

definition contiguous :: "nat list \<Rightarrow> (layout, 'e) outcome" where
  "contiguous sh =
     and_then (contiguous_loop sh (length sh) 1 (replicate (length sh) 0))
       (\<lambda>st. Ok \<lparr>shape = sh, strides = st, offset = 0\<rparr>)"

definition rank :: "layout \<Rightarrow> nat" where
  "rank l = length (shape l)"

definition checked_numel :: "layout \<Rightarrow> nat option" where
  "checked_numel l = (if 0 \<in> set (shape l) then Some 0 else fold_opt checked_mul 1 (shape l))"

definition numel :: "layout \<Rightarrow> (nat, 'e) outcome" where
  "numel l = expect (checked_numel l)"

fun is_contiguous_loop :: "layout \<Rightarrow> nat \<Rightarrow> nat \<Rightarrow> bool" where
  "is_contiguous_loop l 0 acc = True"
| "is_contiguous_loop l (Suc d) acc =
     (if shape l ! d \<noteq> 1 \<and> strides l ! d \<noteq> acc then False
      else if d \<noteq> 0
      then (case checked_mul acc (shape l ! d) of
              None \<Rightarrow> False
            | Some next \<Rightarrow> is_contiguous_loop l d next)
      else is_contiguous_loop l d acc)"

definition is_contiguous :: "layout \<Rightarrow> bool" where
  "is_contiguous l = is_contiguous_loop l (length (shape l)) 1"

definition permute :: "layout \<Rightarrow> nat list \<Rightarrow> (layout, 'e) outcome" where
  "permute l axes =
     (if length axes = rank l \<and> (\<forall>a \<in> set axes. a < length (shape l))
         \<and> (\<forall>a \<in> set axes. a < length (strides l))
      then Ok \<lparr>shape = map (\<lambda>a. shape l ! a) axes, strides = map (\<lambda>a. strides l ! a) axes,
               offset = offset l\<rparr>
      else Panic)"

definition broadcast_step ::
    "layout \<Rightarrow> nat list \<Rightarrow> nat \<Rightarrow> nat list \<Rightarrow> nat \<Rightarrow> (nat list, 'e) outcome" where
  "broadcast_step l sh extra st d =
     (let src = shape l ! d; dst = sh ! (extra + d) in
      if src = dst \<or> src = 1
      then Ok (st[extra + d := (if src = 1 \<and> dst \<noteq> 1 then 0 else strides l ! d)])
      else Panic)"

definition broadcast_to :: "layout \<Rightarrow> nat list \<Rightarrow> (layout, 'e) outcome" where
  "broadcast_to l sh =
     (if length sh \<ge> rank l
      then let extra = length sh - rank l in
        and_then (fold_outcome (broadcast_step l sh extra) (replicate (length sh) 0) [0..<rank l])
          (\<lambda>st. Ok \<lparr>shape = sh, strides = st, offset = offset l\<rparr>)
      else Panic)"

text \<open>The arithmetic of \<open>narrow\<close> is unchecked: it wraps around in a release build.\<close>

definition narrow :: "layout \<Rightarrow> nat \<Rightarrow> nat \<Rightarrow> nat \<Rightarrow> (layout, 'e) outcome" where
  "narrow l dim start len =
     (if dim < length (shape l) \<and> wrapping_add start len \<le> shape l ! dim
         \<and> dim < length (strides l)
      then Ok \<lparr>shape = (shape l)[dim := len], strides = strides l,
               offset = wrapping_add (offset l) (wrapping_mul start (strides l ! dim))\<rparr>
      else Panic)"

definition checked_max_index :: "layout \<Rightarrow> nat option" where
  "checked_max_index l =
     (if 0 \<in> set (shape l) then Some 0
      else case fold_opt
          (\<lambda>index (dim, stride). case checked_mul (dim - 1) stride of
               None \<Rightarrow> None | Some span \<Rightarrow> checked_add index span)
          (offset l) (zip (shape l) (strides l)) of
        None \<Rightarrow> None
      | Some index \<Rightarrow> checked_add index 1)"

definition max_index :: "layout \<Rightarrow> (nat, 'e) outcome" where
  "max_index l = expect (checked_max_index l)"

definition checked_byte_size :: "layout \<Rightarrow> dtype \<Rightarrow> nat option" where
  "checked_byte_size l d =
     (case checked_max_index l of None \<Rightarrow> None | Some m \<Rightarrow> checked_mul m (size_in_bytes d))"

definition byte_size :: "layout \<Rightarrow> dtype \<Rightarrow> (nat, 'e) outcome" where
  "byte_size l d = expect (checked_byte_size l d)"

definition broadcast_dim :: "nat list \<Rightarrow> nat list \<Rightarrow> nat \<Rightarrow> nat list \<Rightarrow> nat \<Rightarrow> (nat list, 'e) outcome" where
  "broadcast_dim a b rnk out d =
     (let ad = (if d < rnk - length a then 1 else a ! (d - (rnk - length a)));
          bd = (if d < rnk - length b then 1 else b ! (d - (rnk - length b))) in
      if ad = bd \<or> ad = 1 \<or> bd = 1 then Ok (out[d := max ad bd]) else Panic)"

definition broadcast_shape :: "nat list \<Rightarrow> nat list \<Rightarrow> (nat list, 'e) outcome" where
  "broadcast_shape a b =
     (let rnk = max (length a) (length b) in
      fold_outcome (broadcast_dim a b rnk) (replicate rnk 1) [0..<rnk])"

section \<open>The address map\<close>

definition dot :: "nat list \<Rightarrow> nat list \<Rightarrow> nat" where
  "dot c st = sum_list (map2 (*) c st)"

definition address :: "layout \<Rightarrow> nat list \<Rightarrow> nat" where
  "address l c = offset l + dot c (strides l)"

definition in_bounds :: "nat list \<Rightarrow> nat list \<Rightarrow> bool" where
  "in_bounds c sh = list_all2 (<) c sh"

definition layout_wf :: "layout \<Rightarrow> bool" where
  "layout_wf l \<longleftrightarrow> length (shape l) = length (strides l)"

definition max_span :: "layout \<Rightarrow> nat" where
  "max_span l = dot (map (\<lambda>d. d - 1) (shape l)) (strides l)"

lemma dot_Nil [simp]: "dot [] st = 0" "dot c [] = 0"
  by (simp_all add: dot_def)

lemma dot_Cons [simp]: "dot (x # c) (s # st) = x * s + dot c st"
  by (simp add: dot_def)

lemma in_bounds_simps [simp]:
  "in_bounds [] sh \<longleftrightarrow> sh = []"
  "in_bounds c [] \<longleftrightarrow> c = []"
  "in_bounds (x # c) (s # sh) \<longleftrightarrow> x < s \<and> in_bounds c sh"
  by (auto simp: in_bounds_def)

lemma in_bounds_nth: "in_bounds c sh \<longleftrightarrow> length c = length sh \<and> (\<forall>i < length sh. c ! i < sh ! i)"
  by (auto simp: in_bounds_def list_all2_conv_all_nth)

lemma in_bounds_length: "in_bounds c sh \<Longrightarrow> length c = length sh"
  by (simp add: in_bounds_nth)

lemma dot_sum: "length c = length st \<Longrightarrow> dot c st = (\<Sum>i < length st. c ! i * st ! i)"
proof (induction c st rule: list_induct2)
  case (Cons x c s st)
  have "(\<Sum>i < length (s # st). (x # c) ! i * (s # st) ! i) =
      x * s + (\<Sum>i < length st. c ! i * st ! i)"
    by (simp add: sum.lessThan_Suc_shift del: sum.lessThan_Suc)
  with Cons show ?case by simp
qed simp

lemma dot_le_span: "in_bounds c sh \<Longrightarrow> dot c st \<le> dot (map (\<lambda>d. d - 1) sh) st"
proof (induction c arbitrary: sh st)
  case (Cons x c)
  then obtain s sh' where sh: "sh = s # sh'" "x < s" "in_bounds c sh'"
    by (cases sh) auto
  show ?case
  proof (cases st)
    case (Cons t st')
    have "x \<le> s - 1" using sh(2) by linarith
    then have "x * t \<le> (s - 1) * t" by (rule mult_le_mono1)
    with Cons sh Cons.IH [OF sh(3), of st'] show ?thesis
      by (simp add: add_mono del: One_nat_def)
  qed simp
qed simp

lemma last_coordinate_in_bounds: "0 \<notin> set sh \<Longrightarrow> in_bounds (map (\<lambda>d. d - 1) sh) sh"
  by (induction sh) auto

lemma fold_spans:
  "fold_opt (\<lambda>index (dim, stride). case checked_mul (dim - 1) stride of
       None \<Rightarrow> None | Some span \<Rightarrow> checked_add index span) s (zip sh st) =
     (let t = s + dot (map (\<lambda>d. d - 1) sh) st in
      if zip sh st = [] \<or> t \<le> usize_max then Some t else None)"
proof (induction sh arbitrary: s st)
  case (Cons d sh)
  show ?case
  proof (cases st)
    case (Cons t st')
    show ?thesis
      using Cons.IH [of "s + (d - 1) * t" st'] Cons
      by (auto simp: checked_mul_def checked_add_def Let_def add.assoc simp del: One_nat_def
          split: option.splits)
  qed simp
qed simp

lemma checked_max_index_eq:
  assumes "0 \<notin> set (shape l)"
  shows "checked_max_index l =
    (if Suc (offset l + max_span l) \<le> usize_max then Some (Suc (offset l + max_span l)) else None)"
proof -
  have "offset l + max_span l = offset l" if "zip (shape l) (strides l) = []"
    using that by (auto simp: max_span_def)
  with assms show ?thesis
    by (auto simp: checked_max_index_def fold_spans Let_def max_span_def checked_add_def
        simp del: One_nat_def)
qed

text \<open>
  The size reported for a layout is exact. For a layout without a zero dimension,
  \<open>checked_max_index\<close> answers \<open>Some m\<close> exactly when \<open>m\<close> fits in \<open>usize\<close>, every coordinate
  inside the shape is addressed below \<open>m\<close>, and some coordinate is addressed at \<open>m - 1\<close>: it is
  the length of the smallest buffer that can back the layout, and it overflows only when that
  length does.
\<close>

theorem checked_max_index_exact:
  assumes "layout_wf l" and "0 \<notin> set (shape l)"
  shows "checked_max_index l = Some m \<longleftrightarrow>
    m \<le> usize_max \<and> (\<forall>c. in_bounds c (shape l) \<longrightarrow> address l c < m) \<and>
    (\<exists>c. in_bounds c (shape l) \<and> Suc (address l c) = m)"
proof -
  let ?last = "map (\<lambda>d. d - 1) (shape l)"
  have last: "in_bounds ?last (shape l)" "address l ?last = offset l + max_span l"
    using assms(2) by (simp_all add: last_coordinate_in_bounds address_def max_span_def
        del: One_nat_def)
  have below: "address l c \<le> offset l + max_span l" if "in_bounds c (shape l)" for c
    using dot_le_span [OF that, of "strides l"] by (simp add: address_def max_span_def)
  have "(\<forall>c. in_bounds c (shape l) \<longrightarrow> address l c < m) \<and>
      (\<exists>c. in_bounds c (shape l) \<and> Suc (address l c) = m) \<longleftrightarrow> m = Suc (offset l + max_span l)"
    using last below by (metis Suc_le_eq le_SucI le_antisym not_less_eq_eq order_refl)
  then show ?thesis
    using assms(2) by (auto simp: checked_max_index_eq)
qed

lemma checked_max_index_bound:
  assumes "layout_wf l" and "0 \<notin> set (shape l)" and "checked_max_index l = Some m"
    and "in_bounds c (shape l)"
  shows "address l c < m"
  using assms dot_le_span [OF assms(4), of "strides l"]
  by (auto simp: checked_max_index_eq address_def max_span_def simp del: One_nat_def
      split: if_splits)

lemma checked_max_index_le: "checked_max_index l = Some m \<Longrightarrow> m \<le> usize_max"
  by (auto simp: checked_max_index_def checked_add_def split: if_splits option.splits)

section \<open>Row-major order\<close>

fun row_major :: "nat list \<Rightarrow> nat list \<Rightarrow> nat" where
  "row_major (s # sh) (x # c) = x * prod_list sh + row_major sh c"
| "row_major _ _ = 0"

fun coords_of :: "nat list \<Rightarrow> nat \<Rightarrow> nat list" where
  "coords_of [] n = []"
| "coords_of (s # sh) n = (n div prod_list sh) # coords_of sh (n mod prod_list sh)"

lemma row_major_less: "in_bounds c sh \<Longrightarrow> row_major sh c < prod_list sh"
proof (induction sh c rule: row_major.induct)
  case (1 s sh x c)
  then have "x < s" and "row_major sh c < prod_list sh" by auto
  then have "x * prod_list sh + row_major sh c < Suc x * prod_list sh" by simp
  also have "\<dots> \<le> s * prod_list sh" using \<open>x < s\<close> by (intro mult_le_mono) auto
  finally show ?case by simp
qed auto

lemma coords_of_row_major: "in_bounds c sh \<Longrightarrow> coords_of sh (row_major sh c) = c"
proof (induction sh c rule: row_major.induct)
  case (1 s sh x c)
  then have "row_major sh c < prod_list sh" by (simp add: row_major_less)
  with 1 show ?case by simp
qed auto

lemma coords_of_in_bounds:
  "n < prod_list sh \<Longrightarrow> in_bounds (coords_of sh n) sh \<and> row_major sh (coords_of sh n) = n"
proof (induction sh arbitrary: n)
  case (Cons s sh)
  then have pos: "0 < prod_list sh" by (cases "prod_list sh = 0") auto
  have "n div prod_list sh < s"
    using Cons.prems pos by (simp add: less_mult_imp_div_less)
  with Cons.IH [of "n mod prod_list sh"] pos show ?case by simp
qed simp

lemma row_major_bij:
  "bij_betw (row_major sh) {c. in_bounds c sh} {0 ..< prod_list sh}"
  by (rule bij_betw_byWitness [where f' = "coords_of sh"])
     (auto simp: coords_of_row_major coords_of_in_bounds row_major_less)

lemma row_major_sum:
  "length c = length sh \<Longrightarrow> row_major sh c = (\<Sum>i < length sh. c ! i * prod_list (drop (Suc i) sh))"
proof (induction c sh rule: list_induct2)
  case (Cons x c s sh)
  then show ?case by (simp add: sum.lessThan_Suc_shift del: sum.lessThan_Suc)
qed simp

definition strides_fit :: "nat list \<Rightarrow> nat \<Rightarrow> bool" where
  "strides_fit sh n \<longleftrightarrow> (\<forall>i. 0 < i \<and> i < n \<longrightarrow> prod_list (drop i sh) \<le> usize_max)"

lemma strides_fit_0 [simp]: "strides_fit sh 0"
  by (simp add: strides_fit_def)

lemma strides_fit_Suc [simp]:
  "strides_fit sh (Suc d) \<longleftrightarrow> strides_fit sh d \<and> (d = 0 \<or> prod_list (drop d sh) \<le> usize_max)"
  by (auto simp: strides_fit_def less_Suc_eq)

lemma is_contiguous_loop_iff:
  assumes "d \<le> length (shape l)" and "d \<noteq> 0 \<longrightarrow> acc = prod_list (drop d (shape l))"
  shows "is_contiguous_loop l d acc \<longleftrightarrow>
    (\<forall>i < d. shape l ! i = 1 \<or> strides l ! i = prod_list (drop (Suc i) (shape l))) \<and>
    strides_fit (shape l) d"
  using assms
proof (induction d arbitrary: acc)
  case (Suc d)
  then have acc: "acc = prod_list (drop (Suc d) (shape l))" and d: "d < length (shape l)" by auto
  have drop_d: "prod_list (drop d (shape l)) = acc * shape l ! d"
    using d acc by (metis Cons_nth_drop_Suc mult.commute prod_list.Cons)
  show ?case
  proof (cases "d = 0")
    case True
    then show ?thesis using acc by (auto simp: less_Suc_eq)
  next
    case False
    show ?thesis
    proof (cases "acc * shape l ! d \<le> usize_max")
      case True
      with False d drop_d Suc.IH [of "acc * shape l ! d"] acc show ?thesis
        by (auto simp: checked_mul_def less_Suc_eq)
    next
      case large: False
      with False drop_d show ?thesis
        by (auto simp: checked_mul_def intro: exI [of _ d])
    qed
  qed
qed simp

lemma is_contiguous_iff:
  "is_contiguous l \<longleftrightarrow>
    (\<forall>i < length (shape l). shape l ! i = 1 \<or> strides l ! i = prod_list (drop (Suc i) (shape l))) \<and>
    strides_fit (shape l) (length (shape l))"
  by (simp add: is_contiguous_def is_contiguous_loop_iff)

lemma contiguous_address:
  assumes "layout_wf l" and "is_contiguous l" and "in_bounds c (shape l)"
  shows "address l c = offset l + row_major (shape l) c"
proof -
  have len: "length c = length (shape l)" "length c = length (strides l)"
    using assms(1,3) by (simp_all add: layout_wf_def in_bounds_length)
  have "c ! i * strides l ! i = c ! i * prod_list (drop (Suc i) (shape l))"
    if "i < length (shape l)" for i
    using assms(2,3) that by (fastforce simp: is_contiguous_iff in_bounds_nth)
  then have "(\<Sum>i < length (shape l). c ! i * strides l ! i) =
      (\<Sum>i < length (shape l). c ! i * prod_list (drop (Suc i) (shape l)))"
    by (intro sum.cong) auto
  then show ?thesis
    using len assms(1) by (simp add: address_def dot_sum row_major_sum layout_wf_def)
qed

lemma contiguous_bij:
  assumes "layout_wf l" and "is_contiguous l"
  shows "bij_betw (address l) {c. in_bounds c (shape l)}
    {offset l ..< offset l + prod_list (shape l)}"
proof -
  have "bij_betw (\<lambda>c. offset l + row_major (shape l) c) {c. in_bounds c (shape l)}
      {offset l ..< offset l + prod_list (shape l)}"
    by (rule bij_betw_byWitness [where f' = "\<lambda>n. coords_of (shape l) (n - offset l)"])
       (auto simp: coords_of_row_major coords_of_in_bounds row_major_less)
  then show ?thesis
    by (rule bij_betw_cong [THEN iffD1, rotated]) (simp add: contiguous_address [OF assms])
qed

text \<open>
  C23. A layout that passes \<open>is_contiguous\<close> addresses a dense block: the coordinates inside its
  shape correspond one to one to the elements from its offset up to its offset plus its element
  count, with no element skipped and none addressed twice.
\<close>

theorem contiguous_addresses_bijective:
  assumes "layout_wf l" and "is_contiguous l"
  shows "bij_betw (address l) {c. in_bounds c (shape l)}
    {offset l ..< offset l + prod_list (shape l)}"
  by (rule contiguous_bij [OF assms])

lemma contiguous_loop_eq:
  assumes "d \<le> length sh" and "length st = length sh"
    and "d \<noteq> 0 \<longrightarrow> acc = prod_list (drop d sh)"
  shows "contiguous_loop sh d acc st =
    (if strides_fit sh d
     then Ok (map (\<lambda>i. prod_list (drop (Suc i) sh)) [0..<d] @ drop d st)
     else (Panic :: (nat list, 'e) outcome))"
  using assms
proof (induction d arbitrary: acc st)
  case (Suc d)
  then have acc: "acc = prod_list (drop (Suc d) sh)" and d: "d < length sh" by auto
  have drop_d: "prod_list (drop d sh) = acc * sh ! d"
    using d acc by (metis Cons_nth_drop_Suc mult.commute prod_list.Cons)
  have tail: "drop d (st[d := acc]) = acc # drop (Suc d) st"
    using d Suc.prems(2) by (simp add: drop_update_swap Cons_nth_drop_Suc [symmetric])
  show ?case
  proof (cases "d \<noteq> 0 \<and> usize_max < acc * sh ! d")
    case True
    with drop_d show ?thesis by (simp add: expect_def checked_mul_def Let_def)
  next
    case False
    define nxt where "nxt = acc * sh ! d"
    have "contiguous_loop sh (Suc d) acc st =
        (contiguous_loop sh d nxt (st[d := acc]) :: (nat list, 'e) outcome)"
      using False by (cases d) (simp_all add: Let_def expect_def checked_mul_def nxt_def)
    also have "\<dots> = (if strides_fit sh d
        then Ok (map (\<lambda>i. prod_list (drop (Suc i) sh)) [0..<d] @ drop d (st[d := acc]))
        else Panic)"
      by (rule Suc.IH) (use Suc.prems drop_d in \<open>auto simp: nxt_def\<close>)
    finally show ?thesis using False drop_d acc tail by (auto simp: not_less)
  qed
qed simp

lemma contiguous_eq:
  "contiguous sh =
    (if strides_fit sh (length sh)
     then Ok \<lparr>shape = sh, strides = map (\<lambda>i. prod_list (drop (Suc i) sh)) [0..<length sh],
              offset = 0\<rparr>
     else Panic)"
  by (simp add: contiguous_def contiguous_loop_eq)

lemma checked_numel_eq:
  "checked_numel l =
    (if prod_list (shape l) \<le> usize_max then Some (prod_list (shape l)) else None)"
proof (cases "0 \<in> set (shape l)")
  case True
  then have "prod_list (shape l) = 0" by (simp add: prod_list_zero_iff)
  with True show ?thesis by (simp add: checked_numel_def)
next
  case False
  then show ?thesis
    by (auto simp: checked_numel_def fold_opt_checked_mul usize_max_def)
qed

lemma contiguous_size:
  assumes wf: "layout_wf l" and cont: "is_contiguous l" and off: "offset l = 0"
  shows "checked_max_index l = checked_numel l"
proof (cases "0 \<in> set (shape l)")
  case True
  then show ?thesis by (simp add: checked_max_index_def checked_numel_def)
next
  case False
  let ?last = "map (\<lambda>d. d - 1) (shape l)"
  have addr: "address l c = row_major (shape l) c" if "in_bounds c (shape l)" for c
    using contiguous_address [OF wf cont that] off by simp
  have "Suc (offset l + max_span l) = prod_list (shape l)"
  proof (rule antisym)
    have "address l ?last = offset l + max_span l"
      by (simp add: address_def max_span_def)
    then show "Suc (offset l + max_span l) \<le> prod_list (shape l)"
      using addr [of ?last] row_major_less [of ?last "shape l"] last_coordinate_in_bounds [OF False]
      by simp
  next
    have "prod_list (shape l) \<noteq> 0" using False by (simp add: prod_list_zero_iff)
    then have c: "in_bounds (coords_of (shape l) (prod_list (shape l) - 1)) (shape l)"
        "row_major (shape l) (coords_of (shape l) (prod_list (shape l) - 1)) = prod_list (shape l) - 1"
      using coords_of_in_bounds [of "prod_list (shape l) - 1" "shape l"] by auto
    have "address l (coords_of (shape l) (prod_list (shape l) - 1)) \<le> offset l + max_span l"
      using dot_le_span [OF c(1), of "strides l"] by (simp add: address_def max_span_def)
    then show "prod_list (shape l) \<le> Suc (offset l + max_span l)"
      using addr [OF c(1)] c(2) by simp
  qed
  then show ?thesis using False by (simp add: checked_max_index_eq checked_numel_eq)
qed

lemma contiguous_spec:
  assumes "contiguous sh = (Ok l :: (layout, 'e) outcome)"
  shows "layout_wf l \<and> shape l = sh \<and> offset l = 0 \<and> is_contiguous l \<and>
    checked_max_index l = checked_numel l \<and>
    (\<forall>c. in_bounds c sh \<longrightarrow> address l c = row_major sh c)"
proof -
  from assms have small: "strides_fit sh (length sh)"
    and l: "shape l = sh" "strides l = map (\<lambda>i. prod_list (drop (Suc i) sh)) [0..<length sh]"
      "offset l = 0"
    by (auto simp: contiguous_eq split: if_splits)
  have wf: "layout_wf l" using l by (simp add: layout_wf_def)
  have cont: "is_contiguous l" using small l by (simp add: is_contiguous_iff)
  have addr: "address l c = row_major sh c" if "in_bounds c sh" for c
    using contiguous_address [OF wf cont, of c] that l by simp
  then show ?thesis using wf cont l contiguous_size [OF wf cont] by simp
qed

text \<open>
  A layout made by \<open>contiguous\<close> is row-major at offset zero: it passes the contiguity test,
  coordinate \<open>c\<close> is the element whose row-major rank is that of \<open>c\<close>, and the storage it needs
  is its element count, one overflowing exactly when the other does.
\<close>

theorem contiguous_correct:
  assumes "contiguous sh = (Ok l :: (layout, 'e) outcome)"
  shows "layout_wf l \<and> shape l = sh \<and> offset l = 0 \<and> is_contiguous l \<and>
    checked_max_index l = checked_numel l \<and>
    (\<forall>c. in_bounds c sh \<longrightarrow> address l c = row_major sh c)"
  by (rule contiguous_spec [OF assms])

section \<open>Views\<close>

text \<open>
  The contract of a view operation: where it succeeds, coordinate \<open>c\<close> of the view is coordinate
  \<open>remap p l c\<close> of the parent, at the same address.
\<close>

locale layout_view =
  fixes view :: "'p \<Rightarrow> layout \<Rightarrow> (layout, 'e) outcome"
    and admissible :: "'p \<Rightarrow> layout \<Rightarrow> bool"
    and remap :: "'p \<Rightarrow> layout \<Rightarrow> nat list \<Rightarrow> nat list"
  assumes view_wf:
      "\<lbrakk>layout_wf l; admissible p l; view p l = Ok v\<rbrakk> \<Longrightarrow> layout_wf v"
    and view_in_bounds:
      "\<lbrakk>layout_wf l; admissible p l; view p l = Ok v; in_bounds c (shape v)\<rbrakk>
        \<Longrightarrow> in_bounds (remap p l c) (shape l)"
    and view_address:
      "\<lbrakk>layout_wf l; admissible p l; view p l = Ok v; in_bounds c (shape v)\<rbrakk>
        \<Longrightarrow> address v c = address l (remap p l c)"
begin

lemma view_within:
  assumes "layout_wf l" and "admissible p l" and "view p l = Ok v"
    and "checked_max_index l = Some m" and "in_bounds c (shape v)"
  shows "address v c < m"
proof -
  have c: "in_bounds (remap p l c) (shape l)"
    using assms by (intro view_in_bounds)
  then have "0 \<notin> set (shape l)"
    by (auto simp: in_bounds_nth in_set_conv_nth)
  with c assms(1,4) have "address l (remap p l c) < m"
    by (simp add: checked_max_index_bound)
  then show ?thesis using assms by (simp add: view_address)
qed

lemma view_max_index:
  assumes "layout_wf l" and "admissible p l" and "view p l = Ok v"
    and "checked_max_index l = Some m"
  shows "\<exists>k \<le> m. checked_max_index v = Some k"
proof (cases "0 \<in> set (shape v)")
  case True
  then show ?thesis by (simp add: checked_max_index_def)
next
  case False
  let ?last = "map (\<lambda>d. d - 1) (shape v)"
  have "address v ?last < m"
    by (rule view_within [OF assms last_coordinate_in_bounds [OF False]])
  then have "Suc (offset v + max_span v) \<le> m"
    by (simp add: address_def max_span_def del: One_nat_def)
  moreover have "m \<le> usize_max" using assms(4) by (rule checked_max_index_le)
  ultimately show ?thesis using False by (simp add: checked_max_index_eq)
qed

end

subsection \<open>Permuted views\<close>

definition permute_coord :: "nat list \<Rightarrow> layout \<Rightarrow> nat list \<Rightarrow> nat list" where
  "permute_coord axes l c = map (\<lambda>d. c ! position axes d) [0..<rank l]"

lemma permute_Ok:
  "permute l axes = Ok v \<longleftrightarrow> length axes = rank l \<and>
    (\<forall>a \<in> set axes. a < rank l \<and> a < length (strides l)) \<and>
    v = \<lparr>shape = map ((!) (shape l)) axes, strides = map ((!) (strides l)) axes, offset = offset l\<rparr>"
  by (auto simp: permute_def rank_def)

lemma axes_bij:
  assumes "distinct axes" and "length axes = n" and "\<forall>a \<in> set axes. a < n"
  shows "bij_betw ((!) axes) {..<n} {..<n}"
proof -
  have "set axes \<subseteq> {..<n}" and "card (set axes) = n"
    using assms by (auto simp: distinct_card)
  then have "set axes = {..<n}" by (simp add: card_subset_eq)
  with assms show ?thesis by (intro bij_betw_nth) auto
qed

interpretation permuted: layout_view "\<lambda>axes l. permute l axes" "\<lambda>axes l. distinct axes" permute_coord
proof
  fix l v :: layout and axes c :: "nat list"
  assume wf: "layout_wf l" and dist: "distinct axes" and ok: "permute l axes = Ok v"
  then show "layout_wf v" by (auto simp: permute_Ok layout_wf_def)
  have n: "length axes = length (shape l)" "length (strides l) = length (shape l)"
    and lt: "\<forall>a \<in> set axes. a < length (shape l)"
    and v: "v = \<lparr>shape = map ((!) (shape l)) axes, strides = map ((!) (strides l)) axes,
      offset = offset l\<rparr>"
    using wf ok by (auto simp: permute_Ok layout_wf_def rank_def)
  have bij: "bij_betw ((!) axes) {..<length (shape l)} {..<length (shape l)}"
    using dist n(1) lt by (rule axes_bij)
  assume c: "in_bounds c (shape v)"
  have "c ! position axes d < shape l ! d" if "d < length (shape l)" for d
  proof -
    from bij that obtain i where "i < length axes" "axes ! i = d"
      using n(1) by (metis bij_betw_iff_bijections lessThan_iff)
    with c v dist show ?thesis by (auto simp: in_bounds_nth position_nth)
  qed
  then show "in_bounds (permute_coord axes l c) (shape l)"
    by (simp add: in_bounds_nth permute_coord_def rank_def)
  let ?g = "\<lambda>d. c ! position axes d * strides l ! d"
  have "(\<Sum>d < length (shape l). ?g d) = (\<Sum>i < length (shape l). ?g (axes ! i))"
    using sum.reindex_bij_betw [OF bij, of ?g] by simp
  also have "\<dots> = (\<Sum>i < length (shape l). c ! i * strides l ! (axes ! i))"
    using dist n by (intro sum.cong) (auto simp: position_nth)
  finally show "address v c = address l (permute_coord axes l c)"
    using c v n by (simp add: address_def dot_sum in_bounds_length permute_coord_def rank_def)
qed

subsection \<open>Narrowed views\<close>

fun narrow_view :: "nat \<times> nat \<times> nat \<Rightarrow> layout \<Rightarrow> (layout, 'e) outcome" where
  "narrow_view (dim, start, len) l = narrow l dim start len"

fun narrow_coord :: "nat \<times> nat \<times> nat \<Rightarrow> layout \<Rightarrow> nat list \<Rightarrow> nat list" where
  "narrow_coord (dim, start, len) l c = c[dim := c ! dim + start]"

fun narrow_admissible :: "nat \<times> nat \<times> nat \<Rightarrow> layout \<Rightarrow> bool" where
  "narrow_admissible (dim, start, len) l \<longleftrightarrow>
     start + len \<le> usize_max \<and> 0 < len \<and> 0 \<notin> set (shape l) \<and> checked_max_index l \<noteq> None"

lemma dot_update:
  "length c = length st \<Longrightarrow> i < length c \<Longrightarrow> dot (c[i := c ! i + k]) st = dot c st + k * st ! i"
proof (induction c st arbitrary: i rule: list_induct2)
  case (Cons x c s st)
  then show ?case by (cases i) (auto simp: algebra_simps)
qed simp

lemma narrow_no_wrap:
  assumes "layout_wf l" and "narrow_admissible (dim, start, len) l"
    and "dim < length (shape l)" and "start + len \<le> shape l ! dim"
  shows "offset l + start * strides l ! dim \<le> usize_max"
proof -
  have adm: "0 < len" "0 \<notin> set (shape l)" "checked_max_index l \<noteq> None"
    using assms(2) by simp_all
  let ?z = "replicate (length (shape l)) 0"
  let ?c = "?z[dim := ?z ! dim + start]"
  have st: "length (strides l) = length (shape l)" using assms(1) by (simp add: layout_wf_def)
  have "in_bounds ?c (shape l)"
    using assms(3,4) adm(1,2) by (auto simp: in_bounds_nth nth_list_update in_set_conv_nth)
  moreover have "dot ?z (strides l) = 0"
    by (simp add: dot_sum st)
  then have "address l ?c = offset l + start * strides l ! dim"
    using assms(3) st by (simp add: address_def dot_update del: nth_replicate)
  moreover obtain m where m: "checked_max_index l = Some m" using adm(3) by auto
  ultimately have "offset l + start * strides l ! dim < m"
    using checked_max_index_bound [OF assms(1) adm(2) m] by metis
  then show ?thesis using checked_max_index_le [OF m] by simp
qed

lemma narrow_Ok:
  assumes "layout_wf l" and "narrow_admissible (dim, start, len) l"
  shows "narrow l dim start len = Ok v \<longleftrightarrow>
    dim < length (shape l) \<and> start + len \<le> shape l ! dim \<and>
    v = \<lparr>shape = (shape l)[dim := len], strides = strides l,
         offset = offset l + start * strides l ! dim\<rparr>"
proof -
  have "start + len \<le> usize_max" using assms(2) by simp
  then show ?thesis
    using assms(1) narrow_no_wrap [OF assms]
    by (auto simp: narrow_def layout_wf_def)
qed

interpretation narrowed: layout_view narrow_view narrow_admissible narrow_coord
proof
  fix l v :: layout and p :: "nat \<times> nat \<times> nat" and c :: "nat list"
  obtain dim start len where p: "p = (dim, start, len)" by (cases p)
  assume wf: "layout_wf l" and adm: "narrow_admissible p l" and ok: "narrow_view p l = Ok v"
  then have v: "dim < length (shape l)" "start + len \<le> shape l ! dim"
      "v = \<lparr>shape = (shape l)[dim := len], strides = strides l,
         offset = offset l + start * strides l ! dim\<rparr>"
    using narrow_Ok [of l dim start len v] p by auto
  then show "layout_wf v" using wf by (simp add: layout_wf_def)
  assume c: "in_bounds c (shape v)"
  then show "in_bounds (narrow_coord p l c) (shape l)"
    using v p by (fastforce simp: in_bounds_nth nth_list_update)
  show "address v c = address l (narrow_coord p l c)"
    using v p c wf dot_update [of c "strides l" dim start]
    by (simp add: address_def in_bounds_length layout_wf_def)
qed

subsection \<open>Broadcast views\<close>

definition broadcast_coord :: "nat list \<Rightarrow> layout \<Rightarrow> nat list \<Rightarrow> nat list" where
  "broadcast_coord sh l c = map (\<lambda>d. if shape l ! d = 1 then 0 else c ! (length sh - rank l + d))
     [0..<rank l]"

definition broadcast_strides :: "layout \<Rightarrow> nat list \<Rightarrow> nat list" where
  "broadcast_strides l sh = map (\<lambda>j. let extra = length sh - rank l in
     if j < extra then 0
     else if shape l ! (j - extra) = 1 \<and> sh ! j \<noteq> 1 then 0 else strides l ! (j - extra))
     [0..<length sh]"

definition broadcastable :: "nat list \<Rightarrow> nat list \<Rightarrow> bool" where
  "broadcastable src dst \<longleftrightarrow> length src \<le> length dst \<and>
     (\<forall>d < length src. src ! d = dst ! (length dst - length src + d) \<or> src ! d = 1)"

definition broadcast_prefix :: "layout \<Rightarrow> nat list \<Rightarrow> nat \<Rightarrow> nat list \<Rightarrow> nat \<Rightarrow> nat list" where
  "broadcast_prefix l sh extra st n = map (\<lambda>j. if extra \<le> j \<and> j < extra + n
     then (if shape l ! (j - extra) = 1 \<and> sh ! j \<noteq> 1 then 0 else strides l ! (j - extra))
     else st ! j) [0..<length st]"

lemma broadcast_step_prefix:
  assumes "extra + n < length st"
  shows "broadcast_step l sh extra (broadcast_prefix l sh extra st n) n =
    (if shape l ! n = sh ! (extra + n) \<or> shape l ! n = 1
     then Ok (broadcast_prefix l sh extra st (Suc n)) else (Panic :: (nat list, 'e) outcome))"
proof -
  have "(broadcast_prefix l sh extra st n)
      [extra + n := (if shape l ! n = 1 \<and> sh ! (extra + n) \<noteq> 1 then 0 else strides l ! n)]
    = broadcast_prefix l sh extra st (Suc n)"
    using assms by (intro nth_equalityI) (auto simp: nth_list_update broadcast_prefix_def)
  then show ?thesis by (simp add: broadcast_step_def Let_def)
qed

lemma broadcast_fold:
  assumes "extra + n \<le> length st"
  shows "fold_outcome (broadcast_step l sh extra) st [0..<n] =
    (if \<forall>d < n. shape l ! d = sh ! (extra + d) \<or> shape l ! d = 1
     then Ok (broadcast_prefix l sh extra st n) else (Panic :: (nat list, 'e) outcome))"
  using assms
proof (induction n)
  case 0
  then show ?case by (auto intro!: nth_equalityI simp: broadcast_prefix_def)
next
  case (Suc n)
  then have "extra + n < length st" and "extra + n \<le> length st" by simp_all
  with Suc.IH show ?case
    by (auto simp: fold_outcome_append broadcast_step_prefix less_Suc_eq)
qed

lemma broadcast_to_eq:
  "broadcast_to l sh = (if broadcastable (shape l) sh
     then Ok \<lparr>shape = sh, strides = broadcast_strides l sh, offset = offset l\<rparr> else Panic)"
proof (cases "rank l \<le> length sh")
  case True
  have "broadcast_prefix l sh (length sh - length (shape l)) (replicate (length sh) 0)
      (length (shape l)) = broadcast_strides l sh"
    using True by (auto simp: broadcast_prefix_def broadcast_strides_def Let_def rank_def)
  with True show ?thesis
    by (auto simp: broadcast_to_def broadcast_fold broadcastable_def rank_def Let_def)
next
  case False
  then show ?thesis by (simp add: broadcast_to_def broadcastable_def rank_def)
qed

lemma sum_split_at: "(\<Sum>j < e + r. f j) = (\<Sum>j < e. f j) + (\<Sum>d < r. f (e + d))"
  for f :: "nat \<Rightarrow> nat"
  by (induction r) auto

interpretation broadcasted: layout_view "\<lambda>sh l. broadcast_to l sh" "\<lambda>sh l. True" broadcast_coord
proof
  fix l v :: layout and sh c :: "nat list"
  assume wf: "layout_wf l" and ok: "broadcast_to l sh = Ok v"
  then have able: "broadcastable (shape l) sh"
    and v: "v = \<lparr>shape = sh, strides = broadcast_strides l sh, offset = offset l\<rparr>"
    by (auto simp: broadcast_to_eq split: if_splits)
  then show "layout_wf v" by (simp add: layout_wf_def broadcast_strides_def)
  let ?e = "length sh - rank l"
  have len: "length sh = ?e + rank l" "length (strides l) = rank l"
    using able wf by (simp_all add: broadcastable_def rank_def layout_wf_def)
  assume c: "in_bounds c (shape v)"
  have small: "c ! (?e + d) < sh ! (?e + d)" if "d < rank l" for d
    using c v len that by (simp add: in_bounds_nth)
  show "in_bounds (broadcast_coord sh l c) (shape l)"
    using small able by (fastforce simp: in_bounds_nth broadcast_coord_def broadcastable_def rank_def)
  have "c ! (?e + d) * broadcast_strides l sh ! (?e + d) =
      broadcast_coord sh l c ! d * strides l ! d" if "d < rank l" for d
    using small [OF that] that len(1)
    by (auto simp: broadcast_strides_def broadcast_coord_def Let_def)
  then have "(\<Sum>d < rank l. c ! (?e + d) * broadcast_strides l sh ! (?e + d)) =
      (\<Sum>d < rank l. broadcast_coord sh l c ! d * strides l ! d)"
    by (intro sum.cong) auto
  moreover have "(\<Sum>j < ?e. c ! j * broadcast_strides l sh ! j) = 0"
    by (simp add: broadcast_strides_def)
  ultimately have "(\<Sum>j < length sh. c ! j * broadcast_strides l sh ! j) =
      (\<Sum>d < rank l. broadcast_coord sh l c ! d * strides l ! d)"
    using sum_split_at [of "\<lambda>j. c ! j * broadcast_strides l sh ! j" ?e "rank l"]
    unfolding len(1) [symmetric] by simp
  then show "address v c = address l (broadcast_coord sh l c)"
    using c v len(2)
    by (simp add: address_def dot_sum in_bounds_length broadcast_strides_def broadcast_coord_def)
qed

subsection \<open>The broadcast shape\<close>

definition aligned_dim :: "nat list \<Rightarrow> nat \<Rightarrow> nat \<Rightarrow> nat" where
  "aligned_dim a rnk d = (if d < rnk - length a then 1 else a ! (d - (rnk - length a)))"

lemma broadcast_shape_eq:
  "broadcast_shape a b = (let rnk = max (length a) (length b) in
     if \<forall>d < rnk. aligned_dim a rnk d = aligned_dim b rnk d \<or> aligned_dim a rnk d = 1
          \<or> aligned_dim b rnk d = 1
     then Ok (map (\<lambda>d. max (aligned_dim a rnk d) (aligned_dim b rnk d)) [0..<rnk]) else Panic)"
proof -
  define r where "r = max (length a) (length b)"
  let ?ok = "\<lambda>n. \<forall>d < n. aligned_dim a r d = aligned_dim b r d \<or> aligned_dim a r d = 1
      \<or> aligned_dim b r d = 1"
  have "fold_outcome (broadcast_dim a b r) (replicate r 1) [0..<n] =
      (if ?ok n then Ok (map (\<lambda>d. max (aligned_dim a r d) (aligned_dim b r d)) [0..<n]
          @ replicate (r - n) 1) else (Panic :: (nat list, 'e) outcome))" if "n \<le> r" for n
    using that
  proof (induction n)
    case (Suc n)
    have rep: "replicate (r - n) (1 :: nat) = 1 # replicate (r - Suc n) 1"
      using Suc.prems by (metis Suc_diff_Suc Suc_le_lessD replicate_Suc)
    have step: "broadcast_dim a b r out n =
        (if aligned_dim a r n = aligned_dim b r n \<or> aligned_dim a r n = 1 \<or> aligned_dim b r n = 1
         then Ok (out[n := max (aligned_dim a r n) (aligned_dim b r n)])
         else (Panic :: (nat list, 'e) outcome))" for out
      by (simp add: broadcast_dim_def aligned_dim_def Let_def)
    have upt: "[0..<Suc n] = [0..<n] @ [n]" by simp
    show ?case
      unfolding upt fold_outcome_append Suc.IH [OF Suc_leD [OF Suc.prems]]
      by (auto simp: less_Suc_eq step rep list_update_append simp del: One_nat_def
          replicate.simps)
  qed simp
  from this [OF order_refl] show ?thesis
    unfolding broadcast_shape_def Let_def r_def [symmetric]
    by (simp only: diff_self_eq_0 replicate_0 append_Nil2 order_refl)
qed

section \<open>Properties\<close>


definition example_layout :: layout where
  "example_layout = \<lparr>shape = [2, 3], strides = [3, 1], offset = 4\<rparr>"

lemma example_layout_wf: "layout_wf example_layout"
  by (simp add: layout_wf_def example_layout_def)

lemma example_layout_size: "checked_max_index example_layout = Some 10"
  by (simp add: checked_max_index_def example_layout_def checked_mul_def checked_add_def
      usize_max_def)

theorem checked_max_index_exact_witness:
  "checked_max_index example_layout = Some 10 \<and>
   {c. in_bounds c [2, 3]} \<subseteq> {c. address example_layout c < 10}"
  using checked_max_index_exact [OF example_layout_wf, of 10] example_layout_size
  by (auto simp: example_layout_def)

theorem contiguous_addresses_bijective_witness:
  "is_contiguous example_layout \<and>
   bij_betw (address example_layout) {c. in_bounds c [2, 3]} {4 ..< 10}"
proof -
  have c: "is_contiguous example_layout"
    by (simp add: is_contiguous_def example_layout_def numeral_2_eq_2 checked_mul_def usize_max_def)
  show ?thesis
    using contiguous_addresses_bijective [OF example_layout_wf c] c
    by (simp add: example_layout_def)
qed

theorem contiguous_correct_witness:
  "contiguous [2, 3] = (Ok \<lparr>shape = [2, 3], strides = [3, 1], offset = 0\<rparr> :: (layout, unit) outcome) \<and>
   is_contiguous \<lparr>shape = [2, 3], strides = [3, 1], offset = 0\<rparr> \<and>
   checked_max_index \<lparr>shape = [2, 3], strides = [3, 1], offset = 0\<rparr> = Some 6"
proof -
  have e: "contiguous [2, 3] = (Ok \<lparr>shape = [2, 3], strides = [3, 1], offset = 0\<rparr> :: (layout, unit) outcome)"
    by (simp add: contiguous_def numeral_2_eq_2 expect_def checked_mul_def usize_max_def)
  show ?thesis
    using contiguous_correct [OF e] e by (simp add: checked_numel_eq usize_max_def)
qed


text \<open>
  On shapes without a zero dimension the broadcast shape is what it promises: it is the same
  in both argument orders, and a layout of either shape can be broadcast to it.
\<close>

theorem broadcast_shape_accepts_both:
  assumes "0 \<notin> set a" and "0 \<notin> set b" and "broadcast_shape a b = (Ok out :: (nat list, 'e) outcome)"
  shows "broadcastable a out \<and> broadcastable b out \<and>
    broadcast_shape b a = (Ok out :: (nat list, 'e) outcome) \<and>
    (\<forall>l. shape l = a \<longrightarrow> broadcast_to l out =
       (Ok \<lparr>shape = out, strides = broadcast_strides l out, offset = offset l\<rparr> :: (layout, 'e) outcome))"
proof -
  define r where "r = max (length a) (length b)"
  have ok: "\<forall>d < r. aligned_dim a r d = aligned_dim b r d \<or> aligned_dim a r d = 1 \<or> aligned_dim b r d = 1"
    and out: "out = map (\<lambda>d. max (aligned_dim a r d) (aligned_dim b r d)) [0..<r]"
    using assms(3) by (auto simp: broadcast_shape_eq r_def Let_def split: if_splits)
  have pos: "1 \<le> aligned_dim x r d" if "0 \<notin> set x" "d < r" "length x \<le> r" for x d
    using that by (auto simp: aligned_dim_def Suc_le_eq in_set_conv_nth intro!: Nat.gr0I)
  have able: "broadcastable x out" if x: "x = a \<or> x = b" for x
  proof -
    have len: "length x \<le> r" using x by (auto simp: r_def)
    have "x ! d = out ! (r - length x + d) \<or> x ! d = 1" if d: "d < length x" for d
    proof -
      have i: "r - length x + d < r" using d len by simp
      have "aligned_dim x r (r - length x + d) = x ! d" by (simp add: aligned_dim_def)
      moreover have "1 \<le> aligned_dim a r (r - length x + d)" "1 \<le> aligned_dim b r (r - length x + d)"
        using pos assms(1,2) i by (auto simp: r_def)
      ultimately show ?thesis
        using x ok i out by (auto simp: max_def)
    qed
    then show ?thesis using len out by (simp add: broadcastable_def)
  qed
  have "broadcast_shape b a = (Ok out :: (nat list, 'e) outcome)"
    using ok out by (auto simp: broadcast_shape_eq r_def Let_def max.commute)
  with able show ?thesis by (auto simp: broadcast_to_eq)
qed

theorem broadcast_shape_accepts_both_witness:
  "broadcast_shape [2, 1, 3] [4, 3] = (Ok [2, 4, 3] :: (nat list, unit) outcome) \<and>
   broadcastable [4, 3] [2, 4, 3]"
proof -
  have e: "broadcast_shape [2, 1, 3] [4, 3] = (Ok [2, 4, 3] :: (nat list, unit) outcome)"
    by (simp add: broadcast_shape_def broadcast_dim_def Let_def numeral_3_eq_3 numeral_2_eq_2)
  show ?thesis
    using broadcast_shape_accepts_both [OF _ _ e] e by simp
qed

text \<open>
  With a zero dimension the promise fails: for shapes \<open>[0]\<close> and \<open>[1]\<close> the code answers
  \<open>[1]\<close>, where the NumPy rules the comment cites give \<open>[0]\<close>, and broadcasting the
  empty layout to the answer panics.
\<close>

theorem broadcast_shape_zero_dim:
  "broadcast_shape [0] [1] = (Ok [1] :: (nat list, unit) outcome) \<and>
   broadcast_to \<lparr>shape = [0], strides = [1], offset = 0\<rparr> [1] = (Panic :: (layout, unit) outcome)"
  by (simp add: broadcast_shape_def broadcast_dim_def broadcast_to_def broadcast_step_def
      rank_def Let_def)

text \<open>
  The bounds check of \<open>narrow\<close> is not overflow-safe: in a release build a start of
  \<open>usize::MAX\<close> with length 1 passes the check on any dimension, and the view it returns
  addresses an element outside the parent's storage.
\<close>

theorem narrow_check_wraps:
  "narrow \<lparr>shape = [4], strides = [1], offset = 0\<rparr> 0 usize_max 1 =
     (Ok \<lparr>shape = [1], strides = [1], offset = usize_max\<rparr> :: (layout, unit) outcome) \<and>
   checked_max_index \<lparr>shape = [4], strides = [1], offset = 0\<rparr> = Some 4 \<and>
   address \<lparr>shape = [1], strides = [1], offset = usize_max\<rparr> [0] = usize_max"
  by (simp add: narrow_def wrapping_add_def wrapping_mul_def usize_max_def checked_max_index_def
      checked_mul_def checked_add_def address_def)

end
