(* ===== verification/Storage.thy ===== *)
theory Storage
  imports Layout
begin

text \<open>
  Logical values and their storage (\<open>crates/runtime/src/storage.rs\<close>): representations, layout
  constraints, the canonical byte geometry of a value, and the validation of a value and of the
  buffer that backs it. The block decoders of the same file are in the theory \<open>KQuant\<close>.
\<close>

section \<open>Formats\<close>

datatype ggml_k_quant = Q2K | Q3K | Q4K | Q5K | Q6K

datatype packed_format = GgmlKQuant ggml_k_quant

definition ggml_k_block_values :: nat where
  "ggml_k_block_values = 256"

definition all_codecs :: "ggml_k_quant list" where
  "all_codecs = [Q2K, Q3K, Q4K, Q5K, Q6K]"

fun codec_name :: "ggml_k_quant \<Rightarrow> string" where
  "codec_name Q2K = ''Q2_K''"
| "codec_name Q3K = ''Q3_K''"
| "codec_name Q4K = ''Q4_K''"
| "codec_name Q5K = ''Q5_K''"
| "codec_name Q6K = ''Q6_K''"

definition codec_from_name :: "string \<Rightarrow> ggml_k_quant option" where
  "codec_from_name name =
     (if name = ''Q2_K'' then Some Q2K
      else if name = ''Q3_K'' then Some Q3K
      else if name = ''Q4_K'' then Some Q4K
      else if name = ''Q5_K'' then Some Q5K
      else if name = ''Q6_K'' then Some Q6K
      else None)"

fun block_bytes :: "ggml_k_quant \<Rightarrow> nat" where
  "block_bytes Q2K = 84"
| "block_bytes Q3K = 110"
| "block_bytes Q4K = 144"
| "block_bytes Q5K = 176"
| "block_bytes Q6K = 210"

definition encoded_row_bytes :: "ggml_k_quant \<Rightarrow> nat \<Rightarrow> nat option" where
  "encoded_row_bytes codec columns =
     (if columns \<noteq> 0 \<and> columns mod ggml_k_block_values = 0
      then checked_mul (columns div 256) (block_bytes codec) else None)"

section \<open>Values\<close>

datatype storage_representation = DenseStorage | Packed packed_format

text \<open>
  The variant \<open>BackendPrivate\<close> of the two layout types holds an enum without values: no value of it
  can be built, and it has no constructor here.
\<close>

datatype storage_layout = Unconstrained | Canonical | DenseStrided layout

datatype layout_constraint = SpecUnconstrained | SpecCanonical | SpecDenseStrided layout

record storage_metadata =
  meta_representation :: storage_representation
  meta_layout :: storage_layout

record storage_spec =
  spec_representation :: storage_representation
  spec_layout :: layout_constraint

record value_spec =
  semantic_dtype :: dtype
  logical_shape :: "nat list"
  value_storage_spec :: storage_spec

record storage_geometry =
  physical_shape :: "nat list"
  physical_dtype :: dtype
  geometry_bytes :: nat

definition metadata_dense :: storage_metadata where
  "metadata_dense = \<lparr>meta_representation = DenseStorage, meta_layout = Canonical\<rparr>"

definition metadata_unconstrained :: storage_metadata where
  "metadata_unconstrained = \<lparr>meta_representation = DenseStorage, meta_layout = Unconstrained\<rparr>"

definition metadata_packed :: "ggml_k_quant \<Rightarrow> storage_metadata" where
  "metadata_packed codec =
     \<lparr>meta_representation = Packed (GgmlKQuant codec), meta_layout = Canonical\<rparr>"

definition as_spec :: "storage_metadata \<Rightarrow> storage_spec" where
  "as_spec m = \<lparr>spec_representation = meta_representation m,
     spec_layout = (case meta_layout m of
       Unconstrained \<Rightarrow> SpecUnconstrained
     | Canonical \<Rightarrow> SpecCanonical
     | DenseStrided l \<Rightarrow> SpecDenseStrided l)\<rparr>"

definition value_dense :: "dtype \<Rightarrow> nat list \<Rightarrow> value_spec" where
  "value_dense d sh = \<lparr>semantic_dtype = d, logical_shape = sh,
     value_storage_spec = \<lparr>spec_representation = DenseStorage, spec_layout = SpecCanonical\<rparr>\<rparr>"

text \<open>The messages of the code, one constructor each, with what the message shows.\<close>

datatype storage_error =
    ElementCountOverflow
  | PackedNeedsCanonical
  | LayoutShapeDiffers
  | LayoutExtentOverflow
  | DenseStridesOverflow
  | DenseBytesOverflow
  | PackedZeroDimension
  | PackedDtype ggml_k_quant dtype
  | PackedScalar
  | PackedRowWidth ggml_k_quant nat
  | PackedBytesOverflow
  | PhysicalMismatch
  | NotCanonical
  | StridesDiffer
  | PhysicalExtentOverflow
  | ExpectedBytes nat nat
  | NotPacked
  | NotMatrix
  | UnsupportedFormat string

fun format_name :: "packed_format \<Rightarrow> string" where
  "format_name (GgmlKQuant codec) = codec_name codec"

definition format_from_name :: "string \<Rightarrow> (packed_format, storage_error) outcome" where
  "format_from_name name =
     ok_or (UnsupportedFormat name) (map_option GgmlKQuant (codec_from_name name))"

section \<open>Geometry and validation\<close>

definition checked_product :: "nat list \<Rightarrow> (nat, storage_error) outcome" where
  "checked_product sh =
     (if 0 \<in> set sh then Ok 0
      else ok_or ElementCountOverflow (fold_opt checked_mul 1 sh))"

definition dense_geometry :: "value_spec \<Rightarrow> nat \<Rightarrow> (storage_geometry, storage_error) outcome" where
  "dense_geometry v logical_elements =
     and_then (ok_or DenseStridesOverflow (fold_opt checked_mul 1 (rev (drop 1 (logical_shape v)))))
       (\<lambda>_.
     and_then (ok_or DenseBytesOverflow
         (checked_mul logical_elements (size_in_bytes (semantic_dtype v)))) (\<lambda>byte_len.
       Ok \<lparr>physical_shape = logical_shape v, physical_dtype = semantic_dtype v,
           geometry_bytes = byte_len\<rparr>))"

definition packed_geometry ::
    "value_spec \<Rightarrow> ggml_k_quant \<Rightarrow> (storage_geometry, storage_error) outcome" where
  "packed_geometry v codec =
     (if 0 \<in> set (logical_shape v) then Err PackedZeroDimension
      else if semantic_dtype v \<noteq> F32 then Err (PackedDtype codec (semantic_dtype v))
      else if logical_shape v = [] then Err PackedScalar
      else
        let columns = last (logical_shape v); leading = butlast (logical_shape v) in
        and_then (checked_product leading) (\<lambda>rows.
        and_then (ok_or (PackedRowWidth codec columns) (encoded_row_bytes codec columns))
          (\<lambda>row_bytes.
        and_then (ok_or PackedBytesOverflow (checked_mul rows row_bytes)) (\<lambda>byte_len.
          Ok \<lparr>physical_shape = [rows, row_bytes], physical_dtype = U8,
              geometry_bytes = byte_len\<rparr>))))"

definition canonical_geometry :: "value_spec \<Rightarrow> (storage_geometry, storage_error) outcome" where
  "canonical_geometry v =
     and_then (checked_product (logical_shape v)) (\<lambda>logical_elements.
       (case spec_representation (value_storage_spec v) of
          DenseStorage \<Rightarrow> dense_geometry v logical_elements
        | Packed (GgmlKQuant codec) \<Rightarrow> packed_geometry v codec))"

definition validate_value :: "value_spec \<Rightarrow> (unit, storage_error) outcome" where
  "validate_value v =
     and_then (canonical_geometry v) (\<lambda>_.
       (case (spec_representation (value_storage_spec v), spec_layout (value_storage_spec v)) of
          (Packed _, SpecCanonical) \<Rightarrow> Ok ()
        | (Packed _, _) \<Rightarrow> Err PackedNeedsCanonical
        | (DenseStorage, SpecDenseStrided l) \<Rightarrow>
            if shape l \<noteq> logical_shape v then Err LayoutShapeDiffers
            else and_then (ok_or LayoutExtentOverflow (checked_byte_size l (semantic_dtype v)))
              (\<lambda>_. Ok ())
        | (DenseStorage, _) \<Rightarrow> Ok ()))"

fun is_packed :: "storage_representation \<Rightarrow> bool" where
  "is_packed DenseStorage = False"
| "is_packed (Packed _) = True"

definition check_layout :: "layout_constraint \<Rightarrow> layout \<Rightarrow> (unit, storage_error) outcome" where
  "check_layout constraint l = (case constraint of
     SpecCanonical \<Rightarrow> if \<not> is_contiguous l \<or> offset l \<noteq> 0 then Err NotCanonical else Ok ()
   | SpecDenseStrided expected \<Rightarrow> if l \<noteq> expected then Err StridesDiffer else Ok ()
   | SpecUnconstrained \<Rightarrow> Ok ())"

definition validate_buffer ::
    "value_spec \<Rightarrow> dtype \<Rightarrow> layout \<Rightarrow> nat \<Rightarrow> (unit, storage_error) outcome" where
  "validate_buffer v dt l byte_len =
     and_then (validate_value v) (\<lambda>_.
     and_then (canonical_geometry v) (\<lambda>geometry.
       if dt \<noteq> physical_dtype geometry \<or> shape l \<noteq> physical_shape geometry
       then Err PhysicalMismatch
       else
       and_then (check_layout (spec_layout (value_storage_spec v)) l) (\<lambda>_.
       and_then (ok_or PhysicalExtentOverflow (checked_byte_size l dt)) (\<lambda>required.
         if byte_len < required \<or>
            is_packed (spec_representation (value_storage_spec v)) \<and> byte_len \<noteq> geometry_bytes geometry
         then Err (ExpectedBytes required byte_len) else Ok ()))))"

definition packed_matrix :: "value_spec \<Rightarrow> (ggml_k_quant \<times> nat \<times> nat, storage_error) outcome" where
  "packed_matrix v =
     and_then (validate_value v) (\<lambda>_.
       (case spec_representation (value_storage_spec v) of
          Packed (GgmlKQuant codec) \<Rightarrow>
            (case logical_shape v of
               [rows, columns] \<Rightarrow> Ok (codec, rows, columns)
             | _ \<Rightarrow> Err NotMatrix)
        | DenseStorage \<Rightarrow> Err NotPacked))"

section \<open>Names\<close>

lemma codec_from_name_iff [simp]: "codec_from_name name = Some c \<longleftrightarrow> name = codec_name c"
  by (cases c) (auto simp: codec_from_name_def split: if_splits)

section \<open>The geometry, read as an equation\<close>

lemma checked_product_Ok [outcome_iff]:
  "checked_product sh = Ok n \<longleftrightarrow> n = prod_list sh \<and> prod_list sh \<le> usize_max"
proof (cases "0 \<in> set sh")
  case True
  then have "prod_list sh = 0" by (simp add: prod_list_zero_iff)
  with True show ?thesis by (auto simp: checked_product_def)
next
  case False
  then show ?thesis
    by (auto simp: checked_product_def outcome_iff fold_opt_checked_mul usize_max_def split: if_splits)
qed

lemma checked_product_not_Panic [simp]: "checked_product sh \<noteq> Panic"
  by (simp add: checked_product_def outcome_iff)

lemma encoded_row_bytes_Some [checked_simps]:
  "encoded_row_bytes codec columns = Some b \<longleftrightarrow>
    0 < columns \<and> 256 dvd columns \<and> b = columns div 256 * block_bytes codec \<and> b \<le> usize_max"
  by (auto simp: encoded_row_bytes_def ggml_k_block_values_def checked_simps mod_eq_0_iff_dvd)

lemma suffix_products:
  "fold_opt checked_mul 1 (rev ds) =
    (if \<forall>k < length ds. prod_list (drop k ds) \<le> usize_max then Some (prod_list ds) else None)"
proof (induction ds)
  case (Cons d ds)
  have "(\<forall>k < length (d # ds). prod_list (drop k (d # ds)) \<le> usize_max) \<longleftrightarrow>
      d * prod_list ds \<le> usize_max \<and> (\<forall>k < length ds. prod_list (drop k ds) \<le> usize_max)"
    by (auto simp: All_less_Suc2)
  with Cons show ?case
    by (auto simp: fold_opt_append checked_mul_def mult.commute split: option.splits)
qed simp

lemma dense_strides_fit:
  "fold_opt checked_mul 1 (rev (drop 1 sh)) \<noteq> None \<longleftrightarrow> strides_fit sh (length sh)"
proof (cases sh)
  case (Cons s ds)
  have "strides_fit sh (length sh) \<longleftrightarrow> (\<forall>k < length ds. prod_list (drop (Suc k) sh) \<le> usize_max)"
    unfolding strides_fit_def Cons
    by (auto simp: gr0_conv_Suc)
  with Cons show ?thesis using suffix_products [of ds] by auto
qed simp

definition geometry_spec :: "value_spec \<Rightarrow> storage_geometry \<Rightarrow> bool" where
  "geometry_spec v g \<longleftrightarrow> (let sh = logical_shape v in
     (case spec_representation (value_storage_spec v) of
        DenseStorage \<Rightarrow>
          strides_fit sh (length sh) \<and> prod_list sh * size_in_bytes (semantic_dtype v) \<le> usize_max \<and>
          g = \<lparr>physical_shape = sh, physical_dtype = semantic_dtype v,
               geometry_bytes = prod_list sh * size_in_bytes (semantic_dtype v)\<rparr>
      | Packed (GgmlKQuant codec) \<Rightarrow>
          let rows = prod_list (butlast sh); row = last sh div 256 * block_bytes codec in
          semantic_dtype v = F32 \<and> sh \<noteq> [] \<and> 0 \<notin> set sh \<and> 256 dvd last sh \<and>
          prod_list sh \<le> usize_max \<and> rows * row \<le> usize_max \<and>
          g = \<lparr>physical_shape = [rows, row], physical_dtype = U8, geometry_bytes = rows * row\<rparr>))"

lemma prod_list_butlast_last: "sh \<noteq> [] \<Longrightarrow> prod_list sh = prod_list (butlast sh) * last sh"
  for sh :: "nat list"
  by (induction sh) auto

lemma canonical_geometry_spec: "canonical_geometry v = Ok g \<longleftrightarrow> geometry_spec v g"
proof (cases "spec_representation (value_storage_spec v)")
  case DenseStorage
  have "prod_list (logical_shape v) \<le> usize_max"
    if "prod_list (logical_shape v) * size_in_bytes (semantic_dtype v) \<le> usize_max"
  proof -
    have "prod_list (logical_shape v) * 1 \<le> prod_list (logical_shape v) * size_in_bytes (semantic_dtype v)"
      by (rule mult_le_mono2) (simp add: Suc_leI)
    with that show ?thesis by linarith
  qed
  moreover have "(\<exists>y. fold_opt checked_mul 1 (rev (drop 1 (logical_shape v))) = Some y) \<longleftrightarrow>
      strides_fit (logical_shape v) (length (logical_shape v))"
    using dense_strides_fit [of "logical_shape v"] by auto
  ultimately show ?thesis
    using DenseStorage
    by (auto simp: canonical_geometry_def dense_geometry_def geometry_spec_def outcome_iff checked_simps Let_def)
next
  case (Packed f)
  obtain codec where f: "f = GgmlKQuant codec" by (cases f)
  let ?sh = "logical_shape v"
  let ?rows = "prod_list (butlast ?sh)" and ?row = "last ?sh div 256 * block_bytes codec"
  have big: "?rows \<le> usize_max \<and> ?row \<le> usize_max"
    if "?sh \<noteq> []" "0 \<notin> set ?sh" "256 dvd last ?sh" "prod_list ?sh \<le> usize_max" "?rows * ?row \<le> usize_max"
  proof -
    have "0 \<notin> set (butlast ?sh)" using that by (auto dest: in_set_butlastD)
    moreover have "last ?sh \<noteq> 0" using that by (metis last_in_set)
    ultimately have r: "1 \<le> ?rows" "1 \<le> last ?sh" by (simp_all add: Suc_le_eq prod_list_pos)
    have "?rows * 1 \<le> ?rows * last ?sh" "1 * ?row \<le> ?rows * ?row" using r by (intro mult_le_mono; simp)+
    then show ?thesis using that prod_list_butlast_last [OF that(1)] by linarith
  qed
  have "last ?sh \<noteq> 0" if "?sh \<noteq> []" "0 \<notin> set ?sh" using that by (metis last_in_set)
  with big show ?thesis
    using Packed f
    by (auto simp: canonical_geometry_def packed_geometry_def geometry_spec_def outcome_iff checked_simps Let_def)
qed


lemma canonical_geometry_not_Panic [simp]: "canonical_geometry v \<noteq> Panic"
  by (auto simp: canonical_geometry_def dense_geometry_def packed_geometry_def outcome_iff Let_def
      split: storage_representation.splits packed_format.splits)

lemma geometry_consistent:
  assumes "geometry_spec v g"
  shows "geometry_bytes g = prod_list (physical_shape g) * size_in_bytes (physical_dtype g)"
    and "strides_fit (physical_shape g) (length (physical_shape g))"
    and "geometry_bytes g \<le> usize_max"
proof -
  have row: "b \<le> usize_max" if "a * b \<le> usize_max" "0 < a" for a b :: nat
  proof -
    have "1 * b \<le> a * b" using that(2) by (intro mult_le_mono) auto
    with that(1) show ?thesis by linarith
  qed
  have rows: "0 < prod_list (butlast sh)" if "0 \<notin> set sh" for sh :: "nat list"
    using that by (auto simp: prod_list_pos dest: in_set_butlastD)
  show "geometry_bytes g = prod_list (physical_shape g) * size_in_bytes (physical_dtype g)"
    and "geometry_bytes g \<le> usize_max"
    using assms by (auto simp: geometry_spec_def Let_def split: storage_representation.splits packed_format.splits)
  show "strides_fit (physical_shape g) (length (physical_shape g))"
    using assms
    by (auto simp: geometry_spec_def Let_def strides_fit_def less_Suc_eq intro: row [OF _ rows]
        split: storage_representation.splits packed_format.splits)
qed

lemma packed_bytes:
  assumes "geometry_spec v g" and "spec_representation (value_storage_spec v) = Packed (GgmlKQuant c)"
  shows "geometry_bytes g * 256 = prod_list (logical_shape v) * block_bytes c"
proof -
  let ?sh = "logical_shape v"
  from assms have ne: "?sh \<noteq> []" and d: "256 dvd last ?sh"
    and g: "geometry_bytes g = prod_list (butlast ?sh) * (last ?sh div 256 * block_bytes c)"
    by (auto simp: geometry_spec_def Let_def)
  from d obtain k where "last ?sh = 256 * k" ..
  then show ?thesis unfolding g prod_list_butlast_last [OF ne] by simp
qed

text \<open>
  The canonical geometry is exact. It is computed exactly when the value has one (row-major
  strides and byte length that fit \<open>usize\<close>; for a packed value positive dimensions, \<open>F32\<close>
  semantics and rows of whole blocks) and is then the one its description names; the byte length
  is that of the physical shape, and a packed value spends one block per 256 logical values.
\<close>
theorem canonical_geometry_exact:
  "(canonical_geometry v = Ok g \<longleftrightarrow> geometry_spec v g) \<and> canonical_geometry v \<noteq> Panic \<and>
   (canonical_geometry v = Ok g \<longrightarrow>
      geometry_bytes g = prod_list (physical_shape g) * size_in_bytes (physical_dtype g) \<and>
      (\<forall>c. spec_representation (value_storage_spec v) = Packed (GgmlKQuant c) \<longrightarrow>
         geometry_bytes g * 256 = prod_list (logical_shape v) * block_bytes c))"
  using canonical_geometry_spec geometry_consistent packed_bytes by (metis canonical_geometry_not_Panic)

definition packed_example :: value_spec where
  "packed_example = \<lparr>semantic_dtype = F32, logical_shape = [2, 3, 512],
     value_storage_spec = as_spec (metadata_packed Q4K)\<rparr>"

definition packed_example_geometry :: storage_geometry where
  "packed_example_geometry =
     \<lparr>physical_shape = [6, 288], physical_dtype = U8, geometry_bytes = 1728\<rparr>"

lemma packed_example_spec: "geometry_spec packed_example packed_example_geometry"
  by (simp add: geometry_spec_def packed_example_def packed_example_geometry_def as_spec_def
      metadata_packed_def usize_max_def)

lemma canonical_geometry_exact_witness:
  "canonical_geometry packed_example = Ok packed_example_geometry \<and>
   geometry_bytes packed_example_geometry * 256 = prod_list [2, 3, 512] * 144"
  using canonical_geometry_exact [of packed_example packed_example_geometry] packed_example_spec
  by (simp add: packed_example_def as_spec_def metadata_packed_def packed_example_geometry_def)

section \<open>Buffers\<close>

lemma validate_value_not_Panic [simp]: "validate_value v \<noteq> Panic"
  by (auto simp: validate_value_def outcome_iff
      split: storage_representation.splits layout_constraint.splits)

lemma check_layout_not_Panic [simp]: "check_layout k l \<noteq> Panic"
  by (auto simp: check_layout_def split: layout_constraint.splits)

lemma checked_byte_size_Some:
  "checked_byte_size l d = Some r \<longleftrightarrow>
    (\<exists>m. checked_max_index l = Some m \<and> m * size_in_bytes d \<le> usize_max \<and> r = m * size_in_bytes d)"
  by (auto simp: checked_byte_size_def checked_simps split: option.splits)

lemma validate_buffer_iff:
  "validate_buffer v dt l n = Ok () \<longleftrightarrow>
    (\<exists>g m. validate_value v = Ok () \<and> geometry_spec v g \<and> dt = physical_dtype g \<and>
       shape l = physical_shape g \<and> check_layout (spec_layout (value_storage_spec v)) l = Ok () \<and>
       checked_max_index l = Some m \<and> m * size_in_bytes dt \<le> usize_max \<and> m * size_in_bytes dt \<le> n \<and>
       (is_packed (spec_representation (value_storage_spec v)) \<longrightarrow> n = geometry_bytes g))"
  unfolding validate_buffer_def and_then_Ok ok_or_Ok if_Err_Ok canonical_geometry_spec
    checked_byte_size_Some de_Morgan_disj de_Morgan_conj not_not not_less ex_unit
  by blast

lemma validate_buffer_not_Panic: "validate_buffer v dt l n \<noteq> Panic"
  by (auto simp: validate_buffer_def outcome_iff)

lemma packed_example_valid:
  "canonical_geometry packed_example = Ok packed_example_geometry \<and> validate_value packed_example = Ok ()"
proof
  show g: "canonical_geometry packed_example = Ok packed_example_geometry"
    using packed_example_spec by (simp add: canonical_geometry_spec)
  then show "validate_value packed_example = Ok ()"
    by (simp add: validate_value_def packed_example_def as_spec_def metadata_packed_def)
qed

definition packed_example_layout :: layout where
  "packed_example_layout = \<lparr>shape = [6, 288], strides = [288, 1], offset = 0\<rparr>"

lemma packed_example_contiguous:
  "contiguous [6, 288] = (Ok packed_example_layout :: (layout, unit) outcome)"
  by (simp add: contiguous_def numeral_2_eq_2 expect_def checked_mul_def usize_max_def
      packed_example_layout_def)

text \<open>
  C27. A buffer that passes validation holds its value. Every element the layout addresses lies
  whole inside the buffer; a canonical buffer is row-major from its first byte and addresses
  each element of the physical shape once; a packed buffer has exactly the encoded length.
  Validation never panics.
\<close>
theorem validate_buffer_sound:
  assumes "layout_wf l" and "validate_buffer v dt l n = Ok ()"
  shows "(\<forall>c. in_bounds c (shape l) \<longrightarrow> (address l c + 1) * size_in_bytes dt \<le> n) \<and>
    (spec_layout (value_storage_spec v) = SpecCanonical \<longrightarrow>
       bij_betw (address l) {c. in_bounds c (shape l)} {0 ..< prod_list (shape l)}) \<and>
    (\<exists>g. canonical_geometry v = Ok g \<and> shape l = physical_shape g \<and>
      (spec_layout (value_storage_spec v) = SpecCanonical \<longrightarrow> geometry_bytes g \<le> n) \<and>
      (is_packed (spec_representation (value_storage_spec v)) \<longrightarrow> n = geometry_bytes g))"
proof -
  from assms(2) obtain g m where
    g: "geometry_spec v g" "dt = physical_dtype g" "shape l = physical_shape g"
    and lay: "check_layout (spec_layout (value_storage_spec v)) l = Ok ()"
    and m: "checked_max_index l = Some m" "m * size_in_bytes dt \<le> n"
    and packed: "is_packed (spec_representation (value_storage_spec v)) \<longrightarrow> n = geometry_bytes g"
    unfolding validate_buffer_iff by blast
  have inside: "(address l c + 1) * size_in_bytes dt \<le> n" if c: "in_bounds c (shape l)" for c
  proof -
    have "0 \<notin> set (shape l)" using c by (auto simp: in_bounds_def in_set_conv_nth dest: list_all2_nthD2)
    from checked_max_index_bound [OF assms(1) this m(1) c] have "address l c + 1 \<le> m" by simp
    then have "(address l c + 1) * size_in_bytes dt \<le> m * size_in_bytes dt" by (rule mult_le_mono1)
    with m(2) show ?thesis by linarith
  qed
  have canonical: "bij_betw (address l) {c. in_bounds c (shape l)} {0 ..< prod_list (shape l)} \<and>
      geometry_bytes g \<le> n" if "spec_layout (value_storage_spec v) = SpecCanonical"
  proof -
    from lay that have c: "is_contiguous l" "offset l = 0" by (auto simp: check_layout_def split: if_splits)
    have "m = prod_list (shape l)"
      using contiguous_size [OF assms(1) c] m(1) by (auto simp: checked_numel_eq split: if_splits)
    then show ?thesis
      using contiguous_bij [OF assms(1) c(1)] c(2) m(2) geometry_consistent(1) [OF g(1)] g(2,3) by simp
  qed
  from inside canonical g packed show ?thesis by (auto simp: canonical_geometry_spec)
qed

lemma validate_buffer_sound_witness:
  "validate_buffer packed_example U8 packed_example_layout 1728 = Ok () \<and>
   bij_betw (address packed_example_layout) {c. in_bounds c [6, 288]} {0 ..< 1728}"
proof -
  have wf: "layout_wf packed_example_layout" by (simp add: layout_wf_def packed_example_layout_def)
  have m: "checked_max_index packed_example_layout = Some 1728"
    by (simp add: checked_max_index_def packed_example_layout_def checked_mul_def checked_add_def
        usize_max_def)
  have "is_contiguous packed_example_layout"
    by (simp add: is_contiguous_def packed_example_layout_def numeral_2_eq_2 checked_mul_def usize_max_def)
  then have "check_layout (spec_layout (value_storage_spec packed_example)) packed_example_layout = Ok ()"
    by (simp add: check_layout_def packed_example_def as_spec_def metadata_packed_def packed_example_layout_def)
  then have ok: "validate_buffer packed_example U8 packed_example_layout 1728 = Ok ()"
    using packed_example_valid packed_example_spec m
    unfolding validate_buffer_iff
    by (intro exI [of _ packed_example_geometry])
       (simp add: packed_example_geometry_def packed_example_layout_def usize_max_def)
  with validate_buffer_sound [OF wf ok] show ?thesis
    by (simp add: packed_example_def as_spec_def metadata_packed_def packed_example_layout_def)
qed

text \<open>
  C28. What the program lays out itself is accepted: for a valid value without a stride constraint
  the row-major layout of the physical shape is built without a panic, and a buffer of that layout
  passes validation exactly when it is long enough (for a packed value: of the encoded length).
\<close>
theorem canonical_buffer_accepted:
  assumes "validate_value v = Ok ()" and "canonical_geometry v = Ok g"
    and "\<forall>l. spec_layout (value_storage_spec v) \<noteq> SpecDenseStrided l"
  shows "\<exists>l. contiguous (physical_shape g) = (Ok l :: (layout, 'e) outcome) \<and>
    (\<forall>n. validate_buffer v (physical_dtype g) l n = Ok () \<longleftrightarrow>
       (if is_packed (spec_representation (value_storage_spec v)) then n = geometry_bytes g
        else geometry_bytes g \<le> n))"
proof -
  from assms(2) have g: "geometry_spec v g" by (simp add: canonical_geometry_spec)
  note fit = geometry_consistent [OF g]
  have unique: "g' = g" if "geometry_spec v g'" for g'
    using g that by (metis canonical_geometry_spec outcome.inject(1))
  from fit(2) obtain l where l: "contiguous (physical_shape g) = (Ok l :: (layout, 'e) outcome)"
    by (simp add: contiguous_eq)
  note spec = contiguous_spec [OF l]
  have "prod_list (physical_shape g) * 1 \<le> prod_list (physical_shape g) * size_in_bytes (physical_dtype g)"
    by (rule mult_le_mono2) (simp add: Suc_leI)
  then have "prod_list (physical_shape g) \<le> usize_max" using fit(1,3) by linarith
  then have m: "checked_max_index l = Some (prod_list (physical_shape g))"
    using spec by (simp add: checked_numel_eq)
  have "check_layout (spec_layout (value_storage_spec v)) l = Ok ()"
    using spec assms(3) by (auto simp: check_layout_def split: layout_constraint.splits)
  then have "validate_buffer v (physical_dtype g) l n = Ok () \<longleftrightarrow>
      geometry_bytes g \<le> n \<and> (is_packed (spec_representation (value_storage_spec v)) \<longrightarrow> n = geometry_bytes g)" for n
    unfolding validate_buffer_iff using assms(1) g unique spec m fit(1,3) by (metis option.inject)
  with l show ?thesis by auto
qed

lemma canonical_buffer_accepted_witness:
  "validate_buffer packed_example U8 packed_example_layout 1728 = Ok () \<and>
   validate_buffer packed_example U8 packed_example_layout 1729 \<noteq> Ok ()"
proof -
  have "\<forall>l. spec_layout (value_storage_spec packed_example) \<noteq> SpecDenseStrided l"
    by (simp add: packed_example_def as_spec_def metadata_packed_def)
  from canonical_buffer_accepted [OF _ _ this, where 'e = unit] packed_example_valid show ?thesis
    by (simp add: packed_example_geometry_def packed_example_contiguous
        packed_example_def as_spec_def metadata_packed_def)
qed

text \<open>
  Format names round-trip: a name is accepted exactly when it is the name of a format, and
  then stands for that format alone.
\<close>
theorem format_name_roundtrip:
  "(format_from_name name = Ok f \<longleftrightarrow> name = format_name f) \<and>
   (format_from_name name = Err (UnsupportedFormat name) \<longleftrightarrow> name \<notin> codec_name ` set all_codecs)"
proof
  show "format_from_name name = Ok f \<longleftrightarrow> name = format_name f"
    by (cases f) (auto simp: format_from_name_def outcome_iff)
  have "codec_from_name name = None \<longleftrightarrow> name \<notin> codec_name ` set all_codecs"
    by (auto simp: codec_from_name_def all_codecs_def)
  then show "format_from_name name = Err (UnsupportedFormat name) \<longleftrightarrow> name \<notin> codec_name ` set all_codecs"
    by (simp add: format_from_name_def outcome_iff)
qed

end
