(* ===== verification/KQuant.thy ===== *)
theory KQuant
  imports Storage Floats
begin

unbundle bit_operations_syntax

text \<open>
  The block decoders of \<open>crates/runtime/src/storage.rs\<close>: 256 values are unpacked from the bytes of
  one GGML K-quant block. Bytes are 8-bit words; \<open>f32\<close> arithmetic is IEEE binary32 with rounding
  to nearest, ties to even.
\<close>

section \<open>Bytes\<close>

text \<open>Indexing and slicing panic out of range.\<close>

definition byte_at :: "'a list \<Rightarrow> nat \<Rightarrow> ('a, 'e) outcome" where
  "byte_at xs i = expect (nth_opt xs i)"

definition slice :: "'a list \<Rightarrow> nat \<Rightarrow> nat \<Rightarrow> ('a list, 'e) outcome" where
  "slice xs a b = expect (slice_get xs (a, b))"

definition put :: "'a list \<Rightarrow> nat \<Rightarrow> 'a \<Rightarrow> ('a list, 'e) outcome" where
  "put out i v = (if i < length out then Ok (out[i := v]) else Panic)"

text \<open>The loop \<open>for (value, q) in out[a..b].iter_mut().zip(qs) { *value = f(q) }\<close>.\<close>

definition fill_slice ::
    "'b list \<Rightarrow> nat \<Rightarrow> nat \<Rightarrow> ('a \<Rightarrow> 'b) \<Rightarrow> 'a list \<Rightarrow> ('b list, 'e) outcome" where
  "fill_slice out a b f qs =
     and_then (slice out a b) (\<lambda>dst.
       let new = map (\<lambda>(_, q). f q) (zip dst qs) in
       Ok (take a out @ new @ drop (a + length new) out))"

section \<open>Decoders\<close>

text \<open>
  The loop that normalises a subnormal fraction. It runs forever on a fraction whose bit 10 never
  comes up; \<open>None\<close> stands for that.
\<close>

partial_function (option) normalise :: "32 word \<Rightarrow> 32 word \<Rightarrow> (32 word \<times> 32 word) option" where
  "normalise fraction exponent =
     (if fraction AND 1024 = 0 then normalise (push_bit 1 fraction) (exponent - 1)
      else Some (fraction, exponent))"

definition u16_from_le_bytes :: "8 word \<Rightarrow> 8 word \<Rightarrow> 16 word" where
  "u16_from_le_bytes a b = ucast a OR push_bit 8 (ucast b)"

definition fp16_bits :: "16 word \<Rightarrow> 32 word option" where
  "fp16_bits bits =
     (let sign = push_bit 16 (ucast (bits AND 0x8000) :: 32 word);
          exponent = drop_bit 10 bits AND 31;
          fraction = ucast (bits AND 1023) :: 32 word in
      if exponent = 0 then
        (if fraction = 0 then Some sign
         else map_option (\<lambda>(fraction, exponent).
           sign OR push_bit 23 exponent OR push_bit 13 (fraction AND 1023)) (normalise fraction 113))
      else if exponent = 31 then Some (sign OR 0x7f800000 OR push_bit 13 fraction)
      else Some (sign OR push_bit 23 (ucast exponent + 112) OR push_bit 13 fraction))"

definition fp16_at :: "8 word list \<Rightarrow> nat \<Rightarrow> (f32, 'e) outcome" where
  "fp16_at block at =
     and_then (byte_at block at) (\<lambda>lo.
     and_then (byte_at block (at + 1)) (\<lambda>hi.
     and_then (expect (fp16_bits (u16_from_le_bytes lo hi))) (\<lambda>encoded.
       Ok (f32_from_bits encoded))))"

definition scale_min_k4 :: "nat \<Rightarrow> 8 word list \<Rightarrow> (8 word \<times> 8 word, 'e) outcome" where
  "scale_min_k4 index scales =
     (if index < 4 then
        and_then (byte_at scales index) (\<lambda>a.
        and_then (byte_at scales (index + 4)) (\<lambda>b. Ok (a AND 63, b AND 63)))
      else
        and_then (byte_at scales (index + 4)) (\<lambda>a.
        and_then (byte_at scales (index - 4)) (\<lambda>b.
        and_then (byte_at scales index) (\<lambda>c.
          Ok ((a AND 0x0f) OR push_bit 4 (drop_bit 6 b), drop_bit 4 a OR push_bit 4 (drop_bit 6 c))))))"

definition u8_f32 :: "8 word \<Rightarrow> f32" where
  "u8_f32 w = f32_of_int (uint w)"

datatype decode_error = BlockLength ggml_k_quant nat nat

text \<open>
  Each decoder is its outer loop over a definition for the body of its inner loops. The pair
  \<open>(out, grp)\<close> is the output with the group counter of the code.
\<close>

definition q2_group ::
    "f32 \<Rightarrow> f32 \<Rightarrow> 8 word list \<Rightarrow> 8 word list \<Rightarrow> nat \<Rightarrow> f32 list \<times> nat \<Rightarrow> nat
      \<Rightarrow> (f32 list \<times> nat, decode_error) outcome" where
  "q2_group d dmin scales q shift og q_offset = (case og of (out, grp) \<Rightarrow>
     and_then (byte_at scales grp) (\<lambda>scale.
     let dl = f32_mul d (u8_f32 (scale AND 0x0f)); ml = f32_mul dmin (u8_f32 (drop_bit 4 scale)) in
     and_then (slice q q_offset (q_offset + 16)) (\<lambda>qs.
     and_then (fill_slice out (grp * 16) (grp * 16 + 16)
         (\<lambda>quant. f32_sub (f32_mul dl (u8_f32 (drop_bit shift quant AND 3))) ml) qs)
       (\<lambda>out'. Ok (out', grp + 1)))))"

definition decode_q2_k :: "8 word list \<Rightarrow> f32 list \<Rightarrow> (f32 list, decode_error) outcome" where
  "decode_q2_k block output =
     and_then (slice block 0 16) (\<lambda>scales.
     and_then (slice block 16 80) (\<lambda>quants.
     and_then (fp16_at block 80) (\<lambda>d.
     and_then (fp16_at block 82) (\<lambda>dmin.
     and_then (fold_outcome (\<lambda>og half.
       and_then (slice quants (half * 32) (half * 32 + 32)) (\<lambda>q.
       fold_outcome (\<lambda>og shift. fold_outcome (q2_group d dmin scales q shift) og [0, 16]) og [0, 2, 4, 6]))
       (output, 0) [0..<2])
     (\<lambda>(out, _). Ok out)))))"

definition q3_scale :: "8 word list \<Rightarrow> nat \<Rightarrow> (int, decode_error) outcome" where
  "q3_scale packed_scales grp =
     and_then (if grp < 8 then and_then (byte_at packed_scales grp) (\<lambda>b. Ok (b AND 0x0f))
               else and_then (byte_at packed_scales (grp - 8)) (\<lambda>b. Ok (drop_bit 4 b))) (\<lambda>low.
     and_then (byte_at packed_scales (8 + grp mod 4)) (\<lambda>b.
       let high = drop_bit (2 * (grp div 4)) b AND 3 in
       Ok (uint (low OR push_bit 4 high) - 32)))"

definition q3_value_at ::
    "f32 \<Rightarrow> 8 word list \<Rightarrow> 8 word list \<Rightarrow> nat \<Rightarrow> 8 word \<Rightarrow> nat \<Rightarrow> nat \<Rightarrow> f32 list \<Rightarrow> nat
      \<Rightarrow> (f32 list, decode_error) outcome" where
  "q3_value_at dl hmask q shift msk grp q_offset out index =
     and_then (byte_at q (q_offset + index)) (\<lambda>b.
     and_then (byte_at hmask (q_offset + index)) (\<lambda>h.
     let low_quant = uint (drop_bit shift b AND 3);
         high_quant = (if h AND msk = 0 then 4 else 0) in
     put out (grp * 16 + index) (f32_mul dl (f32_of_int (low_quant - high_quant)))))"

definition q3_group ::
    "f32 \<Rightarrow> 8 word list \<Rightarrow> 8 word list \<Rightarrow> 8 word list \<Rightarrow> nat \<Rightarrow> 8 word \<Rightarrow> f32 list \<times> nat \<Rightarrow> nat
      \<Rightarrow> (f32 list \<times> nat, decode_error) outcome" where
  "q3_group d hmask packed_scales q shift msk og q_offset = (case og of (out, grp) \<Rightarrow>
     and_then (q3_scale packed_scales grp) (\<lambda>scale.
     let dl = f32_mul d (f32_of_int scale) in
     and_then (slice out (grp * 16) (grp * 16 + 16)) (\<lambda>_.
     and_then (fold_outcome (q3_value_at dl hmask q shift msk grp q_offset) out [0..<16])
       (\<lambda>out'. Ok (out', grp + 1)))))"

definition decode_q3_k :: "8 word list \<Rightarrow> f32 list \<Rightarrow> (f32 list, decode_error) outcome" where
  "decode_q3_k block output =
     and_then (slice block 0 32) (\<lambda>hmask.
     and_then (slice block 32 96) (\<lambda>quants.
     and_then (slice block 96 108) (\<lambda>packed_scales.
     and_then (fp16_at block 108) (\<lambda>d.
     and_then (fold_outcome (\<lambda>og half.
       and_then (slice quants (half * 32) (half * 32 + 32)) (\<lambda>q.
       fold_outcome (\<lambda>og lane.
         let shift = lane * 2; msk = push_bit (half * 4 + lane) (1 :: 8 word) in
         fold_outcome (q3_group d hmask packed_scales q shift msk) og [0, 16]) og [0..<4]))
       (output, 0) [0..<2])
     (\<lambda>(out, _). Ok out)))))"

definition q4_side ::
    "f32 \<Rightarrow> f32 \<Rightarrow> 8 word list \<Rightarrow> 8 word list \<Rightarrow> nat \<Rightarrow> f32 list \<Rightarrow> nat
      \<Rightarrow> (f32 list, decode_error) outcome" where
  "q4_side d dmin scales q pair out side =
     (let grp = pair * 2 + side in
      and_then (scale_min_k4 grp scales) (\<lambda>(scale, mn).
      let dl = f32_mul d (u8_f32 scale); ml = f32_mul dmin (u8_f32 mn) in
      fill_slice out (grp * 32) (grp * 32 + 32) (\<lambda>quant.
        let quant = (if side = 0 then quant AND 0x0f else drop_bit 4 quant) in
        f32_sub (f32_mul dl (u8_f32 quant)) ml) q))"

definition decode_q4_k :: "8 word list \<Rightarrow> f32 list \<Rightarrow> (f32 list, decode_error) outcome" where
  "decode_q4_k block output =
     and_then (fp16_at block 0) (\<lambda>d.
     and_then (fp16_at block 2) (\<lambda>dmin.
     and_then (slice block 4 16) (\<lambda>scales.
     and_then (slice block 16 144) (\<lambda>quants.
     fold_outcome (\<lambda>out pair.
       and_then (slice quants (pair * 32) (pair * 32 + 32)) (\<lambda>q.
       fold_outcome (q4_side d dmin scales q pair) out [0..<2])) output [0..<4]))))"

definition q5_value_at ::
    "f32 \<Rightarrow> f32 \<Rightarrow> 8 word list \<Rightarrow> 8 word list \<Rightarrow> 8 word list \<Rightarrow> nat \<Rightarrow> nat \<Rightarrow> f32 list \<Rightarrow> nat
      \<Rightarrow> (f32 list, decode_error) outcome" where
  "q5_value_at dl ml high ql masks side grp out index =
     and_then (byte_at ql index) (\<lambda>b.
     and_then (byte_at high index) (\<lambda>h.
     let low_quant = (if side = 0 then b AND 0x0f else drop_bit 4 b);
         quant = low_quant + (if h AND masks ! side = 0 then 0 else 16) in
     put out (grp * 32 + index) (f32_sub (f32_mul dl (u8_f32 quant)) ml)))"

definition q5_side ::
    "f32 \<Rightarrow> f32 \<Rightarrow> 8 word list \<Rightarrow> 8 word list \<Rightarrow> 8 word list \<Rightarrow> nat \<Rightarrow> f32 list \<Rightarrow> nat
      \<Rightarrow> (f32 list, decode_error) outcome" where
  "q5_side d dmin scales high ql pair out side =
     (let masks = [push_bit (pair * 2) (1 :: 8 word), push_bit (pair * 2 + 1) 1];
          grp = pair * 2 + side in
      and_then (scale_min_k4 grp scales) (\<lambda>(scale, mn).
      let dl = f32_mul d (u8_f32 scale); ml = f32_mul dmin (u8_f32 mn) in
      and_then (slice out (grp * 32) (grp * 32 + 32)) (\<lambda>_.
      fold_outcome (q5_value_at dl ml high ql masks side grp) out [0..<32])))"

definition decode_q5_k :: "8 word list \<Rightarrow> f32 list \<Rightarrow> (f32 list, decode_error) outcome" where
  "decode_q5_k block output =
     and_then (fp16_at block 0) (\<lambda>d.
     and_then (fp16_at block 2) (\<lambda>dmin.
     and_then (slice block 4 16) (\<lambda>scales.
     and_then (slice block 16 48) (\<lambda>high.
     and_then (slice block 48 176) (\<lambda>low.
     fold_outcome (\<lambda>out pair.
       and_then (slice low (pair * 32) (pair * 32 + 32)) (\<lambda>ql.
       fold_outcome (q5_side d dmin scales high ql pair) out [0..<2])) output [0..<4])))))"

definition q6_quarter ::
    "f32 \<Rightarrow> 8 word list \<Rightarrow> nat \<Rightarrow> nat \<Rightarrow> f32 list \<Rightarrow> nat \<times> 8 word
      \<Rightarrow> (f32 list, decode_error) outcome" where
  "q6_quarter d block half index out qq = (case qq of (quarter, quant) \<Rightarrow>
     let scale_lane = index div 16; scale_index = half * 8 + scale_lane + quarter * 2 in
     and_then (byte_at block (192 + scale_index)) (\<lambda>b.
     let scale = sint b; quant = uint quant - 32 in
     put out (half * 128 + quarter * 32 + index)
       (f32_mul (f32_mul d (f32_of_int scale)) (f32_of_int quant))))"

definition q6_index ::
    "f32 \<Rightarrow> 8 word list \<Rightarrow> 8 word list \<Rightarrow> 8 word list \<Rightarrow> nat \<Rightarrow> f32 list \<Rightarrow> nat
      \<Rightarrow> (f32 list, decode_error) outcome" where
  "q6_index d block ql qh half out index =
     and_then (byte_at ql index) (\<lambda>l0.
     and_then (byte_at ql (index + 32)) (\<lambda>l1.
     and_then (byte_at qh index) (\<lambda>h.
     let quants = [(l0 AND 0x0f) OR push_bit 4 (drop_bit 0 h AND 3),
                   (l1 AND 0x0f) OR push_bit 4 (drop_bit 2 h AND 3),
                   drop_bit 4 l0 OR push_bit 4 (drop_bit 4 h AND 3),
                   drop_bit 4 l1 OR push_bit 4 (drop_bit 6 h AND 3)] in
     fold_outcome (q6_quarter d block half index) out (enumerate 0 quants))))"

definition decode_q6_k :: "8 word list \<Rightarrow> f32 list \<Rightarrow> (f32 list, decode_error) outcome" where
  "decode_q6_k block output =
     and_then (slice block 0 128) (\<lambda>low.
     and_then (slice block 128 192) (\<lambda>high.
     and_then (fp16_at block 208) (\<lambda>d.
     fold_outcome (\<lambda>out half.
       and_then (slice low (half * 64) (half * 64 + 64)) (\<lambda>ql.
       and_then (slice high (half * 32) (half * 32 + 32)) (\<lambda>qh.
       fold_outcome (q6_index d block ql qh half) out [0..<32]))) output [0..<2])))"

definition decode_ggml_k_block ::
    "ggml_k_quant \<Rightarrow> 8 word list \<Rightarrow> f32 list \<Rightarrow> (f32 list, decode_error) outcome" where
  "decode_ggml_k_block codec block output =
     (let expected = block_bytes codec in
      if length block \<noteq> expected then Err (BlockLength codec (length block) expected)
      else (case codec of
          Q2K \<Rightarrow> decode_q2_k block output
        | Q3K \<Rightarrow> decode_q3_k block output
        | Q4K \<Rightarrow> decode_q4_k block output
        | Q5K \<Rightarrow> decode_q5_k block output
        | Q6K \<Rightarrow> decode_q6_k block output))"

section \<open>Half precision\<close>

definition half_value :: "16 word \<Rightarrow> f32" where
  "half_value w =
     (let s = bit w 15; e = unat (take_bit 5 (drop_bit 10 w)); m = unat (take_bit 10 w) in
      if e = 31 then (if m = 0 then Infinite s else NaN)
      else if e = 0 then Finite s (m * 2 ^ 125)
      else Finite s ((2 ^ 10 + m) * 2 ^ (e - 1) * 2 ^ 125))"

definition assembled :: "16 word \<Rightarrow> 32 word \<Rightarrow> 32 word \<Rightarrow> 32 word" where
  "assembled bits e f = push_bit 16 (ucast (bits AND 0x8000)) OR push_bit 23 e OR push_bit 13 f"

lemma unat_push_bit:
  "unat w * 2 ^ n < 2 ^ LENGTH('a) \<Longrightarrow> unat (push_bit n w) = unat w * 2 ^ n" for w :: "'a :: len word"
  by (subst unsigned_push_bit_eq) (simp add: take_bit_eq_mod push_bit_eq_mult)

lemma take_bit_self: "unat w < 2 ^ n \<Longrightarrow> take_bit n w = w" for w :: "'a :: len word"
  by (metis unsigned_take_bit_eq take_bit_nat_eq_self_iff unsigned_word_eqI)

lemma and_15: "(x :: 16 word) AND 0x8000 = push_bit 15 (of_bool (bit x 15))"
proof -
  have e: "(0x8000 :: 16 word) = 2 ^ 15" by simp
  show ?thesis
    by (rule bit_word_eqI, unfold e bit_and_iff bit_exp_iff)
       (auto simp: bit_simps dest: le_imp_less_or_eq)
qed

lemma sign_bit: "bit (push_bit 16 (ucast (bits AND (0x8000 :: 16 word))) :: 32 word) n \<longleftrightarrow> n = 31 \<and> bit bits 15"
  unfolding and_15 by (auto simp: bit_simps)

lemma assembled_fields:
  "bit (assembled bits (take_bit 8 e) (take_bit 10 f)) 31 \<longleftrightarrow> bit bits 15"
  "take_bit 8 (drop_bit 23 (assembled bits (take_bit 8 e) (take_bit 10 f))) = take_bit 8 e"
  "take_bit 23 (assembled bits (take_bit 8 e) (take_bit 10 f)) = push_bit 13 (take_bit 10 f)"
proof -
  have e31: "bit (take_bit 8 e) 8 \<longleftrightarrow> False" by (simp add: bit_simps)
  show "bit (assembled bits (take_bit 8 e) (take_bit 10 f)) 31 \<longleftrightarrow> bit bits 15"
    unfolding assembled_def bit_or_iff sign_bit by (simp add: bit_simps)
  show "take_bit 8 (drop_bit 23 (assembled bits (take_bit 8 e) (take_bit 10 f))) = take_bit 8 e"
    by (rule bit_word_eqI, unfold assembled_def bit_take_bit_iff bit_drop_bit_eq o_def bit_or_iff sign_bit)
       (auto simp: bit_simps)
  show "take_bit 23 (assembled bits (take_bit 8 e) (take_bit 10 f)) = push_bit 13 (take_bit 10 f)"
    by (rule bit_word_eqI, unfold assembled_def bit_take_bit_iff bit_or_iff sign_bit)
       (auto simp: bit_simps)
qed

lemma assembled_value:
  assumes "unat e < 256" and "unat f < 1024"
  shows "f32_from_bits (assembled bits e f) =
    (if unat e = 255 then (if unat f = 0 then Infinite (bit bits 15) else NaN)
     else if unat e = 0 then Finite (bit bits 15) (unat f * 2 ^ 13)
     else Finite (bit bits 15) ((2 ^ 10 + unat f) * 2 ^ (unat e + 12)))"
proof -
  have e: "take_bit 8 e = e" and f: "take_bit 10 f = f"
    using assms by (simp_all add: take_bit_self)
  have "unat (push_bit 13 f) = unat f * 2 ^ 13"
    using assms(2) by (simp add: unat_push_bit)
  moreover have "(2 ^ 23 + m * 2 ^ 13) * 2 ^ (k - 1) = (2 ^ 10 + m) * (2 ^ (k + 12) :: nat)" if "k \<noteq> 0" for m k
    using that by (cases k) (simp_all add: power_add algebra_simps)
  ultimately show ?thesis
    using assembled_fields [of bits e f] unfolding e f
    by (simp add: f32_from_bits_def Let_def)
qed

lemma and_1024: "unat f < 2 ^ 11 \<Longrightarrow> f AND 1024 = 0 \<longleftrightarrow> unat f < 2 ^ 10" for f :: "32 word"
proof -
  assume f: "unat f < 2 ^ 11"
  have "f AND 1024 = 0 \<longleftrightarrow> \<not> bit f 10" using and_exp_eq_0_iff_not_bit [of f 10] by simp
  also have "\<dots> \<longleftrightarrow> even (unat f div 2 ^ 10)" using bit_unsigned_iff [of f 10, where 'a = nat] by (simp add: bit_iff_odd)
  also have "\<dots> \<longleftrightarrow> unat f < 2 ^ 10"
  proof -
    have "unat f div 2 ^ 10 < 2" using f by (simp add: div_less_iff_less_mult)
    then have "unat f div 2 ^ 10 = 0 \<or> unat f div 2 ^ 10 = 1" by linarith
    then show ?thesis by (auto simp: div_eq_0_iff)
  qed
  finally show ?thesis .
qed

lemma normalise_shift:
  assumes "2 ^ 10 \<le> unat f * 2 ^ k" and "unat f * 2 ^ k < 2 ^ 11"
  shows "normalise f e = Some (push_bit k f, e - of_nat k)"
  using assms
proof (induction k arbitrary: f e)
  case 0
  then show ?case using and_1024 [of f] by (subst normalise.simps) simp
next
  case (Suc k)
  have "unat f * 2 \<le> unat f * 2 ^ Suc k" by simp
  from this Suc.prems(2) have "unat f * 2 < 2 ^ 11" by (rule order.strict_trans1)
  then have small: "unat f < 2 ^ 10" by simp
  then have u: "unat (push_bit 1 f) = unat f * 2" using unat_push_bit [of f 1] by simp
  have "normalise (push_bit 1 f) (e - 1) = Some (push_bit k (push_bit 1 f), e - 1 - of_nat k)"
    by (rule Suc.IH) (use Suc.prems u in \<open>simp_all add: mult.assoc\<close>)
  moreover have "f AND 1024 = 0" using and_1024 [of f] small by simp
  ultimately show ?case by (subst normalise.simps) (simp add: algebra_simps)
qed

lemma shift_exists:
  assumes "0 < n" and "n < 2 ^ 10"
  shows "\<exists>k \<le> 10. 2 ^ 10 \<le> n * 2 ^ k \<and> n * 2 ^ k < (2 ^ 11 :: nat)"
proof -
  from assms(1) obtain j where j: "2 ^ j \<le> n" "n < 2 ^ (j + 1)"
    using ex_power_ivl1 [of 2 n] by auto
  have "2 ^ j < (2 ^ 10 :: nat)" using j(1) assms(2) by linarith
  then have "j < 10" using power_less_imp_less_exp [of "2 :: nat" j 10] by simp
  then have "2 ^ j * 2 ^ (10 - j) = (2 ^ 10 :: nat)" "2 ^ (j + 1) * 2 ^ (10 - j) = (2 ^ 11 :: nat)"
    by (simp_all add: power_add [symmetric])
  with j have "2 ^ 10 \<le> n * 2 ^ (10 - j)" "n * 2 ^ (10 - j) < 2 ^ 11"
    by (metis mult_le_mono1, metis mult_less_cancel2 zero_less_numeral zero_less_power)
  then show ?thesis by (intro exI [of _ "10 - j"]) simp
qed

lemma half_fields:
  "bits AND 31 = take_bit 5 bits" "bits AND 1023 = take_bit 10 bits" for bits :: "16 word"
proof -
  have m: "(31 :: 16 word) = mask 5" "(1023 :: 16 word) = mask 10" by (simp_all add: mask_eq_exp_minus_1)
  show "bits AND 31 = take_bit 5 bits" "bits AND 1023 = take_bit 10 bits"
    unfolding m by (simp_all add: take_bit_eq_mask)
qed

lemma and_1023: "f AND 1023 = take_bit 10 f" for f :: "32 word"
proof -
  have "(1023 :: 32 word) = mask 10" by (simp add: mask_eq_exp_minus_1)
  then show ?thesis by (simp add: take_bit_eq_mask)
qed

lemma fp16_bits_value:
  "\<exists>w. fp16_bits bits = Some w \<and> f32_from_bits w = half_value bits"
proof -
  define e where "e = take_bit 5 (drop_bit 10 bits)"
  define m where "m = take_bit 10 bits"
  have ue: "unat e < 32" unfolding e_def unsigned_take_bit_eq using take_bit_nat_less_exp [of 5] by simp
  have um: "unat m < 1024" unfolding m_def unsigned_take_bit_eq using take_bit_nat_less_exp [of 10] by simp
  define f where "f = (ucast m :: 32 word)"
  have uf: "unat f = unat m" unfolding f_def unsigned_ucast_eq using um by (simp add: take_bit_nat_eq_self)
  have zero: "e = 0 \<longleftrightarrow> unat e = 0" "f = 0 \<longleftrightarrow> unat m = 0" "e = 31 \<longleftrightarrow> unat e = 31"
    using word_unat_eq_iff [of e 31] by (simp_all add: unat_eq_0 flip: uf)
  have eq: "fp16_bits bits = (if e = 0 then
        (if f = 0 then Some (assembled bits 0 0)
         else map_option (\<lambda>(f', e'). assembled bits e' (take_bit 10 f')) (normalise f 113))
      else if e = 31 then Some (assembled bits 255 f)
      else Some (assembled bits (ucast e + 112) f))"
    unfolding fp16_bits_def Let_def half_fields assembled_def and_1023 e_def m_def f_def
    by (simp add: push_bit_eq_mult)
  note half = half_value_def [of bits, folded e_def m_def, unfolded Let_def]
  consider "e = 0" "f = 0" | "e = 0" "f \<noteq> 0" | "e = 31" | "e \<noteq> 0" "e \<noteq> 31" by blast
  then show ?thesis
  proof cases
    case 1
    then show ?thesis using assembled_value [of 0 0 bits] zero unfolding eq half by simp
  next
    case 2
    from 2(2) um zero obtain k where k: "k \<le> 10" "2 ^ 10 \<le> unat f * 2 ^ k" "unat f * 2 ^ k < 2 ^ 11"
      using shift_exists [of "unat f"] uf by auto
    have "unat (of_nat k :: 32 word) = k" using k(1) by (simp add: unat_of_nat)
    then have ue': "unat (113 - of_nat k :: 32 word) = 113 - k" using k(1) by (simp add: unat_sub_if')
    have "unat (push_bit k f) = unat f * 2 ^ k" using k(3) by (simp add: unat_push_bit)
    then have uf': "unat (take_bit 10 (push_bit k f)) = unat f * 2 ^ k - 2 ^ 10"
      using k(2,3) unfolding unsigned_take_bit_eq by (simp add: take_bit_eq_mod mod_if)
    have "f32_from_bits (assembled bits (113 - of_nat k) (take_bit 10 (push_bit k f))) =
        Finite (bit bits 15) (unat f * 2 ^ k * 2 ^ (113 - k + 12))"
      using assembled_value [of "113 - of_nat k" "take_bit 10 (push_bit k f)" bits] ue' uf' k
      by simp
    also have "unat f * 2 ^ k * 2 ^ (113 - k + 12) = unat f * 2 ^ 125"
      using k(1) by (simp add: mult.assoc flip: power_add)
    finally show ?thesis
      using 2 zero normalise_shift [OF k(2,3), of 113] unfolding eq half by (simp add: uf)
  next
    case 3
    then show ?thesis using assembled_value [of 255 f bits] zero uf um unfolding eq half by simp
  next
    case 4
    have "unat (ucast e + 112 :: 32 word) = unat e + 112"
      using ue by (subst unat_add_lem [THEN iffD1]) (simp_all add: unsigned_ucast_eq take_bit_nat_eq_self)
    moreover have "unat e \<noteq> 0" "unat e \<noteq> 31" using 4 zero by auto
    moreover have "2 ^ (124 + unat e) = (2 ^ (unat e - 1) * 2 ^ 125 :: nat)"
      using \<open>unat e \<noteq> 0\<close> by (cases "unat e") (simp_all add: power_add)
    ultimately show ?thesis
      using 4 assembled_value [of "ucast e + 112" f bits] ue uf um unfolding eq half by simp
  qed
qed

definition half_at :: "8 word list \<Rightarrow> nat \<Rightarrow> f32" where
  "half_at block at = half_value (u16_from_le_bytes (block ! at) (block ! (at + 1)))"

lemma byte_at_eq: "byte_at xs i = (if i < length xs then Ok (xs ! i) else Panic)"
  by (simp add: byte_at_def expect_def nth_opt_def)

lemma slice_eq:
  "slice xs a b = (if a \<le> b \<and> b \<le> length xs then Ok (take (b - a) (drop a xs)) else Panic)"
  by (simp add: slice_def slice_get_def expect_def)

lemma fp16_at_eq:
  "fp16_at block at = (if at + 1 < length block then Ok (half_at block at) else Panic)"
proof (cases "at + 1 < length block")
  case True
  from fp16_bits_value obtain w where
    "fp16_bits (u16_from_le_bytes (block ! at) (block ! (at + 1))) = Some w"
    "f32_from_bits w = half_value (u16_from_le_bytes (block ! at) (block ! (at + 1)))" by blast
  with True show ?thesis by (simp add: fp16_at_def byte_at_eq expect_def half_at_def)
next
  case False
  then show ?thesis by (cases "at < length block") (simp_all add: fp16_at_def byte_at_eq)
qed

section \<open>Loops that fill the output\<close>

text \<open>The first \<open>m\<close> values of an output of 256 are those of \<open>r\<close>.\<close>

definition prefix_done :: "(nat \<Rightarrow> f32) \<Rightarrow> nat \<Rightarrow> f32 list \<Rightarrow> bool" where
  "prefix_done r m out \<longleftrightarrow> length out = 256 \<and> (\<forall>i < m. out ! i = r i)"

lemma prefix_done_all: "prefix_done r 256 out \<longleftrightarrow> out = map r [0..<256]"
  by (auto simp: prefix_done_def intro: nth_equalityI)

lemma fold_outcome_progress:
  assumes "P 0 s"
    and "\<And>k s. k < length xs \<Longrightarrow> P k s \<Longrightarrow> \<exists>s'. f s (xs ! k) = Ok s' \<and> P (Suc k) s'"
  shows "\<exists>s'. fold_outcome f s xs = Ok s' \<and> P (length xs) s'"
  using assms
proof (induction xs arbitrary: P s)
  case (Cons x xs)
  from Cons.prems(2) [of 0 s] Cons.prems(1) obtain s' where s': "f s x = Ok s'" "P (Suc 0) s'" by auto
  have "\<exists>t. fold_outcome f s' xs = Ok t \<and> P (Suc (length xs)) t"
  proof (rule Cons.IH [where P = "\<lambda>k. P (Suc k)"])
    show "P (Suc 0) s'" by (rule s'(2))
    show "\<exists>t'. f t (xs ! k) = Ok t' \<and> P (Suc (Suc k)) t'" if "k < length xs" "P (Suc k) t" for k t
      using Cons.prems(2) [of "Suc k" t] that by simp
  qed
  with s'(1) show ?case by simp
qed auto

lemma fill_slice_prefix:
  assumes "prefix_done r a out" and "b \<le> 256" and "length qs = b - a" and "a \<le> b"
    and "\<And>j. j < b - a \<Longrightarrow> f (qs ! j) = r (a + j)"
  shows "\<exists>out'. fill_slice out a b f qs = Ok out' \<and> prefix_done r b out'"
proof -
  let ?new = "map (\<lambda>(_, q). f q) (zip (take (b - a) (drop a out)) qs)"
  have len: "length out = 256" "length ?new = b - a" using assms by (simp_all add: prefix_done_def)
  have "fill_slice out a b f qs = Ok (take a out @ ?new @ drop b out)"
    using len assms by (simp add: fill_slice_def slice_eq Let_def)
  moreover have "(take a out @ ?new @ drop b out) ! i = r i" if "i < b" for i
  proof (cases "i < a")
    case True
    then show ?thesis using assms(1,2,4) len by (simp add: nth_append prefix_done_def)
  next
    case False
    have j: "i - a < b - a" using that False by linarith
    then have "?new ! (i - a) = r (a + (i - a))" using len assms(3,5) by simp
    then show ?thesis using False len j assms by (simp add: nth_append)
  qed
  ultimately show ?thesis using len assms by (auto simp: prefix_done_def)
qed

lemma put_prefix:
  "prefix_done r i out \<Longrightarrow> i < 256 \<Longrightarrow> v = r i \<Longrightarrow>
    \<exists>out'. put out i v = Ok out' \<and> prefix_done r (Suc i) out'"
  by (auto simp: put_def prefix_done_def nth_list_update less_Suc_eq)

unbundle bit_operations_syntax

section \<open>The decoders, read as formulas\<close>

text \<open>
  What value \<open>i\<close> of a block is, from the bytes that hold it: the low code bits, the high code bits,
  the scale and, where the format has one, the minimum of its group.
\<close>

definition q2_value :: "8 word list \<Rightarrow> nat \<Rightarrow> f32" where
  "q2_value block i =
     (let scale = block ! (i div 16);
          quant = drop_bit (2 * (i mod 128 div 32)) (block ! (16 + 32 * (i div 128) + i mod 32)) AND 3 in
      f32_sub (f32_mul (f32_mul (half_at block 80) (u8_f32 (scale AND 0x0f))) (u8_f32 quant))
        (f32_mul (half_at block 82) (u8_f32 (drop_bit 4 scale))))"

text \<open>The counter of the code and the output it has filled, 16 values a group.\<close>

definition groups_done :: "(nat \<Rightarrow> f32) \<Rightarrow> nat \<Rightarrow> f32 list \<times> nat \<Rightarrow> bool" where
  "groups_done r n og \<longleftrightarrow> snd og = n \<and> prefix_done r (n * 16) (fst og)"

lemma upt_two: "[0..<2] = [0, 1 :: nat]"
  by (simp add: upt_rec)

lemma groups_done_start: "length output = 256 \<Longrightarrow> groups_done r 0 (output, 0)"
  by (simp add: groups_done_def prefix_done_def)

text \<open>The three nested loops over halves, lanes and 16-value groups that two formats share.\<close>

lemma group_loops:
  assumes body: "\<And>half lane k og. half < 2 \<Longrightarrow> lane < 4 \<Longrightarrow> k < 2 \<Longrightarrow>
      groups_done r (8 * half + 2 * lane + k) og \<Longrightarrow>
      \<exists>og'. f half (ls ! lane) og (16 * k) = Ok og' \<and> groups_done r (8 * half + 2 * lane + Suc k) og'"
    and start: "length output = 256" and lanes: "length ls = 4"
  shows "\<exists>out. fold_outcome (\<lambda>og half. fold_outcome (\<lambda>og l. fold_outcome (f half l) og [0, 16]) og ls)
      (output, 0) [0..<2] = Ok (out, 16) \<and> prefix_done r 256 out"
proof -
  have offsets: "[0, 16] ! k = 16 * k" if "k < 2" for k :: nat
    using that by (auto simp: less_Suc_eq numeral_2_eq_2)
  have lane: "\<exists>og'. fold_outcome (f half (ls ! lane)) og [0, 16] = Ok og' \<and>
      groups_done r (8 * half + 2 * Suc lane) og'"
    if "half < 2" "lane < 4" "groups_done r (8 * half + 2 * lane) og" for half lane og
    using fold_outcome_progress [where xs = "[0, 16]" and s = og and f = "f half (ls ! lane)"
        and P = "\<lambda>k. groups_done r (8 * half + 2 * lane + k)"] that body [OF that(1,2)] offsets
    by (simp add: algebra_simps)
  have half: "\<exists>og'. fold_outcome (\<lambda>og l. fold_outcome (f half l) og [0, 16]) og ls = Ok og' \<and>
      groups_done r (8 * Suc half) og'"
    if "half < 2" "groups_done r (8 * half) og" for half og
    using fold_outcome_progress [where xs = ls and s = og
        and f = "\<lambda>og l. fold_outcome (f half l) og [0, 16]"
        and P = "\<lambda>k. groups_done r (8 * half + 2 * k)"] that lane [OF that(1)] lanes
    by (simp add: add.commute del: fold_outcome.simps)
  have "\<exists>og. fold_outcome (\<lambda>og half. fold_outcome (\<lambda>og l. fold_outcome (f half l) og [0, 16]) og ls)
      (output, 0) [0..<2] = Ok og \<and> groups_done r 16 og"
    using fold_outcome_progress [where xs = "[0..<2]" and s = "(output, 0)"
        and P = "\<lambda>k. groups_done r (8 * k)" and
        f = "\<lambda>og half. fold_outcome (\<lambda>og l. fold_outcome (f half l) og [0, 16]) og ls"]
      half groups_done_start [OF start, of r] by simp
  then show ?thesis by (auto simp: groups_done_def)
qed

lemma index_split:
  assumes "lane < 4" and "m < 32"
  shows "(128 * half + 32 * lane + m) div 128 = half"
    and "(128 * half + 32 * lane + m) mod 128 div 32 = lane"
    and "(128 * half + 32 * lane + m) mod 32 = (m :: nat)"
proof -
  have small: "32 * lane + m < 128" using assms by linarith
  have eq: "128 * half + 32 * lane + m = (32 * lane + m) + 128 * half"
    and eq': "128 * half + 32 * lane + m = m + 32 * (4 * half + lane)" by simp_all
  show "(128 * half + 32 * lane + m) div 128 = half"
    unfolding eq using small by (simp add: div_mult_self2)
  have "(128 * half + 32 * lane + m) mod 128 = 32 * lane + m"
    unfolding eq mod_mult_self2 using small by simp
  then show "(128 * half + 32 * lane + m) mod 128 div 32 = lane" using assms(2) by simp
  have "(128 * half + 32 * lane + m) mod 32 = m mod 32" unfolding eq' by (rule mod_mult_self2)
  then show "(128 * half + 32 * lane + m) mod 32 = m" using assms(2) by simp
qed

lemma group_index:
  assumes "lane < 4" and "k < 2" and "j < 16"
  shows "((8 * half + 2 * lane + k) * 16 + j) div 16 = 8 * half + 2 * lane + k"
    and "((8 * half + 2 * lane + k) * 16 + j) div 128 = half"
    and "((8 * half + 2 * lane + k) * 16 + j) mod 128 div 32 = lane"
    and "((8 * half + 2 * lane + k) * 16 + j) mod 32 = (16 * k + j :: nat)"
proof -
  have i: "(8 * half + 2 * lane + k) * 16 + j = 128 * half + 32 * lane + (16 * k + j)" by simp
  have m: "16 * k + j < 32" using assms by linarith
  note split = index_split [OF assms(1) m, of half, folded i]
  show "((8 * half + 2 * lane + k) * 16 + j) div 16 = 8 * half + 2 * lane + k" using assms(3) by simp
  from split show "((8 * half + 2 * lane + k) * 16 + j) div 128 = half"
    and "((8 * half + 2 * lane + k) * 16 + j) mod 128 div 32 = lane"
    and "((8 * half + 2 * lane + k) * 16 + j) mod 32 = 16 * k + j" by blast+
qed

lemma q2_group_step:
  assumes "groups_done r g og" and "g < 16" and "length scales = 16" and "length q = 32"
    and "k < 2"
    and val: "\<And>j. j < 16 \<Longrightarrow> f32_sub (f32_mul (f32_mul d (u8_f32 (scales ! g AND 0x0f)))
        (u8_f32 (drop_bit shift (q ! (16 * k + j)) AND 3)))
        (f32_mul dmin (u8_f32 (drop_bit 4 (scales ! g)))) = r (g * 16 + j)"
  shows "\<exists>og'. q2_group d dmin scales q shift og (16 * k) = Ok og' \<and> groups_done r (Suc g) og'"
proof -
  obtain out where og: "og = (out, g)" and out: "prefix_done r (g * 16) out"
    using assms(1) by (cases og) (auto simp: groups_done_def)
  have k: "16 * k + 16 \<le> 32" using assms(5) by linarith
  have len: "length (take 16 (drop (16 * k) q)) = 16" using assms(4) k by simp
  let ?f = "\<lambda>quant. f32_sub (f32_mul (f32_mul d (u8_f32 (scales ! g AND 0x0f)))
        (u8_f32 (drop_bit shift quant AND 3))) (f32_mul dmin (u8_f32 (drop_bit 4 (scales ! g))))"
  have "\<exists>out'. fill_slice out (g * 16) (g * 16 + 16) ?f (take 16 (drop (16 * k) q)) =
      (Ok out' :: (_, decode_error) outcome) \<and> prefix_done r (g * 16 + 16) out'"
  proof (rule fill_slice_prefix [OF out])
    show "g * 16 + 16 \<le> 256" using assms(2) by linarith
    show "length (take 16 (drop (16 * k) q)) = g * 16 + 16 - g * 16" using len by simp
    show "?f (take 16 (drop (16 * k) q) ! j) = r (g * 16 + j)" if "j < g * 16 + 16 - g * 16" for j
      using that val [of j] assms(4) k by simp
  qed simp
  then obtain out' where "fill_slice out (g * 16) (g * 16 + 16) ?f (take 16 (drop (16 * k) q)) =
      (Ok out' :: (_, decode_error) outcome)" "prefix_done r (g * 16 + 16) out'" by blast
  then show ?thesis
    using assms(2-4) k
    by (simp add: q2_group_def og byte_at_eq slice_eq groups_done_def Let_def add_ac)
qed

lemma decode_q2_k_eq:
  assumes "length block = 84" and "length output = 256"
  shows "decode_q2_k block output = Ok (map (q2_value block) [0..<256])"
proof -
  let ?q = "\<lambda>half. take 32 (drop (half * 32) (take 64 (drop 16 block)))"
  let ?body = "\<lambda>half shift. q2_group (half_at block 80) (half_at block 82) (take 16 block) (?q half) shift"
  have "\<exists>out. fold_outcome (\<lambda>og half. fold_outcome (\<lambda>og l. fold_outcome (?body half l) og [0, 16]) og [0, 2, 4, 6])
      (output, 0) [0..<2] = Ok (out, 16) \<and> prefix_done (q2_value block) 256 out"
  proof (rule group_loops [OF _ assms(2)])
    fix half lane k og
    assume h: "half < 2" and l: "lane < 4" and k: "k < 2"
      and og: "groups_done (q2_value block) (8 * half + 2 * lane + k) og"
    have g: "8 * half + 2 * lane + k < 16" using h l k by linarith
    have "half * 32 + 32 \<le> 64" using h by linarith
    then have q: "length (?q half) = 32" "\<And>m. m < 32 \<Longrightarrow> ?q half ! m = block ! (16 + 32 * half + m)"
      using assms(1) by (simp_all add: add_ac mult_ac)
    have shift: "[0, 2, 4, 6] ! lane = 2 * lane" using l by (auto simp: less_Suc_eq numeral_eq_Suc)
    have "\<exists>og'. ?body half (2 * lane) og (16 * k) = Ok og' \<and>
        groups_done (q2_value block) (Suc (8 * half + 2 * lane + k)) og'"
    proof (rule q2_group_step [OF og g _ q(1) k])
      show "length (take 16 block) = 16" using assms(1) by simp
      fix j :: nat assume j: "j < 16"
      have "16 * k + j < 32" using k j by linarith
      note b = q(2) [OF this] and a = nth_take [OF g, of block]
      show "f32_sub (f32_mul (f32_mul (half_at block 80) (u8_f32 (take 16 block ! (8 * half + 2 * lane + k) AND 0x0f)))
          (u8_f32 (drop_bit (2 * lane) (?q half ! (16 * k + j)) AND 3)))
          (f32_mul (half_at block 82) (u8_f32 (drop_bit 4 (take 16 block ! (8 * half + 2 * lane + k))))) =
          q2_value block ((8 * half + 2 * lane + k) * 16 + j)"
        unfolding q2_value_def Let_def group_index [OF l k j] a b ..
    qed
    then show "\<exists>og'. ?body half ([0, 2, 4, 6] ! lane) og (16 * k) = Ok og' \<and>
        groups_done (q2_value block) (8 * half + 2 * lane + Suc k) og'"
      unfolding shift by simp
  qed simp
  then obtain out where run: "fold_outcome (\<lambda>og half. fold_outcome (\<lambda>og l. fold_outcome (?body half l) og [0, 16]) og [0, 2, 4, 6])
      (output, 0) [0..<2] = Ok (out, 16)" and out: "prefix_done (q2_value block) 256 out" by blast
  have "fold_outcome (\<lambda>og half. and_then (slice (take 64 (drop 16 block)) (half * 32) (half * 32 + 32)) (\<lambda>q.
       fold_outcome (\<lambda>og shift. fold_outcome (q2_group (half_at block 80) (half_at block 82) (take 16 block) q shift) og [0, 16]) og [0, 2, 4, 6]))
       (output, 0) [0..<2] = Ok (out, 16)"
    using run assms(1) by (simp add: upt_two slice_eq)
  then show ?thesis
    using assms(1) out by (simp add: decode_q2_k_def slice_eq fp16_at_eq prefix_done_all)
qed


section \<open>Three-bit blocks\<close>

lemma and_one_bit: "x AND push_bit n 1 = 0 \<longleftrightarrow> \<not> bit x n" for x :: "8 word"
  using and_exp_eq_0_iff_not_bit [of x n] by (simp add: push_bit_of_1)

definition q3_group_scale :: "8 word list \<Rightarrow> nat \<Rightarrow> int" where
  "q3_group_scale block g =
     (let low = (if g < 8 then block ! (96 + g) AND 0x0f else drop_bit 4 (block ! (88 + g)));
          high = drop_bit (2 * (g div 4)) (block ! (104 + g mod 4)) AND 3 in
      uint (low OR push_bit 4 high) - 32)"

definition q3_value :: "8 word list \<Rightarrow> nat \<Rightarrow> f32" where
  "q3_value block i =
     (let low = uint (drop_bit (2 * (i mod 128 div 32)) (block ! (32 + 32 * (i div 128) + i mod 32)) AND 3);
          bias = (if bit (block ! (i mod 32)) (4 * (i div 128) + i mod 128 div 32) then 0 else 4) in
      f32_mul (f32_mul (half_at block 108) (f32_of_int (q3_group_scale block (i div 16))))
        (f32_of_int (low - bias)))"

lemma q3_scale_eq:
  assumes "length block = 110" and "g < 16"
  shows "q3_scale (take 12 (drop 96 block)) g = Ok (q3_group_scale block g)"
proof -
  have "g mod 4 < 4" by simp
  then have "8 + g mod 4 < 12" by linarith
  moreover have "g - 8 < 12" using assms(2) by linarith
  ultimately show ?thesis
    using assms by (simp add: q3_scale_def byte_at_eq q3_group_scale_def Let_def add_ac)
qed

lemma q3_group_step:
  assumes "groups_done r g og" and "g < 16" and "length q = 32" and "length hmask = 32" and "k < 2"
    and scale: "q3_scale scales g = Ok sc"
    and val: "\<And>j. j < 16 \<Longrightarrow> f32_mul (f32_mul d (f32_of_int sc))
        (f32_of_int (uint (drop_bit shift (q ! (16 * k + j)) AND 3) -
          (if hmask ! (16 * k + j) AND msk = 0 then 4 else 0))) = r (g * 16 + j)"
  shows "\<exists>og'. q3_group d hmask scales q shift msk og (16 * k) = Ok og' \<and> groups_done r (Suc g) og'"
proof -
  obtain out where og: "og = (out, g)" and out: "prefix_done r (g * 16) out"
    using assms(1) by (cases og) (auto simp: groups_done_def)
  let ?f = "q3_value_at (f32_mul d (f32_of_int sc)) hmask q shift msk g (16 * k)"
  have "\<exists>out'. fold_outcome ?f out [0..<16] = Ok out' \<and> prefix_done r (g * 16 + length [0..<16]) out'"
  proof (rule fold_outcome_progress [where P = "\<lambda>j. prefix_done r (g * 16 + j)"])
    show "prefix_done r (g * 16 + 0) out" using out by simp
  next
    fix j out assume "j < length [0..<16]" and out: "prefix_done r (g * 16 + j) out"
    then have j: "j < 16" by simp
    have lt: "g * 16 + j < 256" "16 * k + j < 32" using assms(2,5) j by linarith+
    from put_prefix [OF out lt(1) val [OF j]] obtain out' where
      "put out (g * 16 + j) (f32_mul (f32_mul d (f32_of_int sc))
        (f32_of_int (uint (drop_bit shift (q ! (16 * k + j)) AND 3) -
          (if hmask ! (16 * k + j) AND msk = 0 then 4 else 0)))) =
        (Ok out' :: (_, decode_error) outcome)" "prefix_done r (Suc (g * 16 + j)) out'" by blast
    then show "\<exists>out'. ?f out ([0..<16] ! j) = Ok out' \<and> prefix_done r (g * 16 + Suc j) out'"
      using j lt assms(3,4) by (simp add: q3_value_at_def byte_at_eq Let_def)
  qed
  then obtain out' where "fold_outcome ?f out [0..<16] = Ok out'" "prefix_done r (g * 16 + 16) out'" by auto
  moreover have "slice out (g * 16) (g * 16 + 16) = (Ok (take 16 (drop (g * 16) out)) :: (_, decode_error) outcome)"
  proof -
    have "g * 16 + 16 \<le> 256" using assms(2) by linarith
    with out show ?thesis by (simp add: slice_eq prefix_done_def)
  qed
  ultimately show ?thesis
    by (simp add: q3_group_def og scale groups_done_def Let_def add_ac)
qed

lemma decode_q3_k_eq:
  assumes "length block = 110" and "length output = 256"
  shows "decode_q3_k block output = Ok (map (q3_value block) [0..<256])"
proof -
  let ?q = "\<lambda>half. take 32 (drop (half * 32) (take 64 (drop 32 block)))"
  let ?body = "\<lambda>half lane. q3_group (half_at block 108) (take 32 block) (take 12 (drop 96 block)) (?q half)
      (lane * 2) (push_bit (half * 4 + lane) 1)"
  have "\<exists>out. fold_outcome (\<lambda>og half. fold_outcome (\<lambda>og l. fold_outcome (?body half l) og [0, 16]) og [0..<4])
      (output, 0) [0..<2] = Ok (out, 16) \<and> prefix_done (q3_value block) 256 out"
  proof (rule group_loops [OF _ assms(2)])
    fix half lane k og
    assume h: "half < 2" and l: "lane < 4" and k: "k < 2"
      and og: "groups_done (q3_value block) (8 * half + 2 * lane + k) og"
    have g: "8 * half + 2 * lane + k < 16" using h l k by linarith
    have "half * 32 + 32 \<le> 64" using h by linarith
    then have q: "length (?q half) = 32" "\<And>m. m < 32 \<Longrightarrow> ?q half ! m = block ! (32 + 32 * half + m)"
      using assms(1) by (simp_all add: add_ac mult_ac)
    have "\<exists>og'. ?body half lane og (16 * k) = Ok og' \<and>
        groups_done (q3_value block) (Suc (8 * half + 2 * lane + k)) og'"
    proof (rule q3_group_step [OF og g q(1) _ k q3_scale_eq [OF assms(1) g]])
      show "length (take 32 block) = 32" using assms(1) by simp
      fix j :: nat assume j: "j < 16"
      have m: "16 * k + j < 32" using k j by linarith
      note b = q(2) [OF m] and a = nth_take [OF m, of block]
      show "f32_mul (f32_mul (half_at block 108) (f32_of_int (q3_group_scale block (8 * half + 2 * lane + k))))
          (f32_of_int (uint (drop_bit (lane * 2) (?q half ! (16 * k + j)) AND 3) -
            (if take 32 block ! (16 * k + j) AND push_bit (half * 4 + lane) 1 = 0 then 4 else 0))) =
          q3_value block ((8 * half + 2 * lane + k) * 16 + j)"
        unfolding q3_value_def Let_def group_index [OF l k j] a b and_one_bit
        by (simp add: mult.commute)
    qed
    then show "\<exists>og'. ?body half ([0..<4] ! lane) og (16 * k) = Ok og' \<and>
        groups_done (q3_value block) (8 * half + 2 * lane + Suc k) og'"
      using l by simp
  qed simp
  then obtain out where run: "fold_outcome (\<lambda>og half. fold_outcome (\<lambda>og l. fold_outcome (?body half l) og [0, 16]) og [0..<4])
      (output, 0) [0..<2] = Ok (out, 16)" and out: "prefix_done (q3_value block) 256 out" by blast
  have "fold_outcome (\<lambda>og half. and_then (slice (take 64 (drop 32 block)) (half * 32) (half * 32 + 32)) (\<lambda>q.
       fold_outcome (\<lambda>og lane. let shift = lane * 2; msk = push_bit (half * 4 + lane) (1 :: 8 word) in
         fold_outcome (q3_group (half_at block 108) (take 32 block) (take 12 (drop 96 block)) q shift msk) og [0, 16]) og [0..<4]))
       (output, 0) [0..<2] = Ok (out, 16)"
    using run assms(1) by (simp add: upt_two slice_eq Let_def)
  then show ?thesis
    using assms(1) out by (simp add: decode_q3_k_def slice_eq fp16_at_eq prefix_done_all)
qed

unbundle bit_operations_syntax

section \<open>Four- and five-bit blocks\<close>

definition k4_pair :: "8 word list \<Rightarrow> nat \<Rightarrow> 8 word \<times> 8 word" where
  "k4_pair block g =
     (if g < 4 then (block ! (4 + g) AND 63, block ! (8 + g) AND 63)
      else ((block ! (8 + g) AND 0x0f) OR push_bit 4 (drop_bit 6 (block ! g)),
            drop_bit 4 (block ! (8 + g)) OR push_bit 4 (drop_bit 6 (block ! (4 + g)))))"

definition nibble :: "8 word \<Rightarrow> nat \<Rightarrow> 8 word" where
  "nibble b g = (if even g then b AND 0x0f else drop_bit 4 b)"

definition q4_value :: "8 word list \<Rightarrow> nat \<Rightarrow> f32" where
  "q4_value block i = (case k4_pair block (i div 32) of (scale, mn) \<Rightarrow>
     f32_sub
       (f32_mul (f32_mul (half_at block 0) (u8_f32 scale))
         (u8_f32 (nibble (block ! (16 + 32 * (i div 64) + i mod 32)) (i div 32))))
       (f32_mul (half_at block 2) (u8_f32 mn)))"

definition q5_value :: "8 word list \<Rightarrow> nat \<Rightarrow> f32" where
  "q5_value block i = (case k4_pair block (i div 32) of (scale, mn) \<Rightarrow>
     f32_sub
       (f32_mul (f32_mul (half_at block 0) (u8_f32 scale))
         (u8_f32 (nibble (block ! (48 + 32 * (i div 64) + i mod 32)) (i div 32) +
           (if bit (block ! (16 + i mod 32)) (i div 32) then 16 else 0))))
       (f32_mul (half_at block 2) (u8_f32 mn)))"

lemma upt_four: "[0..<4] = [0, 1, 2, 3 :: nat]"
  by (simp add: upt_rec)

lemma scale_min_k4_eq:
  assumes "16 \<le> length block" and "g < 8"
  shows "scale_min_k4 g (take 12 (drop 4 block)) = Ok (k4_pair block g)"
proof (cases "g < 4")
  case True
  then show ?thesis using assms by (simp add: scale_min_k4_def byte_at_eq k4_pair_def add_ac)
next
  case False
  then have "4 + (g - 4) = g" "g - 4 < 12" using assms(2) by linarith+
  with False assms show ?thesis by (simp add: scale_min_k4_def byte_at_eq k4_pair_def add_ac)
qed

text \<open>The two nested loops over pairs and sides that fill 32 values at a time.\<close>

lemma pair_loops:
  assumes body: "\<And>pr side out. pr < 4 \<Longrightarrow> side < 2 \<Longrightarrow> prefix_done r ((pr * 2 + side) * 32) out \<Longrightarrow>
      \<exists>out'. f pr out side = Ok out' \<and> prefix_done r ((pr * 2 + side) * 32 + 32) out'"
    and start: "length output = 256"
  shows "fold_outcome (\<lambda>out pr. fold_outcome (f pr) out [0..<2]) output [0..<4] = Ok (map r [0..<256])"
proof -
  have pr: "\<exists>out'. fold_outcome (f pr) out [0..<2] = Ok out' \<and> prefix_done r (Suc pr * 64) out'"
    if "pr < 4" "prefix_done r (pr * 64) out" for pr out
    using fold_outcome_progress [where xs = "[0..<2]" and s = out and f = "f pr"
        and P = "\<lambda>side. prefix_done r ((pr * 2 + side) * 32)"] that body [OF that(1)]
    by (simp add: algebra_simps)
  have "prefix_done r (0 * 64) output" using start by (simp add: prefix_done_def)
  then show ?thesis
    using fold_outcome_progress [where xs = "[0..<4]" and s = "output"
        and f = "\<lambda>out pr. fold_outcome (f pr) out [0..<2]" and P = "\<lambda>k. prefix_done r (k * 64)"] pr
    by (simp add: prefix_done_all)
qed

lemma pair_index:
  assumes "side < 2" and "j < 32"
  shows "((pr * 2 + side) * 32 + j) div 32 = pr * 2 + side"
    and "((pr * 2 + side) * 32 + j) div 64 = pr"
    and "((pr * 2 + side) * 32 + j) mod 32 = (j :: nat)"
proof -
  show "((pr * 2 + side) * 32 + j) div 32 = pr * 2 + side" using assms(2) by simp
  have eq: "(pr * 2 + side) * 32 + j = (side * 32 + j) + pr * 64" by simp
  have "side * 32 + j < 64" using assms by linarith
  then show "((pr * 2 + side) * 32 + j) div 64 = pr" unfolding eq by (simp add: div_mult_self2)
  show "((pr * 2 + side) * 32 + j) mod 32 = j"
    unfolding mod_mult_self3 using assms(2) by simp
qed

lemma side_cases: "(if side = 0 then b AND 0x0f else drop_bit 4 b) = nibble b (pr * 2 + side)"
  if "side < 2" for b :: "8 word"
proof -
  from that have "side = 0 \<or> side = 1" by linarith
  then show ?thesis by (auto simp: nibble_def)
qed

lemma decode_q4_k_eq:
  assumes "length block = 144" and "length output = 256"
  shows "decode_q4_k block output = Ok (map (q4_value block) [0..<256])"
proof -
  let ?q = "\<lambda>pr. take 32 (drop (pr * 32) (take 128 (drop 16 block)))"
  let ?body = "\<lambda>pr. q4_side (half_at block 0) (half_at block 2) (take 12 (drop 4 block)) (?q pr) pr"
  have "fold_outcome (\<lambda>out pr. fold_outcome (?body pr) out [0..<2]) output [0..<4] =
      Ok (map (q4_value block) [0..<256])"
  proof (rule pair_loops [OF _ assms(2)])
    fix pr side out
    assume p: "pr < 4" and s: "side < 2" and out: "prefix_done (q4_value block) ((pr * 2 + side) * 32) out"
    have g: "pr * 2 + side < 8" using p s by linarith
    have "pr * 32 + 32 \<le> 128" using p by linarith
    then have q: "length (?q pr) = 32" "\<And>m. m < 32 \<Longrightarrow> ?q pr ! m = block ! (16 + 32 * pr + m)"
      using assms(1) by (simp_all add: add_ac mult_ac)
    obtain scale mn where pair: "k4_pair block (pr * 2 + side) = (scale, mn)" by (cases "k4_pair block (pr * 2 + side)")
    let ?f = "\<lambda>quant. f32_sub (f32_mul (f32_mul (half_at block 0) (u8_f32 scale))
        (u8_f32 (nibble quant (pr * 2 + side)))) (f32_mul (half_at block 2) (u8_f32 mn))"
    have "\<exists>out'. fill_slice out ((pr * 2 + side) * 32) ((pr * 2 + side) * 32 + 32) ?f (?q pr) =
        (Ok out' :: (_, decode_error) outcome) \<and> prefix_done (q4_value block) ((pr * 2 + side) * 32 + 32) out'"
    proof (rule fill_slice_prefix [OF out])
      show "(pr * 2 + side) * 32 + 32 \<le> 256" using mult_le_mono1 [OF Suc_leI [OF g], of 32] by simp
      show "length (?q pr) = (pr * 2 + side) * 32 + 32 - (pr * 2 + side) * 32" using q(1) by simp
      show "?f (?q pr ! j) = q4_value block ((pr * 2 + side) * 32 + j)"
        if "j < (pr * 2 + side) * 32 + 32 - (pr * 2 + side) * 32" for j
      proof -
        from that have j: "j < 32" by simp
        show ?thesis unfolding q4_value_def pair_index [OF s j] pair q(2) [OF j] prod.case ..
      qed
    qed simp
    then show "\<exists>out'. ?body pr out side = Ok out' \<and> prefix_done (q4_value block) ((pr * 2 + side) * 32 + 32) out'"
      using assms(1) pair
      by (simp add: scale_min_k4_eq [OF _ g] q4_side_def Let_def side_cases [OF s, of _ pr])
  qed
  then have "fold_outcome (\<lambda>out pr. and_then (slice (take 128 (drop 16 block)) (pr * 32) (pr * 32 + 32)) (\<lambda>q.
      fold_outcome (q4_side (half_at block 0) (half_at block 2) (take 12 (drop 4 block)) q pr) out [0..<2]))
      output [0..<4] = Ok (map (q4_value block) [0..<256])"
    using assms(1) by (simp add: upt_four slice_eq)
  then show ?thesis using assms(1) by (simp add: decode_q4_k_def slice_eq fp16_at_eq)
qed


lemma nth_two_bits: "side < 2 \<Longrightarrow> [push_bit (pr * 2) (1 :: 8 word), push_bit (pr * 2 + 1) 1] ! side = push_bit (pr * 2 + side) 1"
proof -
  assume "side < 2"
  then have "side = 0 \<or> side = 1" by linarith
  then show ?thesis by auto
qed

lemma q5_value_at_eq:
  assumes "masks ! side = 2 ^ g" and "\<And>b. (if side = 0 then b AND 0x0f else drop_bit 4 b) = nibble b g"
    and "j < length high" and "j < length ql"
  shows "q5_value_at dl ml high ql masks side g out j =
    put out (g * 32 + j) (f32_sub (f32_mul dl
      (u8_f32 (nibble (ql ! j) g + (if bit (high ! j) g then 16 else 0)))) ml)"
  unfolding q5_value_at_def byte_at_eq Let_def assms(1,2) and_exp_eq_0_iff_not_bit
  using assms(3,4) by simp

lemma q5_side_step:
  assumes "prefix_done r (g * 32) out" and g: "g = pr * 2 + side" and "g < 8" and s: "side < 2"
    and "length high = 32" and "length ql = 32" 
    and pair: "scale_min_k4 g scales = (Ok (scale, mn) :: (_, decode_error) outcome)"
    and val: "\<And>j. j < 32 \<Longrightarrow> f32_sub (f32_mul (f32_mul d (u8_f32 scale))
        (u8_f32 (nibble (ql ! j) g + (if bit (high ! j) g then 16 else 0))))
        (f32_mul dmin (u8_f32 mn)) = r (g * 32 + j)"
  shows "\<exists>out'. q5_side d dmin scales high ql pr out side = Ok out' \<and> prefix_done r (g * 32 + 32) out'"
proof -
  let ?f = "q5_value_at (f32_mul d (u8_f32 scale)) (f32_mul dmin (u8_f32 mn)) high ql
      [push_bit (pr * 2) (1 :: 8 word), push_bit (pr * 2 + 1) 1] side g"
  have msk: "[push_bit (pr * 2) (1 :: 8 word), push_bit (pr * 2 + 1) 1] ! side = 2 ^ g"
    unfolding nth_two_bits [OF s] g by (rule push_bit_of_1)
  have side: "(if side = 0 then b AND 0x0f else drop_bit 4 b) = nibble b g" for b :: "8 word"
    unfolding g by (rule side_cases [OF s])
  have "\<exists>out'. fold_outcome ?f out [0..<32] = Ok out' \<and> prefix_done r (g * 32 + length [0..<32]) out'"
  proof (rule fold_outcome_progress [where P = "\<lambda>j. prefix_done r (g * 32 + j)"])
    show "prefix_done r (g * 32 + 0) out" using assms(1) by simp
  next
    fix j out assume "j < length [0..<32]" and out: "prefix_done r (g * 32 + j) out"
    then have j: "j < 32" by simp
    have lt: "g * 32 + j < 256" using assms(3) j by linarith
    from put_prefix [OF out lt val [OF j]] obtain out' where put:
      "put out (g * 32 + j) (f32_sub (f32_mul (f32_mul d (u8_f32 scale))
        (u8_f32 (nibble (ql ! j) g + (if bit (high ! j) g then 16 else 0)))) (f32_mul dmin (u8_f32 mn))) =
        (Ok out' :: (_, decode_error) outcome)" "prefix_done r (Suc (g * 32 + j)) out'" by blast
    have "?f out ([0..<32] ! j) = Ok out'"
      using put(1) j assms(5,6) q5_value_at_eq [OF msk side, of j]
      by (simp only: length_upt nth_upt diff_zero add_0)
    with put(2) show "\<exists>out'. ?f out ([0..<32] ! j) = Ok out' \<and> prefix_done r (g * 32 + Suc j) out'" by simp
  qed
  then obtain out' where "fold_outcome ?f out [0..<32] = Ok out'" "prefix_done r (g * 32 + 32) out'" by auto
  moreover have "slice out (g * 32) (g * 32 + 32) = (Ok (take 32 (drop (g * 32) out)) :: (_, decode_error) outcome)"
  proof -
    have "g * 32 + 32 \<le> 256" using assms(3) by linarith
    with assms(1) show ?thesis by (simp add: slice_eq prefix_done_def)
  qed
  ultimately show ?thesis
    by (simp add: q5_side_def pair Let_def flip: g)
qed

lemma decode_q5_k_eq:
  assumes "length block = 176" and "length output = 256"
  shows "decode_q5_k block output = Ok (map (q5_value block) [0..<256])"
proof -
  let ?q = "\<lambda>pr. take 32 (drop (pr * 32) (take 128 (drop 48 block)))"
  let ?high = "take 32 (drop 16 block)"
  let ?body = "\<lambda>pr. q5_side (half_at block 0) (half_at block 2) (take 12 (drop 4 block)) ?high (?q pr) pr"
  have "fold_outcome (\<lambda>out pr. fold_outcome (?body pr) out [0..<2]) output [0..<4] =
      Ok (map (q5_value block) [0..<256])"
  proof (rule pair_loops [OF _ assms(2)])
    fix pr side out
    assume p: "pr < 4" and s: "side < 2" and out: "prefix_done (q5_value block) ((pr * 2 + side) * 32) out"
    have g: "pr * 2 + side < 8" using p s by linarith
    have "pr * 32 + 32 \<le> 128" using p by linarith
    then have q: "length (?q pr) = 32" "\<And>m. m < 32 \<Longrightarrow> ?q pr ! m = block ! (48 + 32 * pr + m)"
      using assms(1) by (simp_all add: add_ac mult_ac)
    have high: "?high ! m = block ! (16 + m)" if "m < 32" for m using that assms(1) by simp
    obtain scale mn where pair: "k4_pair block (pr * 2 + side) = (scale, mn)" by (cases "k4_pair block (pr * 2 + side)")
    show "\<exists>out'. ?body pr out side = Ok out' \<and> prefix_done (q5_value block) ((pr * 2 + side) * 32 + 32) out'"
    proof (rule q5_side_step [OF out refl g s _ q(1)])
      show "length ?high = 32" using assms(1) by simp
      show "scale_min_k4 (pr * 2 + side) (take 12 (drop 4 block)) = Ok (scale, mn)"
        using scale_min_k4_eq [OF _ g, of block] assms(1) pair by simp
      show "f32_sub (f32_mul (f32_mul (half_at block 0) (u8_f32 scale))
          (u8_f32 (nibble (?q pr ! j) (pr * 2 + side) + (if bit (?high ! j) (pr * 2 + side) then 16 else 0))))
          (f32_mul (half_at block 2) (u8_f32 mn)) = q5_value block ((pr * 2 + side) * 32 + j)"
        if j: "j < 32" for j
        unfolding q5_value_def pair_index [OF s j] pair q(2) [OF j] high [OF j] prod.case ..
    qed
  qed
  then have "fold_outcome (\<lambda>out pr. and_then (slice (take 128 (drop 48 block)) (pr * 32) (pr * 32 + 32)) (\<lambda>q.
      fold_outcome (q5_side (half_at block 0) (half_at block 2) (take 12 (drop 4 block)) ?high q pr) out [0..<2]))
      output [0..<4] = Ok (map (q5_value block) [0..<256])"
    using assms(1) by (simp add: upt_four slice_eq)
  then show ?thesis using assms(1) by (simp add: decode_q5_k_def slice_eq fp16_at_eq)
qed

section \<open>Six-bit blocks\<close>

definition q6_value :: "8 word list \<Rightarrow> nat \<Rightarrow> f32" where
  "q6_value block i =
     (let half = i div 128; quarter = i mod 128 div 32; j = i mod 32;
          scale = block ! (192 + 8 * half + j div 16 + 2 * quarter);
          low = nibble (block ! (64 * half + 32 * (quarter mod 2) + j)) (quarter div 2);
          high = drop_bit (2 * quarter) (block ! (128 + 32 * half + j)) AND 3 in
      f32_mul (f32_mul (half_at block 208) (f32_of_int (sint scale)))
        (f32_of_int (uint (low OR push_bit 4 high) - 32)))"

text \<open>What is written before lane \<open>j\<close> of half \<open>h\<close>, and of that lane the first \<open>k\<close> quarters.\<close>

definition lanes_done :: "(nat \<Rightarrow> f32) \<Rightarrow> nat \<Rightarrow> nat \<Rightarrow> nat \<Rightarrow> f32 list \<Rightarrow> bool" where
  "lanes_done r h j k out \<longleftrightarrow> length out = 256 \<and>
     (\<forall>i < 256. i div 128 < h \<or> i div 128 = h \<and> (i mod 32 < j \<or> i mod 32 = j \<and> i mod 128 div 32 < k) \<longrightarrow>
        out ! i = r i)"

lemma put_lane:
  assumes "lanes_done r h j k out" and "h < 2" and "k < 4" and "j < 32" and "v = r (128 * h + 32 * k + j)"
  shows "\<exists>out'. put out (h * 128 + k * 32 + j) v = Ok out' \<and> lanes_done r h j (Suc k) out'"
proof -
  let ?p = "h * 128 + k * 32 + j"
  have p: "?p < 256" using assms(2-4) by linarith
  have len: "length out = 256" using assms(1) by (simp add: lanes_done_def)
  have "lanes_done r h j (Suc k) (out[?p := v])"
    unfolding lanes_done_def
  proof (intro conjI allI impI)
    show "length (out[?p := v]) = 256" using len by simp
    fix i :: nat
    assume i: "i < 256" and c: "i div 128 < h \<or> i div 128 = h \<and> (i mod 32 < j \<or> i mod 32 = j \<and> i mod 128 div 32 < Suc k)"
    show "out[?p := v] ! i = r i"
    proof (cases "i = ?p")
      case True
      then show ?thesis using p len assms(5) by (simp add: mult.commute)
    next
      case False
      have "i mod 128 = 32 * (i mod 128 div 32) + i mod 128 mod 32" by simp
      moreover have "i mod 128 mod 32 = i mod 32" by (simp add: mod_mod_cancel)
      ultimately have "i = 128 * (i div 128) + 32 * (i mod 128 div 32) + i mod 32"
        using mult_div_mod_eq [of 128 i] by linarith
      with False have "\<not> (i div 128 = h \<and> i mod 32 = j \<and> i mod 128 div 32 = k)" by auto
      with c have "i div 128 < h \<or> i div 128 = h \<and> (i mod 32 < j \<or> i mod 32 = j \<and> i mod 128 div 32 < k)"
        by (auto simp: less_Suc_eq)
      with assms(1) i have "out ! i = r i" unfolding lanes_done_def by blast
      with False show ?thesis by simp
    qed
  qed
  with p len show ?thesis by (simp add: put_def)
qed

lemma lanes_done_next:
  "lanes_done r h j 4 out \<Longrightarrow> lanes_done r h (Suc j) 0 out"
  "lanes_done r h 32 0 out \<Longrightarrow> lanes_done r (Suc h) 0 0 out"
  by (auto simp: lanes_done_def less_Suc_eq div_less_iff_less_mult)


lemma q6_quants:
  assumes "quarter < 4" and "half < 2" and "j < 32"
  shows "(128 * half + 32 * quarter + j) div 128 = half"
    and "(128 * half + 32 * quarter + j) mod 128 div 32 = quarter"
    and "(128 * half + 32 * quarter + j) mod 32 = (j :: nat)"
  using index_split [OF assms(1,3), of half] .

lemma decode_q6_k_eq:
  assumes "length block = 210" and "length output = 256"
  shows "decode_q6_k block output = Ok (map (q6_value block) [0..<256])"
proof -
  let ?ql = "\<lambda>half. take 64 (drop (half * 64) (take 128 block))"
  let ?qh = "\<lambda>half. take 32 (drop (half * 32) (take 64 (drop 128 block)))"
  let ?d = "half_at block 208"
  have lane: "\<exists>out'. q6_index ?d block (?ql half) (?qh half) half out j = Ok out' \<and>
      lanes_done (q6_value block) half (Suc j) 0 out'"
    if h: "half < 2" and j: "j < 32" and out: "lanes_done (q6_value block) half j 0 out" for half j out
  proof -
    let ?l0 = "block ! (64 * half + j)" and ?l1 = "block ! (64 * half + 32 + j)" and ?h = "block ! (128 + 32 * half + j)"
    let ?quants = "[(?l0 AND 0x0f) OR push_bit 4 (drop_bit 0 ?h AND 3),
                   (?l1 AND 0x0f) OR push_bit 4 (drop_bit 2 ?h AND 3),
                   drop_bit 4 ?l0 OR push_bit 4 (drop_bit 4 ?h AND 3),
                   drop_bit 4 ?l1 OR push_bit 4 (drop_bit 6 ?h AND 3)]"
    have hs: "half = 0 \<or> half = 1" using h by linarith
    have bytes: "byte_at (?ql half) j = (Ok ?l0 :: (8 word, decode_error) outcome)"
        "byte_at (?ql half) (j + 32) = (Ok ?l1 :: (8 word, decode_error) outcome)"
        "byte_at (?qh half) j = (Ok ?h :: (8 word, decode_error) outcome)"
      using hs j assms(1) by (auto simp: byte_at_eq add_ac)
    have quant: "q6_value block (128 * half + 32 * k + j) =
        f32_mul (f32_mul ?d (f32_of_int (sint (block ! (192 + (half * 8 + j div 16 + k * 2))))))
          (f32_of_int (uint (?quants ! k) - 32))" if k: "k < 4" for k
    proof -
      have "k = 0 \<or> k = 1 \<or> k = 2 \<or> k = 3" using k by linarith
      then show ?thesis
        unfolding q6_value_def Let_def q6_quants [OF k h j]
        by (elim disjE) (simp_all add: nibble_def add_ac mult_ac del: One_nat_def)
    qed
    have step: "\<exists>out'. q6_quarter ?d block half j out (enumerate 0 ?quants ! k) = Ok out' \<and>
        lanes_done (q6_value block) half j (Suc k) out'"
      if k: "k < 4" and out: "lanes_done (q6_value block) half j k out" for k out
    proof -
      have "k < length ?quants" using k by simp
      from nth_enumerate_eq [OF this, of 0] have e: "enumerate 0 ?quants ! k = (k, ?quants ! k)"
        unfolding add_0 .
      have "192 + (half * 8 + j div 16 + k * 2) < 210" using h j k by linarith
      then show ?thesis
        using put_lane [OF out h k j quant [OF k, symmetric]] assms(1)
        unfolding e q6_quarter_def prod.case Let_def byte_at_eq by (simp only: if_True and_then.simps)
    qed
    have len: "length (enumerate 0 ?quants) = 4" by simp
    have "\<exists>out'. fold_outcome (q6_quarter ?d block half j) out (enumerate 0 ?quants) = Ok out' \<and>
        lanes_done (q6_value block) half j (length (enumerate 0 ?quants)) out'"
      by (rule fold_outcome_progress [where P = "\<lambda>k. lanes_done (q6_value block) half j k"])
         (use out step in simp_all)
    then obtain out' where "fold_outcome (q6_quarter ?d block half j) out (enumerate 0 ?quants) = Ok out'"
      and "lanes_done (q6_value block) half j 4 out'" unfolding len by blast
    then show ?thesis
      using lanes_done_next(1) unfolding q6_index_def bytes and_then.simps Let_def by blast
  qed
  have half: "\<exists>out'. fold_outcome (q6_index ?d block (?ql half) (?qh half) half) out [0..<32] = Ok out' \<and>
      lanes_done (q6_value block) (Suc half) 0 0 out'"
    if "half < 2" "lanes_done (q6_value block) half 0 0 out" for half out
  proof -
    have "\<exists>out'. fold_outcome (q6_index ?d block (?ql half) (?qh half) half) out [0..<32] = Ok out' \<and>
        lanes_done (q6_value block) half (length [0..<32]) 0 out'"
      by (rule fold_outcome_progress [where P = "\<lambda>j. lanes_done (q6_value block) half j 0"])
         (use that lane [OF that(1)] in \<open>simp_all del: upt_rec_numeral\<close>)
    then show ?thesis using lanes_done_next(2) by (simp del: upt_rec_numeral) blast
  qed
  have start: "lanes_done (q6_value block) 0 0 0 output" using assms(2) by (simp add: lanes_done_def)
  have slices: "slice (take 128 block) (h * 64) (h * 64 + 64) = (Ok (?ql h) :: (_, decode_error) outcome)"
      "slice (take 64 (drop 128 block)) (h * 32) (h * 32 + 32) = (Ok (?qh h) :: (_, decode_error) outcome)"
    if "h < 2" for h
  proof -
    have "h = 0 \<or> h = 1" using that by linarith
    then show "slice (take 128 block) (h * 64) (h * 64 + 64) = (Ok (?ql h) :: (_, decode_error) outcome)"
      "slice (take 64 (drop 128 block)) (h * 32) (h * 32 + 32) = (Ok (?qh h) :: (_, decode_error) outcome)"
      using assms(1) by (auto simp: slice_eq)
  qed
  let ?f = "\<lambda>out half. and_then (slice (take 128 block) (half * 64) (half * 64 + 64)) (\<lambda>ql.
       and_then (slice (take 64 (drop 128 block)) (half * 32) (half * 32 + 32)) (\<lambda>qh.
       fold_outcome (q6_index ?d block ql qh half) out [0..<32]))"
  have "\<exists>out. fold_outcome ?f output [0..<2] = Ok out \<and> lanes_done (q6_value block) (length [0..<2]) 0 0 out"
  proof (rule fold_outcome_progress [where P = "\<lambda>h. lanes_done (q6_value block) h 0 0", OF start])
    fix h out assume "h < length [0..<2]" and out: "lanes_done (q6_value block) h 0 0 out"
    then have h: "h < 2" by simp
    then have "[0..<2] ! h = h" by simp
    with half [OF h out] show "\<exists>out'. ?f out ([0..<2] ! h) = Ok out' \<and> lanes_done (q6_value block) (Suc h) 0 0 out'"
      by (simp only: slices [OF h] and_then.simps)
  qed
  then obtain out where run: "fold_outcome ?f output [0..<2] = Ok out" and out: "lanes_done (q6_value block) 2 0 0 out"
    by auto
  have "out = map (q6_value block) [0..<256]"
    using out by (auto simp: lanes_done_def div_less_iff_less_mult intro!: nth_equalityI)
  with run show ?thesis using assms(1) by (simp add: decode_q6_k_def slice_eq fp16_at_eq)
qed

unbundle bit_operations_syntax

section \<open>Rounding\<close>

fun f32_number :: "f32 \<Rightarrow> int option" where
  "f32_number (Finite s m) = Some (signed s m)"
| "f32_number _ = None"

text \<open>The 24-bit number nearest to \<open>x\<close>, both in units of \<open>2 ^ -149\<close>.\<close>

definition round_to_f32 :: "int \<Rightarrow> int" where
  "round_to_f32 x = (let n = nat \<bar>x\<bar>; sh = bit_length n - 24 in sgn x * int (nearest n sh * 2 ^ sh))"

lemma bit_length_lower: "n \<noteq> 0 \<Longrightarrow> 2 ^ (bit_length n - 1) \<le> n"
  using bit_length_le [of n "bit_length n - 1"] bit_length_le [of n 0] by (cases "bit_length n") auto

lemma nearest_close: "2 * \<bar>int (nearest n s * 2 ^ s) - int n\<bar> \<le> 2 ^ s"
proof -
  define q r where "q = n div 2 ^ s" and "r = n mod 2 ^ s"
  have n: "n = q * 2 ^ s + r" unfolding q_def r_def by (rule div_mult_mod_eq [symmetric])
  have r: "r < 2 ^ s" by (simp add: r_def)
  show ?thesis
  proof (cases "2 ^ s < 2 * r \<or> 2 * r = 2 ^ s \<and> odd q")
    case True
    then have "nearest n s = q + 1" by (simp add: nearest_def q_def r_def Let_def)
    then have "int (nearest n s * 2 ^ s) - int n = 2 ^ s - int r" unfolding n by (simp add: algebra_simps)
    moreover have "int (2 ^ s) \<le> int (2 * r)" using True by (intro iffD2 [OF of_nat_le_iff]) auto
    moreover have "int r < int (2 ^ s)" using r by (rule iffD2 [OF of_nat_less_iff])
    ultimately show ?thesis by simp
  next
    case False
    then have "nearest n s = q" by (simp add: nearest_def q_def r_def Let_def)
    then have "int (nearest n s * 2 ^ s) - int n = - int r" unfolding n by simp
    moreover have "int (2 * r) \<le> int (2 ^ s)" using False by (intro iffD2 [OF of_nat_le_iff]) auto
    ultimately show ?thesis by simp
  qed
qed

lemma round_f32_exact:
  assumes "k < 2 ^ 24" and "K \<le> e" and "k * 2 ^ (e - K) < 2 ^ 277"
  shows "round_f32 s (k * 2 ^ e) K = Finite s (k * 2 ^ (e - K))"
proof -
  have "k * 2 ^ e < 2 ^ (24 + e)" using assms(1) by (simp add: power_add)
  then have "bit_length (k * 2 ^ e) \<le> 24 + e" by (simp add: bit_length_le)
  then have sh: "max (bit_length (k * 2 ^ e) - 24) K \<le> e" using assms(2) by simp
  define sh' where "sh' = max (bit_length (k * 2 ^ e) - 24) K"
  have le: "sh' \<le> e" "K \<le> sh'" using sh by (simp_all add: sh'_def)
  have "k * 2 ^ e = (k * 2 ^ (e - sh')) * 2 ^ sh'"
    using le(1) by (simp add: mult.assoc flip: power_add)
  then have "nearest (k * 2 ^ e) sh' = k * 2 ^ (e - sh')" by (metis nearest_exact)
  then have "nearest (k * 2 ^ e) sh' * 2 ^ (sh' - K) = k * 2 ^ (e - K)"
    using le by (simp add: mult.assoc flip: power_add)
  then show ?thesis using assms(3) by (simp add: round_f32_def Let_def flip: sh'_def)
qed

lemma f32_of_int_exact:
  assumes "\<bar>i\<bar> < 2 ^ 24"
  shows "f32_of_int i = Finite (i < 0) (nat \<bar>i\<bar> * 2 ^ 149)"
proof -
  have "nat \<bar>i\<bar> < 2 ^ 24" using assms by simp
  moreover from this have "nat \<bar>i\<bar> * 2 ^ (149 - 0) < 2 ^ 277" by simp
  ultimately show ?thesis unfolding f32_of_int_def by (subst round_f32_exact) simp_all
qed

lemma signed_mult: "signed (a \<noteq> b) (m * n) = signed a m * signed b n"
  by (auto simp: signed_def)

lemma signed_int: "signed (i < 0) (nat \<bar>i\<bar>) = i"
  by (auto simp: signed_def)

lemma f32_mul_int:
  assumes "j * nat \<bar>i\<bar> < 2 ^ 24" and "\<bar>i\<bar> < 2 ^ 24" and "t \<le> 155"
  shows "f32_mul (Finite a (j * 2 ^ t)) (f32_of_int i) = Finite (a \<noteq> (i < 0)) (j * nat \<bar>i\<bar> * 2 ^ t)"
proof -
  have "j * nat \<bar>i\<bar> * 2 ^ t < 2 ^ 24 * 2 ^ t" using assms(1) by simp
  also have "\<dots> \<le> 2 ^ 24 * (2 ^ 155 :: nat)" using assms(3) by (intro mult_le_mono2 power_increasing) simp_all
  also have "\<dots> < 2 ^ 277" by simp
  finally have "round_f32 (a \<noteq> (i < 0)) (j * nat \<bar>i\<bar> * 2 ^ (t + 149)) 149 =
      Finite (a \<noteq> (i < 0)) (j * nat \<bar>i\<bar> * 2 ^ (t + 149 - 149))"
    using assms(1) by (intro round_f32_exact) simp_all
  then show ?thesis
    unfolding f32_of_int_exact [OF assms(2)] by (simp add: power_add mult_ac)
qed

lemma round_to_f32_exact:
  assumes "k < 2 ^ 24"
  shows "round_to_f32 (signed s (k * 2 ^ t)) = signed s (k * 2 ^ t)"
proof -
  have "k * 2 ^ t < 2 ^ (24 + t)" using assms by (simp add: power_add)
  then have sh: "bit_length (k * 2 ^ t) - 24 \<le> t" using bit_length_le [of "k * 2 ^ t" "24 + t"] by simp
  define sh where "sh = bit_length (k * 2 ^ t) - 24"
  have "k * 2 ^ t = (k * 2 ^ (t - sh)) * 2 ^ sh"
    using sh by (simp add: sh_def mult.assoc flip: power_add)
  then have "nearest (k * 2 ^ t) sh * 2 ^ sh = k * 2 ^ t" by (metis nearest_exact)
  moreover have "nat \<bar>signed s (k * 2 ^ t)\<bar> = k * 2 ^ t" by (simp add: signed_def nat_mult_distrib nat_power_eq)
  ultimately have "round_to_f32 (signed s (k * 2 ^ t)) = sgn (signed s (k * 2 ^ t)) * int (k * 2 ^ t)"
    unfolding round_to_f32_def Let_def by (simp only: flip: sh_def)
  then show ?thesis by (cases "k = 0") (auto simp: signed_def sgn_mult)
qed

lemma f32_sub_number:
  assumes "\<bar>signed a m - signed b n\<bar> < 2 ^ 276"
  shows "f32_number (f32_sub (Finite a m) (Finite b n)) = Some (round_to_f32 (signed a m - signed b n))"
proof -
  define x where "x = signed a m - signed b n"
  have x: "signed a m + signed (\<not> b) n = x" by (simp add: x_def signed_def)
  define k sh where "k = nat \<bar>x\<bar>" and "sh = bit_length k - 24"
  have k: "k < 2 ^ 276" using assms by (simp add: k_def nat_less_iff flip: x_def)
  have sub: "f32_sub (Finite a m) (Finite b n) = (if x = 0 then Finite (a \<and> \<not> b) 0 else round_f32 (x < 0) k 0)"
    by (simp add: f32_sub_def x k_def Let_def)
  have rnd: "round_to_f32 x = sgn x * int (nearest k sh * 2 ^ sh)"
    unfolding round_to_f32_def Let_def sh_def k_def ..
  show ?thesis
  proof (cases "x = 0")
    case True
    then show ?thesis unfolding sub rnd x_def [symmetric] by (simp add: signed_def)
  next
    case False
    then have "k \<noteq> 0" by (simp add: k_def)
    have "2 ^ sh \<le> k"
    proof -
      have "(2 :: nat) ^ sh \<le> 2 ^ (bit_length k - 1)" unfolding sh_def by (intro power_increasing) simp_all
      with bit_length_lower [OF \<open>k \<noteq> 0\<close>] show ?thesis by (rule order.trans [rotated])
    qed
    moreover have "nearest k sh \<le> k div 2 ^ sh + 1" by (simp add: nearest_def Let_def)
    then have "nearest k sh * 2 ^ sh \<le> (k div 2 ^ sh + 1) * 2 ^ sh" by (rule mult_le_mono1)
    then have "nearest k sh * 2 ^ sh \<le> k div 2 ^ sh * 2 ^ sh + 2 ^ sh" by simp
    moreover have "k div 2 ^ sh * 2 ^ sh \<le> k" by simp
    ultimately have "nearest k sh * 2 ^ sh \<le> 2 * k" by linarith
    with k have "nearest k sh * 2 ^ sh < 2 ^ 277" by simp
    then have "round_f32 (x < 0) k 0 = Finite (x < 0) (nearest k sh * 2 ^ sh)"
      by (simp add: round_f32_def Let_def flip: sh_def)
    with False show ?thesis
      unfolding sub rnd x_def [symmetric] by (simp add: signed_def sgn_if)
  qed
qed


section \<open>What a decoded value is\<close>

lemma half_value_finite:
  assumes "half_value w = Finite s m"
  obtains j t where "m = j * 2 ^ t" and "j < 2 ^ 11" and "t \<le> 155"
proof -
  define e where "e = unat (take_bit 5 (drop_bit 10 w))"
  define f where "f = unat (take_bit 10 w)"
  have e: "e < 32" unfolding e_def unsigned_take_bit_eq using take_bit_nat_less_exp [of 5] by simp
  have f: "f < 1024" unfolding f_def unsigned_take_bit_eq using take_bit_nat_less_exp [of 10] by simp
  note half = assms [unfolded half_value_def, folded e_def f_def, unfolded Let_def]
  show thesis
  proof (cases "e = 0")
    case True
    then show thesis using half f that [of f 125] by simp
  next
    case False
    have "m = (2 ^ 10 + f) * 2 ^ (e - 1) * 2 ^ 125"
      using half False by (auto split: if_splits)
    then have "m = (2 ^ 10 + f) * 2 ^ (e - 1 + 125)" by (simp only: power_add mult.assoc)
    then show thesis using that [of "2 ^ 10 + f" "e - 1 + 125"] e f by simp
  qed
qed

fun k_value :: "ggml_k_quant \<Rightarrow> 8 word list \<Rightarrow> nat \<Rightarrow> f32" where
  "k_value Q2K = q2_value"
| "k_value Q3K = q3_value"
| "k_value Q4K = q4_value"
| "k_value Q5K = q5_value"
| "k_value Q6K = q6_value"

text \<open>The integers stored for value \<open>i\<close>: the scale, the code, and the minimum (0 without one).\<close>

fun k_code :: "ggml_k_quant \<Rightarrow> 8 word list \<Rightarrow> nat \<Rightarrow> int \<times> int \<times> int" where
  "k_code Q2K block i =
     (uint (block ! (i div 16) AND 0x0f),
      uint (drop_bit (2 * (i mod 128 div 32)) (block ! (16 + 32 * (i div 128) + i mod 32)) AND 3),
      uint (drop_bit 4 (block ! (i div 16))))"
| "k_code Q3K block i =
     (q3_group_scale block (i div 16),
      uint (drop_bit (2 * (i mod 128 div 32)) (block ! (32 + 32 * (i div 128) + i mod 32)) AND 3) -
        (if bit (block ! (i mod 32)) (4 * (i div 128) + i mod 128 div 32) then 0 else 4), 0)"
| "k_code Q4K block i =
     (uint (fst (k4_pair block (i div 32))),
      uint (nibble (block ! (16 + 32 * (i div 64) + i mod 32)) (i div 32)),
      uint (snd (k4_pair block (i div 32))))"
| "k_code Q5K block i =
     (uint (fst (k4_pair block (i div 32))),
      uint (nibble (block ! (48 + 32 * (i div 64) + i mod 32)) (i div 32) +
        (if bit (block ! (16 + i mod 32)) (i div 32) then 16 else 0)),
      uint (snd (k4_pair block (i div 32))))"
| "k_code Q6K block i =
     (let half = i div 128; quarter = i mod 128 div 32; j = i mod 32 in
      (sint (block ! (192 + 8 * half + j div 16 + 2 * quarter)),
       uint (nibble (block ! (64 * half + 32 * (quarter mod 2) + j)) (quarter div 2) OR
         push_bit 4 (drop_bit (2 * quarter) (block ! (128 + 32 * half + j)) AND 3)) - 32, 0))"

fun scale_offset :: "ggml_k_quant \<Rightarrow> nat" where
  "scale_offset Q2K = 80"
| "scale_offset Q3K = 108"
| "scale_offset Q4K = 0"
| "scale_offset Q5K = 0"
| "scale_offset Q6K = 208"

fun min_offset :: "ggml_k_quant \<Rightarrow> nat option" where
  "min_offset Q2K = Some 82"
| "min_offset Q3K = None"
| "min_offset Q4K = Some 2"
| "min_offset Q5K = Some 2"
| "min_offset Q6K = None"

definition scaled :: "f32 \<Rightarrow> int \<Rightarrow> int \<Rightarrow> f32" where
  "scaled d s q = f32_mul (f32_mul d (f32_of_int s)) (f32_of_int q)"

lemma k_value_code:
  "k_value codec block i = (case k_code codec block i of (s, q, t) \<Rightarrow>
     (case min_offset codec of
        None \<Rightarrow> scaled (half_at block (scale_offset codec)) s q
      | Some at \<Rightarrow> f32_sub (scaled (half_at block (scale_offset codec)) s q)
          (f32_mul (half_at block at) (f32_of_int t))))"
  by (cases codec)
     (simp_all add: q2_value_def q3_value_def q4_value_def q5_value_def q6_value_def scaled_def
        u8_f32_def Let_def case_prod_beta)

lemma byte_range: "0 \<le> uint b \<and> uint b < 256" for b :: "8 word"
  using uint_range_size [of b] by (simp add: word_size)

lemma and_3: "uint (b AND 3) \<le> 3" for b :: "8 word"
  using word_and_le1 [of b 3] by (simp add: word_le_def)

lemma nibble_range: "uint (nibble b g) < 16"
proof -
  have "uint (b AND 15) \<le> 15" using word_and_le1 [of b 15] by (simp add: word_le_def)
  moreover have "uint (drop_bit 4 b) = uint b div 16"
    by (simp add: uint_div_distrib drop_bit_eq_div)
  then have "uint (drop_bit 4 b) < 16" using byte_range [of b] by simp
  ultimately show ?thesis by (simp add: nibble_def)
qed


lemma q3_scale_range: "\<bar>q3_group_scale block g\<bar> \<le> 255"
  using byte_range [of "(if g < 8 then block ! (96 + g) AND 0x0f else drop_bit 4 (block ! (88 + g))) OR
      push_bit 4 (drop_bit (2 * (g div 4)) (block ! (104 + g mod 4)) AND 3)"]
  unfolding q3_group_scale_def Let_def by linarith

lemma q5_quant_range: "uint (nibble b g + (if c then 16 else 0)) \<le> 32"
  using uint_add_le [of "nibble b g" "if c then 16 else 0"] nibble_range [of b g] by auto

lemma q6_quant_range: "uint (nibble b g OR push_bit 4 (c AND 3)) < 64"
proof -
  have "uint (push_bit 4 (c AND 3)) = uint (c AND 3) * 16"
    using and_3 [of c] by (simp add: uint_word_ariths push_bit_eq_mult uint_mult_lem)
  then have "uint (push_bit 4 (c AND 3)) < 2 ^ 6" using and_3 [of c] by simp
  moreover have "uint (nibble b g) < 2 ^ 6" using nibble_range [of b g] by simp
  ultimately have "uint (nibble b g) OR uint (push_bit 4 (c AND 3)) < 2 ^ 6"
    by (intro OR_upper) simp_all
  then show ?thesis by (simp add: uint_or)
qed

lemma q3_quant_range: "\<bar>uint (b AND 3) - (if c then 0 else 4)\<bar> \<le> 32" for b :: "8 word"
proof -
  define y where "y = uint (b AND 3)"
  have "0 \<le> y" "y \<le> 3" using and_3 [of b] by (simp_all add: y_def)
  then show ?thesis unfolding y_def [symmetric] by (cases c) simp_all
qed

lemma k_code_range:
  assumes "k_code codec block i = (s, q, t)"
  shows "\<bar>s\<bar> \<le> 255 \<and> \<bar>q\<bar> \<le> 32 \<and> \<bar>t\<bar> \<le> 255 \<and> (min_offset codec = None \<longrightarrow> t = 0)"
proof (cases codec)
  case Q2K
  then show ?thesis
    using assms byte_range [of "block ! (i div 16) AND 15"] byte_range [of "drop_bit 4 (block ! (i div 16))"]
      and_3 [of "drop_bit (2 * (i mod 128 div 32)) (block ! (16 + 32 * (i div 128) + i mod 32))"]
    by auto
next
  case Q3K
  then show ?thesis
    using assms q3_scale_range [of block "i div 16"]
      q3_quant_range [of "drop_bit (2 * (i mod 128 div 32)) (block ! (32 + 32 * (i div 128) + i mod 32))"
        "bit (block ! (i mod 32)) (4 * (i div 128) + i mod 128 div 32)"]
    by auto
next
  case Q4K
  then show ?thesis
    using assms byte_range [of "fst (k4_pair block (i div 32))"] byte_range [of "snd (k4_pair block (i div 32))"]
      nibble_range [of "block ! (16 + 32 * (i div 64) + i mod 32)" "i div 32"] by auto
next
  case Q5K
  then show ?thesis
    using assms byte_range [of "fst (k4_pair block (i div 32))"] byte_range [of "snd (k4_pair block (i div 32))"]
      q5_quant_range [of "block ! (48 + 32 * (i div 64) + i mod 32)" "i div 32"
        "bit (block ! (16 + i mod 32)) (i div 32)"] by auto
next
  case Q6K
  let ?h = "i div 128" and ?q = "i mod 128 div 32" and ?j = "i mod 32"
  let ?code = "nibble (block ! (64 * ?h + 32 * (?q mod 2) + ?j)) (?q div 2) OR
      push_bit 4 (drop_bit (2 * ?q) (block ! (128 + 32 * ?h + ?j)) AND 3)"
  have eq: "s = sint (block ! (192 + 8 * ?h + ?j div 16 + 2 * ?q))" "q = uint ?code - 32" "t = 0"
    using assms Q6K by (simp_all add: Let_def)
  have "\<bar>sint b\<bar> \<le> 128" for b :: "8 word" using sint_lt [of b] sint_ge [of b] by simp
  from this [of "block ! (192 + 8 * ?h + ?j div 16 + 2 * ?q)", folded eq(1)] have "\<bar>s\<bar> \<le> 255" by simp
  moreover have "0 \<le> uint ?code" by simp
  with q6_quant_range [of "block ! (64 * ?h + 32 * (?q mod 2) + ?j)" "?q div 2"
      "drop_bit (2 * ?q) (block ! (128 + 32 * ?h + ?j))"] have "\<bar>q\<bar> \<le> 32"
    unfolding eq(2) by linarith
  ultimately show ?thesis using eq(3) by simp
qed

lemma scaled_exact:
  assumes "half_value w = Finite a m" and "\<bar>s\<bar> \<le> 255" and "\<bar>q\<bar> \<le> 32"
  shows "\<exists>c n k t. scaled (half_value w) s q = Finite c n \<and> signed c n = signed a m * (s * q) \<and>
    n = k * 2 ^ t \<and> k < 2 ^ 24 \<and> t \<le> 155"
proof -
  from half_value_finite [OF assms(1)] obtain j t where
    m: "m = j * 2 ^ t" and j: "j < 2 ^ 11" and t: "t \<le> 155" by blast
  have s: "nat \<bar>s\<bar> \<le> 255" and q: "nat \<bar>q\<bar> \<le> 32" using assms(2,3) by linarith+
  have "j * nat \<bar>s\<bar> \<le> 2047 * 255" using j s by (intro mult_le_mono) simp_all
  then have js: "j * nat \<bar>s\<bar> < 2 ^ 24" by simp
  have "j * nat \<bar>s\<bar> * nat \<bar>q\<bar> \<le> 2047 * 255 * 32" using j s q by (intro mult_le_mono) simp_all
  then have jsq: "j * nat \<bar>s\<bar> * nat \<bar>q\<bar> < 2 ^ 24" by simp
  have small: "\<bar>s\<bar> < 2 ^ 24" "\<bar>q\<bar> < 2 ^ 24" using assms(2,3) by simp_all
  have "scaled (half_value w) s q =
      Finite ((a \<noteq> (s < 0)) \<noteq> (q < 0)) (j * nat \<bar>s\<bar> * nat \<bar>q\<bar> * 2 ^ t)"
    unfolding scaled_def assms(1) m
    using f32_mul_int [OF js small(1) t, of a] f32_mul_int [OF jsq small(2) t, of "a \<noteq> (s < 0)"] by simp
  moreover have "signed ((a \<noteq> (s < 0)) \<noteq> (q < 0)) (j * nat \<bar>s\<bar> * nat \<bar>q\<bar> * 2 ^ t) = signed a m * (s * q)"
  proof -
    have eq: "j * nat \<bar>s\<bar> * nat \<bar>q\<bar> * 2 ^ t = m * nat \<bar>s\<bar> * nat \<bar>q\<bar>" by (simp add: m)
    show ?thesis unfolding eq signed_mult signed_int by (rule mult.assoc)
  qed
  ultimately show ?thesis using jsq t by blast
qed


text \<open>
  C25. Decoding is exact about the block. It fails exactly when the block has not the length of the
  format, and otherwise never panics and overwrites every one of the 256 outputs: value \<open>i\<close> is
  computed from the scale, the code bits and the minimum that the format stores for position \<open>i\<close>.
\<close>
theorem decode_block_exact:
  assumes "length output = 256"
  shows "decode_ggml_k_block codec block output =
    (if length block = block_bytes codec then Ok (map (k_value codec block) [0..<256])
     else Err (BlockLength codec (length block) (block_bytes codec)))"
  using assms decode_q2_k_eq decode_q3_k_eq decode_q4_k_eq decode_q5_k_eq decode_q6_k_eq
  by (cases codec) (simp_all add: decode_ggml_k_block_def)

lemma decode_block_exact_witness:
  "decode_ggml_k_block Q6K (replicate 210 0) (replicate 256 NaN) =
     Ok (map (k_value Q6K (replicate 210 0)) [0..<256]) \<and>
   decode_ggml_k_block Q6K [] (replicate 256 NaN) = Err (BlockLength Q6K 0 210)"
  using decode_block_exact [of "replicate 256 NaN" Q6K "replicate 210 0"]
    decode_block_exact [of "replicate 256 NaN" Q6K "[]"] by simp

text \<open>
  Half-precision fields are read exactly. The loop that normalises a subnormal fraction ends
  for every field, and the 32-bit number that is assembled has the value of the 16-bit one:
  zeros, subnormals, normals, infinities and NaN, sign included.
\<close>
theorem fp16_exact:
  "\<exists>w. fp16_bits bits = Some w \<and> f32_from_bits w = half_value bits"
  by (rule fp16_bits_value)



text \<open>A block of \<open>Q4_K\<close> with both block scales 1.0, scale 3 and minimum 2 in group 0, and code 5.\<close>

definition q4_block :: "8 word list" where
  "q4_block = [0, 0x3c, 0, 0x3c, 3, 0, 0, 0, 2, 0, 0, 0, 0, 0, 0, 0] @ replicate 128 5"

lemma q4_block_scale: "half_at q4_block 0 = Finite False (2 ^ 149)" "half_at q4_block 2 = Finite False (2 ^ 149)"
  by (simp_all add: half_at_def q4_block_def u16_from_le_bytes_def half_value_def Let_def)

lemma q4_block_code: "k_code Q4K q4_block 0 = (3, 5, 2)"
  by (simp add: k4_pair_def nibble_def q4_block_def)


end
