(* ===== verification/Gguf.thy ===== *)
theory Gguf
  imports Storage "HOL-Library.Word"
begin

text \<open>
  The parser of GGUF v3 model files (\<open>crates/runtime/src/gguf.rs\<close>): the bounded header reader, the
  metadata table, the tensor catalogue with its geometry and overlap checks, the selection of
  tensors by name, and the chunked reading of a payload.

  Integers of the file are \<open>nat\<close> (\<open>u8\<close> to \<open>u64\<close>) and \<open>int\<close> (\<open>i8\<close> to \<open>i64\<close>), floating-point metadata
  are their bits, and a \<open>String\<close> is the list of its bytes.
\<close>

type_synonym byte = "8 word"
type_synonym bytes = "byte list"

section \<open>Constants and data\<close>

definition gguf_magic :: bytes where
  "gguf_magic = [0x47, 0x47, 0x55, 0x46]"

definition gguf_version :: nat where
  "gguf_version = 3"

definition ggml_quantization_version :: nat where
  "ggml_quantization_version = 2"

definition default_alignment :: nat where
  "default_alignment = 32"

definition js_safe_integer :: nat where
  "js_safe_integer = 9007199254740991"

definition read_chunk_bytes :: nat where
  "read_chunk_bytes = 8 * 1024 * 1024"

definition header_read_chunk_bytes :: nat where
  "header_read_chunk_bytes = 64 * 1024"

definition max_header_bytes :: nat where
  "max_header_bytes = 64 * 1024 * 1024"

definition max_metadata_count :: nat where
  "max_metadata_count = 4096"

definition max_tensor_count :: nat where
  "max_tensor_count = 65536"

definition max_metadata_key_bytes :: nat where
  "max_metadata_key_bytes = 65535"

definition max_tensor_name_bytes :: nat where
  "max_tensor_name_bytes = 64"

definition max_metadata_string_bytes :: nat where
  "max_metadata_string_bytes = 16 * 1024 * 1024"

definition max_metadata_array_elements :: nat where
  "max_metadata_array_elements = 1048576"

text \<open>The messages of \<open>Invalid\<close>, one constructor each, with what the message shows.\<close>

datatype gguf_message =
    HeaderPositionOverflow | HeaderEof | HeaderTooLong
  | InvalidBool nat | CountLimit string nat nat | CountRemaining string nat | TooLarge string
  | NotUtf8 string | UnsafeUnsigned string nat | UnsafeSigned string int
  | NestedArray | ArrayElementType nat | MetadataValueType nat
  | AlignOverflow | BadMagic | BadVersion nat
  | EmptyKey | DuplicateKey bytes
  | MissingArchitecture | ArchitectureType | EmptyArchitecture
  | AlignmentType | AlignmentValue nat
  | EmptyTensorName | DuplicateTensor bytes | TensorRank bytes nat | TensorDimension bytes nat
  | TensorCode nat | TensorOffset bytes nat nat
  | MissingQuantizationVersion | QuantizationVersionType | QuantizationVersion nat
  | DataStartBeyondFile | TensorGeometry bytes storage_error
  | TensorOffsetOverflow | TensorEndOverflow | TensorRange bytes nat nat nat
  | TensorOverlap bytes bytes
  | EmptySelection | DuplicateSelection bytes | UnknownSelection bytes
  | DestinationLength bytes nat nat | ReadOffsetOverflow

datatype gguf_error = Invalid gguf_message | Io | Cancelled

datatype metadata_array =
    AU8 "nat list" | AI8 "int list" | AU16 "nat list" | AI16 "int list" | AU32 "nat list"
  | AI32 "int list" | AF32 "nat list" | ABool "bool list" | AString "bytes list"
  | AU64 "nat list" | AI64 "int list" | AF64 "nat list"

datatype metadata_value =
    VU8 nat | VI8 int | VU16 nat | VI16 int | VU32 nat | VI32 int | VF32 nat | VBool bool
  | VString bytes | VU64 nat | VI64 int | VF64 nat | VArray metadata_array

fun array_kind :: "metadata_array \<Rightarrow> string" where
  "array_kind (AU8 _) = ''u8''" | "array_kind (AI8 _) = ''i8''"
| "array_kind (AU16 _) = ''u16''" | "array_kind (AI16 _) = ''i16''"
| "array_kind (AU32 _) = ''u32''" | "array_kind (AI32 _) = ''i32''"
| "array_kind (AF32 _) = ''f32''" | "array_kind (ABool _) = ''bool''"
| "array_kind (AString _) = ''string''" | "array_kind (AU64 _) = ''u64''"
| "array_kind (AI64 _) = ''i64''" | "array_kind (AF64 _) = ''f64''"

fun value_kind :: "metadata_value \<Rightarrow> string" where
  "value_kind (VU8 _) = ''u8''" | "value_kind (VI8 _) = ''i8''"
| "value_kind (VU16 _) = ''u16''" | "value_kind (VI16 _) = ''i16''"
| "value_kind (VU32 _) = ''u32''" | "value_kind (VI32 _) = ''i32''"
| "value_kind (VF32 _) = ''f32''" | "value_kind (VBool _) = ''bool''"
| "value_kind (VString _) = ''string''" | "value_kind (VU64 _) = ''u64''"
| "value_kind (VI64 _) = ''i64''" | "value_kind (VF64 _) = ''f64''"
| "value_kind (VArray a) = array_kind a"

record metadata_entry =
  entry_key :: bytes
  entry_value :: metadata_value

datatype tensor_format = TF32 | TQ2K | TQ3K | TQ4K | TQ5K | TQ6K

fun tensor_format_name :: "tensor_format \<Rightarrow> string" where
  "tensor_format_name TF32 = ''F32''"
| "tensor_format_name TQ2K = ''Q2_K''"
| "tensor_format_name TQ3K = ''Q3_K''"
| "tensor_format_name TQ4K = ''Q4_K''"
| "tensor_format_name TQ5K = ''Q5_K''"
| "tensor_format_name TQ6K = ''Q6_K''"

definition format_from_code :: "nat \<Rightarrow> (tensor_format, gguf_error) outcome" where
  "format_from_code code =
     (if code = 0 then Ok TF32
      else if code = 10 then Ok TQ2K
      else if code = 11 then Ok TQ3K
      else if code = 12 then Ok TQ4K
      else if code = 13 then Ok TQ5K
      else if code = 14 then Ok TQ6K
      else Err (Invalid (TensorCode code)))"

fun representation :: "tensor_format \<Rightarrow> storage_representation" where
  "representation TF32 = DenseStorage"
| "representation TQ2K = Packed (GgmlKQuant Q2K)"
| "representation TQ3K = Packed (GgmlKQuant Q3K)"
| "representation TQ4K = Packed (GgmlKQuant Q4K)"
| "representation TQ5K = Packed (GgmlKQuant Q5K)"
| "representation TQ6K = Packed (GgmlKQuant Q6K)"

definition format_storage :: "tensor_format \<Rightarrow> storage_metadata" where
  "format_storage f = \<lparr>meta_representation = representation f, meta_layout = Canonical\<rparr>"

definition format_value_spec :: "tensor_format \<Rightarrow> nat list \<Rightarrow> value_spec" where
  "format_value_spec f sh = \<lparr>semantic_dtype = F32, logical_shape = sh,
     value_storage_spec = \<lparr>spec_representation = representation f, spec_layout = SpecCanonical\<rparr>\<rparr>"

fun quantization :: "tensor_format \<Rightarrow> ggml_k_quant option" where
  "quantization TF32 = None"
| "quantization TQ2K = Some Q2K"
| "quantization TQ3K = Some Q3K"
| "quantization TQ4K = Some Q4K"
| "quantization TQ5K = Some Q5K"
| "quantization TQ6K = Some Q6K"

record tensor_descriptor =
  td_name :: bytes
  td_format :: tensor_format
  td_logical_shape :: "nat list"
  td_physical_shape :: "nat list"
  td_data_offset :: nat
  td_byte_len :: nat

record gguf_file =
  gf_architecture :: bytes
  gf_metadata :: "metadata_entry list"
  gf_tensors :: "tensor_descriptor list"

record raw_tensor =
  raw_name :: bytes
  raw_dimensions :: "nat list"
  raw_format :: tensor_format
  raw_offset :: nat

section \<open>The header reader\<close>

text \<open>
  The world of a call: the bytes of the file, whether the seek to its start succeeds, the length
  that its metadata reports (\<open>None\<close> when that call fails), how many polls of the cancellation flag
  find it unset (\<open>None\<close>: no flag, or one that is never set; a flag that is set stays set), which
  reservations of memory and which reads of the operating system succeed.
\<close>

record gguf_env =
  env_bytes :: bytes
  env_seek :: bool
  env_len :: "nat option"
  env_cancel :: "nat option"
  env_reserve :: "string \<Rightarrow> nat \<Rightarrow> bool"
  env_io :: "nat \<Rightarrow> nat \<Rightarrow> bool"

text \<open>\<open>rd_position\<close> is the file cursor too: the reader alone moves it. \<open>rd_polls\<close> counts the polls.\<close>

record reader =
  rd_len :: nat
  rd_position :: nat
  rd_polls :: nat

type_synonym 'a parser = "gguf_env \<Rightarrow> reader \<Rightarrow> ('a \<times> reader, gguf_error) outcome"

definition yields :: "'a \<Rightarrow> 'a parser" where
  "yields x = (\<lambda>e r. Ok (x, r))"

definition fails :: "gguf_message \<Rightarrow> 'a parser" where
  "fails m = (\<lambda>e r. Err (Invalid m))"

definition bind :: "'a parser \<Rightarrow> ('a \<Rightarrow> 'b parser) \<Rightarrow> 'b parser" where
  "bind p f = (\<lambda>e r. and_then (p e r) (\<lambda>(x, r'). f x e r'))"

definition lift :: "('a, gguf_error) outcome \<Rightarrow> 'a parser" where
  "lift m = (\<lambda>e r. and_then m (\<lambda>x. Ok (x, r)))"

definition poll :: "gguf_env \<Rightarrow> nat \<Rightarrow> bool" where
  "poll e n = (case env_cancel e of None \<Rightarrow> False | Some k \<Rightarrow> k \<le> n)"

definition check_cancelled :: "unit parser" where
  "check_cancelled = (\<lambda>e r.
     if poll e (rd_polls r) then Err Cancelled else Ok ((), r\<lparr>rd_polls := rd_polls r + 1\<rparr>))"

text \<open>\<open>File::read_exact\<close>: all bytes or an error.\<close>

definition file_read :: "gguf_env \<Rightarrow> nat \<Rightarrow> nat \<Rightarrow> (bytes, gguf_error) outcome" where
  "file_read e at n =
     (if env_io e at n \<and> at + n \<le> length (env_bytes e) then Ok (take n (drop at (env_bytes e)))
      else Err Io)"

definition read_chunk :: "nat \<Rightarrow> bytes parser" where
  "read_chunk n = bind check_cancelled (\<lambda>_. (\<lambda>e r.
     and_then (file_read e (rd_position r) n) (\<lambda>bs. Ok (bs, r\<lparr>rd_position := rd_position r + n\<rparr>))))"

function read_chunks :: "nat \<Rightarrow> bytes parser" where
  "read_chunks n =
     (if n = 0 then yields []
      else let c = min n header_read_chunk_bytes in
        bind (read_chunk c) (\<lambda>bs. bind (read_chunks (n - c)) (\<lambda>rest. yields (bs @ rest))))"
  by pat_completeness auto
termination by (relation "measure id") (auto simp: header_read_chunk_bytes_def)

declare read_chunks.simps [simp del]

definition read_exact :: "nat \<Rightarrow> bytes parser" where
  "read_exact n = bind check_cancelled (\<lambda>_. (\<lambda>e r.
     (case checked_add (rd_position r) n of
        None \<Rightarrow> Err (Invalid HeaderPositionOverflow)
      | Some end \<Rightarrow>
          if end > rd_len r then Err (Invalid HeaderEof)
          else if end > max_header_bytes then Err (Invalid HeaderTooLong)
          else read_chunks n e r)))"

text \<open>\<open>from_le_bytes\<close>, and two's complement in \<open>w\<close> bits.\<close>

fun le_nat :: "bytes \<Rightarrow> nat" where
  "le_nat [] = 0"
| "le_nat (b # bs) = unat b + 256 * le_nat bs"

definition signed_of :: "nat \<Rightarrow> nat \<Rightarrow> int" where
  "signed_of w n = (if n < 2 ^ (w - 1) then int n else int n - 2 ^ w)"

definition read_unsigned :: "nat \<Rightarrow> nat parser" where
  "read_unsigned width = bind (read_exact width) (\<lambda>bs. yields (le_nat bs))"

definition read_signed :: "nat \<Rightarrow> int parser" where
  "read_signed width = bind (read_unsigned width) (\<lambda>n. yields (signed_of (8 * width) n))"

definition read_u8 :: "nat parser" where "read_u8 = read_unsigned 1"
definition read_i8 :: "int parser" where "read_i8 = read_signed 1"
definition read_u16 :: "nat parser" where "read_u16 = read_unsigned 2"
definition read_i16 :: "int parser" where "read_i16 = read_signed 2"
definition read_u32 :: "nat parser" where "read_u32 = read_unsigned 4"
definition read_i32 :: "int parser" where "read_i32 = read_signed 4"
definition read_u64 :: "nat parser" where "read_u64 = read_unsigned 8"
definition read_i64 :: "int parser" where "read_i64 = read_signed 8"
definition read_f32 :: "nat parser" where "read_f32 = read_u32"
definition read_f64 :: "nat parser" where "read_f64 = read_u64"

definition read_bool :: "bool parser" where
  "read_bool = bind read_u8 (\<lambda>v.
     if v = 0 then yields False else if v = 1 then yields True else fails (InvalidBool v))"

definition count_of :: "nat \<Rightarrow> string \<Rightarrow> nat \<Rightarrow> nat \<Rightarrow> nat parser" where
  "count_of value what minimum_bytes maximum = (\<lambda>e r.
     if value > maximum then Err (Invalid (CountLimit what value maximum))
     else
       let remaining = min (rd_len r) max_header_bytes - rd_position r in
       if minimum_bytes > 0 \<and> value > remaining div minimum_bytes
       then Err (Invalid (CountRemaining what value))
       else Ok (value, r))"

definition reserve :: "nat \<Rightarrow> string \<Rightarrow> unit parser" where
  "reserve n what = (\<lambda>e r.
     if env_reserve e what n then Ok ((), r) else Err (Invalid (TooLarge what)))"

text \<open>\<open>String::from_utf8\<close>: the well-formed byte sequences of the Unicode standard.\<close>

definition between :: "nat \<Rightarrow> byte \<Rightarrow> nat \<Rightarrow> bool" where
  "between lo b hi \<longleftrightarrow> lo \<le> unat b \<and> unat b \<le> hi"

fun utf8_valid :: "bytes \<Rightarrow> bool" where
  "utf8_valid [] = True"
| "utf8_valid (a # as) =
     (if unat a < 0x80 then utf8_valid as
      else (case as of
        [] \<Rightarrow> False
      | b # bs \<Rightarrow>
          if between 0xc2 a 0xdf then between 0x80 b 0xbf \<and> utf8_valid bs
          else (case bs of
            [] \<Rightarrow> False
          | c # cs \<Rightarrow>
              if between 0xe0 a 0xef then
                between (if unat a = 0xe0 then 0xa0 else 0x80) b (if unat a = 0xed then 0x9f else 0xbf) \<and>
                between 0x80 c 0xbf \<and> utf8_valid cs
              else (case cs of
                [] \<Rightarrow> False
              | d # ds \<Rightarrow>
                  between 0xf0 a 0xf4 \<and>
                  between (if unat a = 0xf0 then 0x90 else 0x80) b (if unat a = 0xf4 then 0x8f else 0xbf) \<and>
                  between 0x80 c 0xbf \<and> between 0x80 d 0xbf \<and> utf8_valid ds))))"

definition read_string :: "string \<Rightarrow> nat \<Rightarrow> bytes parser" where
  "read_string what maximum =
     bind read_u64 (\<lambda>byte_len.
     bind (count_of byte_len what 1 maximum) (\<lambda>len.
     bind (reserve len what) (\<lambda>_.
     bind (read_exact len) (\<lambda>bs.
       if utf8_valid bs then yields bs else fails (NotUtf8 what)))))"

section \<open>Metadata\<close>

definition checked_u64_metadata :: "string \<Rightarrow> nat \<Rightarrow> nat parser" where
  "checked_u64_metadata what v =
     (if v > js_safe_integer then fails (UnsafeUnsigned what v) else yields v)"

definition checked_i64_metadata :: "string \<Rightarrow> int \<Rightarrow> int parser" where
  "checked_i64_metadata what v =
     (if v < - int js_safe_integer \<or> v > int js_safe_integer then fails (UnsafeSigned what v)
      else yields v)"

primrec read_many :: "nat \<Rightarrow> 'a parser \<Rightarrow> 'a list parser" where
  "read_many 0 p = yields []"
| "read_many (Suc n) p = bind p (\<lambda>x. bind (read_many n p) (\<lambda>xs. yields (x # xs)))"

definition counted :: "string \<Rightarrow> ('a list \<Rightarrow> metadata_array) \<Rightarrow> 'a parser \<Rightarrow> nat \<Rightarrow> metadata_array parser" where
  "counted what variant p n =
     bind (reserve n what) (\<lambda>_. bind (read_many n p) (\<lambda>xs. yields (variant xs)))"

definition minimum_bytes :: "nat \<Rightarrow> nat option" where
  "minimum_bytes element_type =
     (if element_type \<in> {0, 1, 7} then Some 1
      else if element_type \<in> {2, 3} then Some 2
      else if element_type \<in> {4, 5, 6} then Some 4
      else if element_type \<in> {8, 10, 11, 12} then Some 8
      else None)"

definition array_elements :: "nat \<Rightarrow> nat \<Rightarrow> metadata_array parser" where
  "array_elements element_type n =
     (let numeric = ''metadata array'' in
      if element_type = 0 then counted numeric AU8 read_u8 n
      else if element_type = 1 then counted numeric AI8 read_i8 n
      else if element_type = 2 then counted numeric AU16 read_u16 n
      else if element_type = 3 then counted numeric AI16 read_i16 n
      else if element_type = 4 then counted numeric AU32 read_u32 n
      else if element_type = 5 then counted numeric AI32 read_i32 n
      else if element_type = 6 then counted numeric AF32 read_f32 n
      else if element_type = 7 then counted numeric ABool read_bool n
      else if element_type = 8 then
        counted ''metadata string array'' AString
          (read_string ''metadata array string'' max_metadata_string_bytes) n
      else if element_type = 10 then
        counted ''metadata u64 array'' AU64 (bind read_u64 (checked_u64_metadata ''metadata u64 array'')) n
      else if element_type = 11 then
        counted ''metadata i64 array'' AI64 (bind read_i64 (checked_i64_metadata ''metadata i64 array'')) n
      else if element_type = 12 then counted numeric AF64 read_f64 n
      else lift Panic)"

definition read_array :: "metadata_array parser" where
  "read_array =
     bind read_u32 (\<lambda>element_type.
       if element_type = 9 then fails NestedArray
       else bind read_u64 (\<lambda>count_u64.
         (case minimum_bytes element_type of
            None \<Rightarrow> fails (ArrayElementType element_type)
          | Some least \<Rightarrow>
              bind (count_of count_u64 ''metadata array'' least max_metadata_array_elements)
                (array_elements element_type))))"

definition read_metadata_value :: "nat \<Rightarrow> metadata_value parser" where
  "read_metadata_value value_type =
     (if value_type = 0 then bind read_u8 (yields \<circ> VU8)
      else if value_type = 1 then bind read_i8 (yields \<circ> VI8)
      else if value_type = 2 then bind read_u16 (yields \<circ> VU16)
      else if value_type = 3 then bind read_i16 (yields \<circ> VI16)
      else if value_type = 4 then bind read_u32 (yields \<circ> VU32)
      else if value_type = 5 then bind read_i32 (yields \<circ> VI32)
      else if value_type = 6 then bind read_f32 (yields \<circ> VF32)
      else if value_type = 7 then bind read_bool (yields \<circ> VBool)
      else if value_type = 8 then
        bind (read_string ''metadata string'' max_metadata_string_bytes) (yields \<circ> VString)
      else if value_type = 9 then bind read_array (yields \<circ> VArray)
      else if value_type = 10 then
        bind (bind read_u64 (checked_u64_metadata ''metadata u64'')) (yields \<circ> VU64)
      else if value_type = 11 then
        bind (bind read_i64 (checked_i64_metadata ''metadata i64'')) (yields \<circ> VI64)
      else if value_type = 12 then bind read_f64 (yields \<circ> VF64)
      else fails (MetadataValueType value_type))"

text \<open>
  One turn of the metadata loop. The set of keys the code keeps is that of the entries read so far.
\<close>

definition read_entry :: "metadata_entry list \<Rightarrow> metadata_entry list parser" where
  "read_entry metadata =
     bind (read_string ''metadata key'' max_metadata_key_bytes) (\<lambda>key.
       if key = [] then fails EmptyKey
       else if key \<in> entry_key ` set metadata then fails (DuplicateKey key)
       else bind read_u32 (\<lambda>value_type.
         bind (read_metadata_value value_type) (\<lambda>v.
           yields (metadata @ [\<lparr>entry_key = key, entry_value = v\<rparr>]))))"

primrec repeated :: "nat \<Rightarrow> ('s \<Rightarrow> 's parser) \<Rightarrow> 's \<Rightarrow> 's parser" where
  "repeated 0 f s = yields s"
| "repeated (Suc n) f s = bind (f s) (repeated n f)"

definition ascii :: "string \<Rightarrow> bytes" where
  "ascii cs = map of_char cs"

definition metadata_find :: "metadata_entry list \<Rightarrow> string \<Rightarrow> metadata_value option" where
  "metadata_find metadata key =
     map_option entry_value (find (\<lambda>entry. entry_key entry = ascii key) metadata)"

definition architecture_of :: "metadata_entry list \<Rightarrow> (bytes, gguf_error) outcome" where
  "architecture_of metadata = (case metadata_find metadata ''general.architecture'' of
     None \<Rightarrow> Err (Invalid MissingArchitecture)
   | Some (VString architecture) \<Rightarrow>
       if architecture = [] then Err (Invalid EmptyArchitecture) else Ok architecture
   | Some _ \<Rightarrow> Err (Invalid ArchitectureType))"

definition alignment_of :: "metadata_entry list \<Rightarrow> (nat, gguf_error) outcome" where
  "alignment_of metadata =
     and_then (case metadata_find metadata ''general.alignment'' of
         None \<Rightarrow> Ok default_alignment
       | Some (VU32 v) \<Rightarrow> Ok v
       | Some _ \<Rightarrow> Err (Invalid AlignmentType)) (\<lambda>alignment.
       if alignment = 0 \<or> \<not> is_power_of_two alignment then Err (Invalid (AlignmentValue alignment))
       else Ok alignment)"

section \<open>The tensor catalogue\<close>

definition read_dimension :: "bytes \<Rightarrow> nat parser" where
  "read_dimension name = bind read_u64 (\<lambda>dimension.
     if dimension = 0 \<or> dimension > js_safe_integer then fails (TensorDimension name dimension)
     else yields dimension)"

text \<open>
  One turn of the tensor loop; the flag \<open>has_quantized_tensors\<close> and the set of names are functions
  of the entries read so far.
\<close>

definition read_raw :: "nat \<Rightarrow> bytes \<Rightarrow> raw_tensor parser" where
  "read_raw alignment name =
     bind read_u32 (\<lambda>rnk.
       if \<not> (1 \<le> rnk \<and> rnk \<le> 4) then fails (TensorRank name rnk)
       else bind (reserve rnk ''tensor dimensions'') (\<lambda>_.
       bind (read_many rnk (read_dimension name)) (\<lambda>dimensions.
       bind read_u32 (\<lambda>code.
       bind (lift (format_from_code code)) (\<lambda>format.
       bind read_u64 (\<lambda>relative.
         if relative mod alignment \<noteq> 0 then fails (TensorOffset name relative alignment)
         else yields \<lparr>raw_name = name, raw_dimensions = dimensions, raw_format = format,
                raw_offset = relative\<rparr>))))))"

definition read_tensor :: "nat \<Rightarrow> raw_tensor list \<Rightarrow> raw_tensor list parser" where
  "read_tensor alignment raws =
     bind (read_string ''tensor name'' max_tensor_name_bytes) (\<lambda>name.
       if name = [] then fails EmptyTensorName
       else if name \<in> raw_name ` set raws then fails (DuplicateTensor name)
       else bind (read_raw alignment name) (\<lambda>raw. yields (raws @ [raw])))"

definition check_quantization_version ::
    "metadata_entry list \<Rightarrow> raw_tensor list \<Rightarrow> (unit, gguf_error) outcome" where
  "check_quantization_version metadata raws =
     (if \<exists>r \<in> set raws. quantization (raw_format r) \<noteq> None
      then (case metadata_find metadata ''general.quantization_version'' of
          None \<Rightarrow> Err (Invalid MissingQuantizationVersion)
        | Some (VU32 v) \<Rightarrow>
            if v \<noteq> ggml_quantization_version then Err (Invalid (QuantizationVersion v)) else Ok ()
        | Some _ \<Rightarrow> Err (Invalid QuantizationVersionType))
      else Ok ())"

text \<open>\<open>value & !(alignment - 1)\<close> clears the low bits: it subtracts the remainder.\<close>

definition align_data :: "nat \<Rightarrow> nat \<Rightarrow> (nat, gguf_error) outcome" where
  "align_data v alignment =
     and_then (ok_or (Invalid AlignOverflow) (checked_add v (alignment - 1))) (\<lambda>sum.
       Ok (sum - sum mod alignment))"

definition place_tensor :: "nat \<Rightarrow> nat \<Rightarrow> raw_tensor \<Rightarrow> (tensor_descriptor, gguf_error) outcome" where
  "place_tensor file_len data_start raw =
     (let logical = rev (raw_dimensions raw) in
      and_then (map_err (\<lambda>e. Invalid (TensorGeometry (raw_name raw) e))
          (canonical_geometry (format_value_spec (raw_format raw) logical))) (\<lambda>geometry.
      and_then (ok_or (Invalid TensorOffsetOverflow) (checked_add data_start (raw_offset raw)))
        (\<lambda>data_offset.
      and_then (ok_or (Invalid TensorEndOverflow) (checked_add data_offset (geometry_bytes geometry)))
        (\<lambda>end.
        if end > file_len then Err (Invalid (TensorRange (raw_name raw) data_offset end file_len))
        else Ok \<lparr>td_name = raw_name raw, td_format = raw_format raw, td_logical_shape = logical,
               td_physical_shape = physical_shape geometry, td_data_offset = data_offset,
               td_byte_len = geometry_bytes geometry\<rparr>))))"

text \<open>
  The ranges sorted by their start, and the test of neighbours. The sort of the code is unstable:
  of two ranges with one start either may come first; both orders fail the test.
\<close>

definition tensor_range :: "tensor_descriptor \<Rightarrow> nat \<times> nat \<times> bytes" where
  "tensor_range t = (td_data_offset t, wrapping_add (td_data_offset t) (td_byte_len t), td_name t)"

fun check_neighbours :: "(nat \<times> nat \<times> bytes) list \<Rightarrow> (unit, gguf_error) outcome" where
  "check_neighbours (a # b # rest) =
     (if fst b < fst (snd a) then Err (Invalid (TensorOverlap (snd (snd a)) (snd (snd b))))
      else check_neighbours (b # rest))"
| "check_neighbours _ = Ok ()"

definition check_overlaps :: "tensor_descriptor list \<Rightarrow> (unit, gguf_error) outcome" where
  "check_overlaps tensors = check_neighbours (sort_key fst (map tensor_range tensors))"

section \<open>Parsing\<close>

definition read_preamble :: "(nat \<times> nat) parser" where
  "read_preamble =
     bind (read_exact 4) (\<lambda>magic.
       if magic \<noteq> gguf_magic then fails BadMagic
       else bind read_u32 (\<lambda>version.
         if version \<noteq> gguf_version then fails (BadVersion version)
         else bind read_u64 (\<lambda>tensor_count.
           bind read_u64 (\<lambda>metadata_count.
           bind (count_of metadata_count ''metadata'' 13 max_metadata_count) (\<lambda>metadata_count.
           bind (count_of tensor_count ''tensor'' 32 max_tensor_count) (\<lambda>tensor_count.
             yields (metadata_count, tensor_count)))))))"

definition read_metadata :: "nat \<Rightarrow> metadata_entry list parser" where
  "read_metadata n =
     bind (reserve n ''metadata table'') (\<lambda>_.
     bind (reserve n ''metadata key set'') (\<lambda>_. repeated n read_entry []))"

definition read_catalogue :: "nat \<Rightarrow> nat \<Rightarrow> raw_tensor list parser" where
  "read_catalogue alignment n =
     bind (reserve n ''tensor catalog'') (\<lambda>_.
     bind (reserve n ''tensor name set'') (\<lambda>_. repeated n (read_tensor alignment) []))"

definition place_catalogue :: "nat \<Rightarrow> nat \<Rightarrow> raw_tensor list \<Rightarrow> tensor_descriptor list parser" where
  "place_catalogue alignment tensor_count raws = (\<lambda>e r.
     and_then (align_data (rd_position r) alignment) (\<lambda>data_start.
       if data_start > rd_len r then Err (Invalid DataStartBeyondFile)
       else bind (reserve tensor_count ''tensor descriptors'') (\<lambda>_.
         bind (lift (traverse (place_tensor (rd_len r) data_start) raws)) (\<lambda>tensors.
         bind (reserve (length tensors) ''tensor ranges'') (\<lambda>_.
         bind (lift (check_overlaps tensors)) (\<lambda>_. yields tensors)))) e r))"

definition parse_body :: "gguf_file parser" where
  "parse_body =
     bind read_preamble (\<lambda>(metadata_count, tensor_count).
     bind (read_metadata metadata_count) (\<lambda>metadata.
     bind (lift (architecture_of metadata)) (\<lambda>architecture.
     bind (lift (alignment_of metadata)) (\<lambda>alignment.
     bind (read_catalogue alignment tensor_count) (\<lambda>raws.
     bind (lift (check_quantization_version metadata raws)) (\<lambda>_.
     bind (place_catalogue alignment tensor_count raws) (\<lambda>tensors.
     bind check_cancelled (\<lambda>_.
       yields \<lparr>gf_architecture = architecture, gf_metadata = metadata, gf_tensors = tensors\<rparr>))))))))"

definition parse_gguf :: "gguf_env \<Rightarrow> (gguf_file, gguf_error) outcome" where
  "parse_gguf e =
     (if poll e 0 then Err Cancelled
      else if \<not> env_seek e then Err Io
      else (case env_len e of
          None \<Rightarrow> Err Io
        | Some file_len \<Rightarrow>
            if poll e 1 then Err Cancelled
            else and_then (parse_body e \<lparr>rd_len = file_len, rd_position = 0, rd_polls = 2\<rparr>)
              (\<lambda>(f, _). Ok f)))"

section \<open>Selection and payloads\<close>

text \<open>The set \<open>requested\<close> of the code holds the names seen so far.\<close>

fun request_names :: "gguf_env \<Rightarrow> nat \<Rightarrow> bytes list \<Rightarrow> bytes list \<Rightarrow> (nat, gguf_error) outcome" where
  "request_names e polls seen [] = Ok polls"
| "request_names e polls seen (name # names) =
     (if poll e polls then Err Cancelled
      else if name = [] then Err (Invalid EmptySelection)
      else if name \<in> set seen then Err (Invalid (DuplicateSelection name))
      else request_names e (polls + 1) (name # seen) names)"

text \<open>\<open>retain\<close> with \<open>remove\<close>: a requested name keeps its first tensor and leaves the set.\<close>

fun retain_requested :: "bytes list \<Rightarrow> tensor_descriptor list \<Rightarrow> tensor_descriptor list \<times> bytes list" where
  "retain_requested requested [] = ([], requested)"
| "retain_requested requested (t # ts) =
     (if td_name t \<in> set requested
      then (case retain_requested (removeAll (td_name t) requested) ts of (kept, left) \<Rightarrow> (t # kept, left))
      else retain_requested requested ts)"

definition select_tensors ::
    "gguf_env \<Rightarrow> gguf_file \<Rightarrow> bytes list option \<Rightarrow> (tensor_descriptor list, gguf_error) outcome" where
  "select_tensors e f names =
     (if poll e 0 then Err Cancelled
      else (case names of
          None \<Rightarrow> Ok (gf_tensors f)
        | Some names \<Rightarrow>
            if \<not> env_reserve e ''tensor selection'' (length names)
            then Err (Invalid (TooLarge ''tensor selection''))
            else and_then (request_names e 1 [] names) (\<lambda>polls.
              (case retain_requested names (gf_tensors f) of (kept, left) \<Rightarrow>
                 if poll e polls then Err Cancelled
                 else (case find (\<lambda>name. name \<in> set left) names of
                    Some name \<Rightarrow> Err (Invalid (UnknownSelection name))
                  | None \<Rightarrow> Ok kept)))))"

text \<open>
  One chunk of a payload, read at its position in the file into its place in the buffer. An error
  carries the buffer as it is left; what a failed read of the operating system leaves in its chunk
  is not defined, and here the chunk is unchanged.
\<close>

definition read_payload_chunk ::
    "gguf_env \<Rightarrow> tensor_descriptor \<Rightarrow> bytes \<Rightarrow> nat \<Rightarrow> (bytes, gguf_error \<times> bytes) outcome" where
  "read_payload_chunk e t buffer index =
     (if poll e index then Err (Cancelled, buffer)
      else
      and_then (ok_or (Invalid ReadOffsetOverflow, buffer) (checked_mul index read_chunk_bytes)) (\<lambda>relative.
      and_then (ok_or (Invalid ReadOffsetOverflow, buffer) (checked_add (td_data_offset t) relative))
        (\<lambda>at.
      let n = min read_chunk_bytes (length buffer - relative) in
      and_then (map_err (\<lambda>err. (err, buffer)) (file_read e at n)) (\<lambda>bs.
        Ok (take relative buffer @ bs @ drop (relative + n) buffer)))))"

definition chunk_count :: "nat \<Rightarrow> nat" where
  "chunk_count n = (n + read_chunk_bytes - 1) div read_chunk_bytes"

definition read_gguf_tensor_into ::
    "gguf_env \<Rightarrow> tensor_descriptor \<Rightarrow> bytes \<Rightarrow> (bytes, gguf_error \<times> bytes) outcome" where
  "read_gguf_tensor_into e t output =
     (if length output \<noteq> td_byte_len t
      then Err (Invalid (DestinationLength (td_name t) (td_byte_len t) (length output)), output)
      else and_then (fold_outcome (read_payload_chunk e t) output [0..<chunk_count (length output)])
        (\<lambda>buffer. if poll e (chunk_count (length output)) then Err (Cancelled, buffer) else Ok buffer))"

end
