(* ===== verification/GgufReader.thy ===== *)
theory GgufReader
  imports Gguf
begin

text \<open>
  The contract of the GGUF header reader. Whatever reflexive and transitive relation the two
  primitive effects of the reader satisfy (a poll of the flag, a read of bytes), the whole parser
  satisfies: the locale \<open>header_relation\<close> proves it once, and its interpretations give the bounds
  of the position, the bytes read and the polls of the cancellation flag.
\<close>

section \<open>Inversion of parsers\<close>

lemma yields_Ok [outcome_iff]: "yields x e r = Ok (y, s) \<longleftrightarrow> y = x \<and> s = r"
  by (auto simp: yields_def)

lemma fails_Ok [outcome_iff]: "fails m e r = Ok z \<longleftrightarrow> False"
  by (simp add: fails_def)

lemma bind_Ok [outcome_iff]:
  "bind p f e r = Ok z \<longleftrightarrow> (\<exists>x s. p e r = Ok (x, s) \<and> f x e s = Ok z)"
  by (auto simp: bind_def outcome_iff split: prod.splits)

lemma bind_Err [outcome_iff]:
  "bind p f e r = Err z \<longleftrightarrow> p e r = Err z \<or> (\<exists>x s. p e r = Ok (x, s) \<and> f x e s = Err z)"
  by (auto simp: bind_def outcome_iff split: prod.splits)

lemma lift_Ok [outcome_iff]: "lift m e r = Ok (y, s) \<longleftrightarrow> m = Ok y \<and> s = r"
  by (auto simp: lift_def outcome_iff)

lemma check_cancelled_Ok [outcome_iff]:
  "check_cancelled e r = Ok (u, s) \<longleftrightarrow> \<not> poll e (rd_polls r) \<and> s = r\<lparr>rd_polls := rd_polls r + 1\<rparr>"
  by (auto simp: check_cancelled_def)

lemma reserve_Ok [outcome_iff]:
  "reserve n what e r = Ok (u, s) \<longleftrightarrow> env_reserve e what n \<and> s = r"
  by (auto simp: reserve_def)

lemma count_of_Ok [outcome_iff]:
  "count_of v what least most e r = Ok (n, s) \<longleftrightarrow>
     n = v \<and> s = r \<and> v \<le> most \<and>
     (least = 0 \<or> v \<le> (min (rd_len r) max_header_bytes - rd_position r) div least)"
  by (auto simp: count_of_def Let_def)

lemma file_read_Ok [outcome_iff]:
  "file_read e at n = Ok bs \<longleftrightarrow>
     env_io e at n \<and> at + n \<le> length (env_bytes e) \<and> bs = take n (drop at (env_bytes e))"
  by (auto simp: file_read_def)

lemma read_chunk_Ok [outcome_iff]:
  "read_chunk n e r = Ok (bs, s) \<longleftrightarrow> \<not> poll e (rd_polls r) \<and>
     file_read e (rd_position r) n = Ok bs \<and>
     s = r\<lparr>rd_polls := rd_polls r + 1, rd_position := rd_position r + n\<rparr>"
  by (auto simp: read_chunk_def outcome_iff)

lemma read_exact_Ok [outcome_iff]:
  "read_exact n e r = Ok (bs, s) \<longleftrightarrow> \<not> poll e (rd_polls r) \<and>
     rd_position r + n \<le> usize_max \<and> rd_position r + n \<le> rd_len r \<and>
     rd_position r + n \<le> max_header_bytes \<and>
     read_chunks n e (r\<lparr>rd_polls := rd_polls r + 1\<rparr>) = Ok (bs, s)"
  by (auto simp: read_exact_def outcome_iff checked_simps split: option.splits if_splits)

section \<open>The contract of the reader\<close>

locale header_relation =
  fixes R :: "gguf_env \<Rightarrow> reader \<Rightarrow> reader \<Rightarrow> bool"
  assumes same: "R e r r"
    and chain: "R e r s \<Longrightarrow> R e s t \<Longrightarrow> R e r t"
    and polled: "check_cancelled e r = Ok (u, s) \<Longrightarrow> R e r s"
    and taken: "read_exact n e r = Ok (bs, s) \<Longrightarrow> R e r s"
begin

definition keeps :: "'a parser \<Rightarrow> bool" where
  "keeps p \<longleftrightarrow> (\<forall>e r x s. p e r = Ok (x, s) \<longrightarrow> R e r s)"

lemma keepsD: "keeps p \<Longrightarrow> p e r = Ok (x, s) \<Longrightarrow> R e r s"
  by (simp add: keeps_def)

lemma keeps_yields [simp]: "keeps (yields x)"
  by (simp add: keeps_def outcome_iff same)

lemma keeps_fails [simp]: "keeps (fails m)"
  by (simp add: keeps_def outcome_iff)

lemma keeps_lift [simp]: "keeps (lift m)"
  by (simp add: keeps_def outcome_iff same)

lemma keeps_reserve [simp]: "keeps (reserve n what)"
  by (simp add: keeps_def outcome_iff same)

lemma keeps_count_of [simp]: "keeps (count_of v what least most)"
  by (simp add: keeps_def outcome_iff same)

lemma keeps_check_cancelled [simp]: "keeps check_cancelled"
  by (simp add: keeps_def polled)

lemma keeps_read_exact [simp]: "keeps (read_exact n)"
  by (simp add: keeps_def taken)

lemma keeps_bind: "keeps p \<Longrightarrow> (\<And>x. keeps (f x)) \<Longrightarrow> keeps (bind p f)"
  by (auto simp: keeps_def outcome_iff) (metis chain)

lemma keeps_if: "(b \<Longrightarrow> keeps p) \<Longrightarrow> (\<not> b \<Longrightarrow> keeps q) \<Longrightarrow> keeps (if b then p else q)"
  by simp

lemmas keeps_intros = keeps_bind keeps_if

lemma keeps_repeated: "(\<And>s. keeps (f s)) \<Longrightarrow> keeps (repeated n f s)"
  by (induction n arbitrary: s) (simp_all add: keeps_bind)

lemma keeps_read_many: "keeps p \<Longrightarrow> keeps (read_many n p)"
  by (induction n) (simp_all add: keeps_bind)

lemma keeps_unsigned [simp]: "keeps (read_unsigned n)"
  by (simp add: read_unsigned_def keeps_bind)

lemma keeps_signed [simp]: "keeps (read_signed n)"
  by (simp add: read_signed_def keeps_bind)

lemma keeps_ints [simp]:
  "keeps read_u8" "keeps read_i8" "keeps read_u16" "keeps read_i16" "keeps read_u32"
  "keeps read_i32" "keeps read_u64" "keeps read_i64" "keeps read_f32" "keeps read_f64"
  by (simp_all add: read_u8_def read_i8_def read_u16_def read_i16_def read_u32_def read_i32_def
      read_u64_def read_i64_def read_f32_def read_f64_def)

lemma keeps_read_bool [simp]: "keeps read_bool"
  by (simp add: read_bool_def keeps_bind)

lemma keeps_read_string [simp]: "keeps (read_string what most)"
  by (simp add: read_string_def keeps_bind)

lemma keeps_safe [simp]: "keeps (checked_u64_metadata what v)" "keeps (checked_i64_metadata what w)"
  by (simp_all add: checked_u64_metadata_def checked_i64_metadata_def)

lemma keeps_counted: "keeps p \<Longrightarrow> keeps (counted what variant p n)"
  by (simp add: counted_def keeps_bind keeps_read_many)

lemma keeps_array_elements [simp]: "keeps (array_elements t n)"
  by (simp add: array_elements_def Let_def keeps_counted keeps_bind)

lemma keeps_read_array [simp]: "keeps read_array"
  unfolding read_array_def
  by (intro keeps_intros) (simp_all add: keeps_bind split: option.split)

lemma keeps_read_metadata_value [simp]: "keeps (read_metadata_value t)"
  by (simp add: read_metadata_value_def keeps_bind)

lemma keeps_read_entry [simp]: "keeps (read_entry metadata)"
  by (simp add: read_entry_def keeps_bind)

lemma keeps_read_tensor [simp]: "keeps (read_tensor alignment raws)"
  by (simp add: read_tensor_def read_raw_def read_dimension_def keeps_bind keeps_read_many)

lemma keeps_preamble [simp]: "keeps read_preamble"
  by (simp add: read_preamble_def keeps_bind)

lemma keeps_metadata [simp]: "keeps (read_metadata n)"
  by (simp add: read_metadata_def keeps_bind keeps_repeated)

lemma keeps_catalogue [simp]: "keeps (read_catalogue alignment n)"
  by (simp add: read_catalogue_def keeps_bind keeps_repeated)

lemma keeps_place [simp]: "keeps (place_catalogue alignment n raws)"
proof -
  have "R e r s" if placed: "place_catalogue alignment n raws e r = Ok (x, s)" for e r x s
  proof -
    have "s = r"
      using placed by (auto simp: place_catalogue_def outcome_iff split: if_splits)
    then show ?thesis by (simp add: same)
  qed
  then show ?thesis by (simp add: keeps_def)
qed

lemma keeps_body [simp]: "keeps parse_body"
  unfolding parse_body_def
  by (intro keeps_bind) (simp_all add: keeps_bind case_prod_beta)

text \<open>What a successful parse tells about the reader from its start to its end.\<close>

lemma parsed:
  assumes "parse_gguf e = Ok f"
  obtains file_len s where "\<not> poll e 0" "\<not> poll e 1" "env_seek e" "env_len e = Some file_len"
    "parse_body e \<lparr>rd_len = file_len, rd_position = 0, rd_polls = 2\<rparr> = Ok (f, s)"
    "R e \<lparr>rd_len = file_len, rd_position = 0, rd_polls = 2\<rparr> s"
  using assms
  by (auto simp: parse_gguf_def outcome_iff split: if_splits option.splits dest: keepsD[OF keeps_body])

end

section \<open>Bounds of the reader\<close>

text \<open>
  The reader never moves back, never past the length of the file or the header limit, and every
  byte it passed exists in the file.
\<close>

definition header_end :: "reader \<Rightarrow> nat" where
  "header_end r = min (rd_len r) max_header_bytes"

definition moved :: "gguf_env \<Rightarrow> reader \<Rightarrow> reader \<Rightarrow> bool" where
  "moved e r s \<longleftrightarrow> rd_len s = rd_len r \<and> rd_position r \<le> rd_position s \<and>
     rd_position s \<le> max (rd_position r) (min (header_end r) (length (env_bytes e)))"

definition polled_unset :: "gguf_env \<Rightarrow> reader \<Rightarrow> reader \<Rightarrow> bool" where
  "polled_unset e r s \<longleftrightarrow> rd_polls r \<le> rd_polls s \<and> (\<forall>k \<in> {rd_polls r..<rd_polls s}. \<not> poll e k)"

lemma polled_unset_refl [simp]: "polled_unset e r r"
  by (simp add: polled_unset_def)

lemma polled_unset_trans: "polled_unset e r s \<Longrightarrow> polled_unset e s t \<Longrightarrow> polled_unset e r t"
  by (fastforce simp: polled_unset_def)

lemma polled_unset_one:
  "\<not> poll e (rd_polls r) \<Longrightarrow> rd_polls s = rd_polls r + 1 \<Longrightarrow> polled_unset e r s"
  by (auto simp: polled_unset_def less_Suc_eq)

lemma read_chunks_moves:
  assumes "read_chunks n e r = Ok (bs, s)"
  shows "bs = take n (drop (rd_position r) (env_bytes e)) \<and> (0 < n \<longrightarrow> rd_position r + n \<le> length (env_bytes e)) \<and>
    rd_len s = rd_len r \<and> rd_position s = rd_position r + n \<and> polled_unset e r s"
  using assms
proof (induction n arbitrary: r bs s rule: less_induct)
  case (less n)
  show ?case
  proof (cases "n = 0")
    case True
    then show ?thesis using less.prems by (simp add: read_chunks.simps polled_unset_def outcome_iff)
  next
    case False
    define c where "c = min n header_read_chunk_bytes"
    have c: "0 < c" "c \<le> n" using False by (auto simp: c_def header_read_chunk_bytes_def)
    define t where "t = r\<lparr>rd_polls := rd_polls r + 1, rd_position := rd_position r + c\<rparr>"
    have step: "read_chunks n = bind (read_chunk c) (\<lambda>bs. bind (read_chunks (n - c)) (\<lambda>rest. yields (bs @ rest)))"
      using False by (simp add: read_chunks.simps[of n] c_def Let_def)
    from less.prems obtain as ds where
      head: "\<not> poll e (rd_polls r)" "file_read e (rd_position r) c = Ok as" and
      tail: "read_chunks (n - c) e t = Ok (ds, s)" and bs: "bs = as @ ds"
      by (auto simp: step outcome_iff t_def)
    have "n - c < n" using c by simp
    note ih = less.IH[OF this tail]
    have as: "as = take c (drop (rd_position r) (env_bytes e))" "rd_position r + c \<le> length (env_bytes e)"
      using head(2) by (simp_all add: outcome_iff)
    have ds: "ds = take (n - c) (drop (rd_position r + c) (env_bytes e))"
      and room: "0 < n - c \<longrightarrow> rd_position r + c + (n - c) \<le> length (env_bytes e)"
      and pos: "rd_len s = rd_len r" "rd_position s = rd_position r + n"
      and polls: "polled_unset e t s"
      using ih c(2) by (simp_all add: t_def)
    have "bs = take n (drop (rd_position r) (env_bytes e))"
      using as(1) ds c(2) bs
      by (metis add.commute drop_drop le_add_diff_inverse take_add)
    moreover have "rd_position r + n \<le> length (env_bytes e)"
      using room as(2) c(2) by (cases "n = c") auto
    moreover have "polled_unset e r s"
      using polled_unset_trans[OF polled_unset_one[OF head(1)] polls] by (simp add: t_def)
    ultimately show ?thesis using pos by simp
  qed
qed

lemma read_exact_moves:
  assumes "read_exact n e r = Ok (bs, s)"
  shows "bs = take n (drop (rd_position r) (env_bytes e))" "rd_position s = rd_position r + n"
    "moved e r s" "polled_unset e r s"
proof -
  let ?t = "r\<lparr>rd_polls := rd_polls r + 1\<rparr>"
  have parts: "\<not> poll e (rd_polls r)" "rd_position r + n \<le> rd_len r"
    "rd_position r + n \<le> max_header_bytes" "read_chunks n e ?t = Ok (bs, s)"
    using assms by (simp_all add: outcome_iff)
  note m = read_chunks_moves[OF parts(4)]
  show "bs = take n (drop (rd_position r) (env_bytes e))" "rd_position s = rd_position r + n"
    using m by simp_all
  show "moved e r s"
    using m parts(2,3) by (cases "n = 0") (auto simp: moved_def header_end_def)
  have "polled_unset e ?t s" using m by simp
  then show "polled_unset e r s"
    using polled_unset_trans[OF polled_unset_one[OF parts(1), of ?t]] by simp
qed

interpretation position: header_relation moved
proof unfold_locales
  show "moved e r r" for e r by (simp add: moved_def)
  show "moved e r t" if "moved e r s" "moved e s t" for e r s t
    using that by (auto simp: moved_def header_end_def max_def split: if_splits)
  show "moved e r s" if "check_cancelled e r = Ok (u, s)" for e r u s
    using that by (simp add: outcome_iff moved_def)
qed (rule read_exact_moves)

interpretation polls: header_relation polled_unset
proof unfold_locales
  show "polled_unset e r t" if "polled_unset e r s" "polled_unset e s t" for e r s t
    using that by (rule polled_unset_trans)
  show "polled_unset e r s" if "check_cancelled e r = Ok (u, s)" for e r u s
    using that by (auto simp: outcome_iff intro: polled_unset_one)
qed (simp_all add: read_exact_moves(4))

section \<open>What a parser ensures, and the absence of panics\<close>

definition ensures :: "'a parser \<Rightarrow> ('a \<Rightarrow> bool) \<Rightarrow> bool" where
  "ensures p Q \<longleftrightarrow> (\<forall>e r x s. p e r = Ok (x, s) \<longrightarrow> Q x)"

lemma ensuresD: "ensures p Q \<Longrightarrow> p e r = Ok (x, s) \<Longrightarrow> Q x"
  unfolding ensures_def by blast

lemma ensures_bind: "ensures p P \<Longrightarrow> (\<And>x. P x \<Longrightarrow> ensures (f x) Q) \<Longrightarrow> ensures (bind p f) Q"
  by (fastforce simp: ensures_def outcome_iff)

lemma ensures_then: "(\<And>x. ensures (f x) Q) \<Longrightarrow> ensures (bind p f) Q"
  by (fastforce simp: ensures_def outcome_iff)

lemma ensures_yields [simp]: "ensures (yields x) Q \<longleftrightarrow> Q x"
  by (simp add: ensures_def outcome_iff)

lemma ensures_fails [simp]: "ensures (fails m) Q"
  by (simp add: ensures_def outcome_iff)

lemma ensures_if: "(b \<Longrightarrow> ensures p Q) \<Longrightarrow> (\<not> b \<Longrightarrow> ensures q Q) \<Longrightarrow> ensures (if b then p else q) Q"
  by simp

lemma ensures_repeated: "I s \<Longrightarrow> (\<And>t. I t \<Longrightarrow> ensures (f t) I) \<Longrightarrow> ensures (repeated n f s) I"
proof (induction n arbitrary: s)
  case (Suc n)
  have "ensures (bind (f s) (repeated n f)) I"
    by (rule ensures_bind[of _ I]) (use Suc in auto)
  then show ?case by simp
qed simp

lemma ensures_read_many:
  "ensures p Q \<Longrightarrow> ensures (read_many n p) (\<lambda>xs. length xs = n \<and> (\<forall>x \<in> set xs. Q x))"
  by (induction n) (fastforce intro: ensures_bind)+

definition calm :: "'a parser \<Rightarrow> bool" where
  "calm p \<longleftrightarrow> (\<forall>e r. p e r \<noteq> Panic)"

lemma calm_simps [simp]:
  "calm (yields x)" "calm (fails m)" "calm check_cancelled" "calm (reserve n what)"
  "calm (count_of v what least most)" "calm (lift z) \<longleftrightarrow> z \<noteq> Panic"
  by (simp_all add: calm_def yields_def fails_def check_cancelled_def reserve_def count_of_def
      lift_def Let_def outcome_iff)

lemma calm_bind: "calm p \<Longrightarrow> (\<And>x. calm (f x)) \<Longrightarrow> calm (bind p f)"
  by (auto simp: calm_def bind_def outcome_iff split: prod.splits)

lemma calm_if: "(b \<Longrightarrow> calm p) \<Longrightarrow> (\<not> b \<Longrightarrow> calm q) \<Longrightarrow> calm (if b then p else q)"
  by simp

lemma calm_repeated: "(\<And>s. calm (f s)) \<Longrightarrow> calm (repeated n f s)"
  by (induction n arbitrary: s) (simp_all add: calm_bind)

lemma calm_read_many: "calm p \<Longrightarrow> calm (read_many n p)"
  by (induction n) (simp_all add: calm_bind)

lemma calm_read_chunk [simp]: "calm (read_chunk n)"
  unfolding read_chunk_def
  by (intro calm_bind) (auto simp: calm_def file_read_def check_cancelled_def outcome_iff)

lemma calm_read_chunks [simp]: "calm (read_chunks n)"
  by (induction n rule: less_induct)
    (subst read_chunks.simps, auto intro!: calm_bind simp: Let_def header_read_chunk_bytes_def)

lemma calm_read_exact [simp]: "calm (read_exact n)"
proof -
  have "read_chunks n e r \<noteq> Panic" for e r
    using calm_read_chunks by (simp add: calm_def)
  then have "calm (\<lambda>e r. (case checked_add (rd_position r) n of
        None \<Rightarrow> Err (Invalid HeaderPositionOverflow)
      | Some end \<Rightarrow>
          if end > rd_len r then Err (Invalid HeaderEof)
          else if end > max_header_bytes then Err (Invalid HeaderTooLong)
          else read_chunks n e r))"
    by (simp add: calm_def split: option.split)
  then show ?thesis by (simp add: read_exact_def calm_bind)
qed

lemma calm_ints [simp]:
  "calm (read_unsigned n)" "calm (read_signed n)"
  "calm read_u8" "calm read_i8" "calm read_u16" "calm read_i16" "calm read_u32"
  "calm read_i32" "calm read_u64" "calm read_i64" "calm read_f32" "calm read_f64"
  by (simp_all add: read_u8_def read_i8_def read_u16_def read_i16_def read_u32_def read_i32_def
      read_u64_def read_i64_def read_f32_def read_f64_def read_unsigned_def read_signed_def calm_bind)

lemma calm_values [simp]:
  "calm read_bool" "calm (read_string what most)" "calm (checked_u64_metadata what v)"
  "calm (checked_i64_metadata what w)"
  by (simp_all add: read_bool_def read_string_def checked_u64_metadata_def checked_i64_metadata_def
      calm_bind)

lemma calm_counted: "calm p \<Longrightarrow> calm (counted what variant p n)"
  by (simp add: counted_def calm_bind calm_read_many)

lemma calm_array_elements: "minimum_bytes t \<noteq> None \<Longrightarrow> calm (array_elements t n)"
  by (auto simp: array_elements_def Let_def minimum_bytes_def calm_counted calm_bind split: if_splits)

lemma calm_read_array [simp]: "calm read_array"
  unfolding read_array_def
  by (intro calm_bind calm_if) (auto intro!: calm_bind calm_array_elements split: option.split)

lemma calm_read_metadata_value [simp]: "calm (read_metadata_value t)"
  by (simp add: read_metadata_value_def calm_bind)

lemma architecture_not_Panic [simp]: "architecture_of metadata \<noteq> Panic"
  by (simp add: architecture_of_def split: option.split metadata_value.split)

lemma alignment_not_Panic [simp]: "alignment_of metadata \<noteq> Panic"
  by (simp add: alignment_of_def outcome_iff split: option.split metadata_value.split)

lemma check_quantization_not_Panic [simp]: "check_quantization_version metadata raws \<noteq> Panic"
  by (simp add: check_quantization_version_def split: option.split metadata_value.split)

lemma place_tensor_not_Panic [simp]: "place_tensor file_len start raw \<noteq> Panic"
  by (simp add: place_tensor_def Let_def outcome_iff)

lemma check_overlaps_not_Panic [simp]: "check_overlaps tensors \<noteq> Panic"
proof -
  have "check_neighbours xs \<noteq> Panic" for xs
    by (induction xs rule: check_neighbours.induct) simp_all
  then show ?thesis by (simp add: check_overlaps_def)
qed

lemma align_data_Ok [outcome_iff]:
  "align_data v a = Ok z \<longleftrightarrow> v + (a - 1) \<le> usize_max \<and> z = v + (a - 1) - (v + (a - 1)) mod a"
  by (auto simp: align_data_def outcome_iff checked_simps)

lemma calm_parts [simp]:
  "calm (read_entry metadata)" "calm (read_tensor alignment raws)" "calm read_preamble"
  "calm (read_metadata n)" "calm (read_catalogue alignment n)"
  by (simp_all add: read_entry_def read_tensor_def read_raw_def read_dimension_def format_from_code_def
      read_preamble_def read_metadata_def read_catalogue_def calm_bind calm_read_many calm_repeated)

lemma calm_place [simp]: "calm (place_catalogue alignment n raws)"
proof -
  have "traverse (place_tensor a b) raws \<noteq> Panic" for a b by (rule traverse_Panic) simp
  then have "calm (bind (reserve n ''tensor descriptors'') (\<lambda>_.
      bind (lift (traverse (place_tensor a b) raws)) (\<lambda>tensors.
      bind (reserve (length tensors) ''tensor ranges'') (\<lambda>_.
      bind (lift (check_overlaps tensors)) (\<lambda>_. yields tensors)))))" for a b
    by (simp add: calm_bind)
  then show ?thesis
    by (auto simp: calm_def place_catalogue_def align_data_def outcome_iff)
qed

lemma calm_body: "calm parse_body"
  unfolding parse_body_def by (intro calm_bind) (auto intro!: calm_bind)

section \<open>What a successful parse guarantees\<close>

definition tensor_bytes_at :: "tensor_descriptor \<Rightarrow> nat set" where
  "tensor_bytes_at t = {td_data_offset t..<td_data_offset t + td_byte_len t}"

definition descriptor_ok :: "nat \<Rightarrow> nat \<Rightarrow> tensor_descriptor \<Rightarrow> bool" where
  "descriptor_ok file_len alignment t \<longleftrightarrow>
     td_name t \<noteq> [] \<and> 1 \<le> length (td_logical_shape t) \<and> length (td_logical_shape t) \<le> 4 \<and>
     (\<exists>g. geometry_spec (format_value_spec (td_format t) (td_logical_shape t)) g \<and>
        td_physical_shape t = physical_shape g \<and> td_byte_len t = geometry_bytes g) \<and>
     td_data_offset t mod alignment = 0 \<and> td_data_offset t + td_byte_len t \<le> file_len"

definition catalogue_ok :: "nat \<Rightarrow> nat \<Rightarrow> tensor_descriptor list \<Rightarrow> bool" where
  "catalogue_ok file_len alignment tensors \<longleftrightarrow>
     (\<forall>t \<in> set tensors. descriptor_ok file_len alignment t) \<and> distinct (map td_name tensors) \<and>
     (\<forall>t \<in> set tensors. \<forall>u \<in> set tensors. t \<noteq> u \<longrightarrow> tensor_bytes_at t \<inter> tensor_bytes_at u = {})"

definition metadata_ok :: "metadata_entry list \<Rightarrow> bool" where
  "metadata_ok metadata \<longleftrightarrow>
     distinct (map entry_key metadata) \<and> [] \<notin> entry_key ` set metadata"

definition raw_ok :: "nat \<Rightarrow> raw_tensor \<Rightarrow> bool" where
  "raw_ok alignment r \<longleftrightarrow> raw_name r \<noteq> [] \<and> 1 \<le> length (raw_dimensions r) \<and>
     length (raw_dimensions r) \<le> 4 \<and> (\<forall>d \<in> set (raw_dimensions r). 1 \<le> d \<and> d \<le> js_safe_integer) \<and>
     raw_offset r mod alignment = 0"

definition raws_ok :: "nat \<Rightarrow> raw_tensor list \<Rightarrow> bool" where
  "raws_ok alignment raws \<longleftrightarrow> (\<forall>r \<in> set raws. raw_ok alignment r) \<and> distinct (map raw_name raws)"

lemma ensures_read_entry: "metadata_ok m \<Longrightarrow> ensures (read_entry m) metadata_ok"
  unfolding read_entry_def
  by (auto intro!: ensures_then ensures_if simp: metadata_ok_def)

lemma ensures_read_metadata: "ensures (read_metadata n) metadata_ok"
  unfolding read_metadata_def
  by (intro ensures_then ensures_repeated ensures_read_entry) (simp add: metadata_ok_def)

lemma ensures_read_dimension: "ensures (read_dimension name) (\<lambda>d. 1 \<le> d \<and> d \<le> js_safe_integer)"
  unfolding read_dimension_def by (auto intro!: ensures_then ensures_if)

lemma ensures_read_raw:
  "name \<noteq> [] \<Longrightarrow> ensures (read_raw alignment name) (\<lambda>r. raw_ok alignment r \<and> raw_name r = name)"
  unfolding read_raw_def
  by (intro ensures_then ensures_if ensures_fails
      ensures_bind[OF ensures_read_many[OF ensures_read_dimension]])
    (auto simp: raw_ok_def)

lemma ensures_read_tensor:
  "raws_ok alignment raws \<Longrightarrow> ensures (read_tensor alignment raws) (raws_ok alignment)"
  unfolding read_tensor_def
  by (intro ensures_then ensures_if ensures_fails ensures_bind[OF ensures_read_raw])
    (auto simp: raws_ok_def)

lemma ensures_read_catalogue: "ensures (read_catalogue alignment n) (raws_ok alignment)"
  unfolding read_catalogue_def
  by (intro ensures_then ensures_repeated ensures_read_tensor) (simp add: raws_ok_def)

subsection \<open>Neighbours in order are disjoint\<close>

lemma check_neighbours_sorted:
  assumes "check_neighbours xs = Ok u" and "\<forall>x \<in> set xs. fst x \<le> fst (snd x)"
  shows "sorted_wrt (\<lambda>x y. fst (snd x) \<le> fst y) xs"
  using assms
proof (induction xs rule: check_neighbours.induct)
  case (1 x y rest)
  then have step: "fst (snd x) \<le> fst y" and rest: "sorted_wrt (\<lambda>x y. fst (snd x) \<le> fst y) (y # rest)"
    by (auto split: if_splits)
  have "fst (snd x) \<le> fst z" if "z \<in> set rest" for z
    using step rest that 1(3) by fastforce
  with step rest show ?case by auto
qed auto

lemma sorted_wrt_pairwise:
  assumes "sorted_wrt P xs" and "x \<in> set xs" and "y \<in> set xs" and "x \<noteq> y"
  shows "P x y \<or> P y x"
  using assms by (induction xs) auto

lemma check_overlaps_disjoint:
  assumes "check_overlaps tensors = Ok u"
    and fits: "\<forall>t \<in> set tensors. td_data_offset t + td_byte_len t \<le> usize_max"
    and names: "distinct (map td_name tensors)"
    and "t \<in> set tensors" "v \<in> set tensors" "t \<noteq> v"
  shows "tensor_bytes_at t \<inter> tensor_bytes_at v = {}"
proof -
  let ?xs = "sort_key fst (map tensor_range tensors)"
  have exact: "tensor_range x = (td_data_offset x, td_data_offset x + td_byte_len x, td_name x)"
    if "x \<in> set tensors" for x
    using fits that by (simp add: tensor_range_def)
  have "sorted_wrt (\<lambda>x y. fst (snd x) \<le> fst y) ?xs"
    by (rule check_neighbours_sorted) (use assms(1) exact in \<open>auto simp: check_overlaps_def\<close>)
  moreover have "tensor_range t \<noteq> tensor_range v"
    using exact assms(4-6) names by (auto simp: distinct_map inj_on_def)
  ultimately have "fst (snd (tensor_range t)) \<le> fst (tensor_range v) \<or>
      fst (snd (tensor_range v)) \<le> fst (tensor_range t)"
    using assms(4,5) by (intro sorted_wrt_pairwise[of _ ?xs]) auto
  then show ?thesis
    using exact[OF assms(4)] exact[OF assms(5)] by (auto simp: tensor_bytes_at_def)
qed

subsection \<open>Placing the catalogue\<close>

lemma align_data_exact:
  assumes "align_data v a = Ok z" and "0 < a"
  shows "z mod a = 0 \<and> v \<le> z \<and> z < v + a"
proof -
  define m where "m = (v + (a - 1)) mod a"
  have "m < a" using assms(2) by (simp add: m_def)
  moreover have "z = v + (a - 1) - m" using assms(1) by (simp add: outcome_iff m_def)
  moreover have "z mod a = 0"
    using assms(1) by (simp add: outcome_iff minus_mod_eq_div_mult)
  moreover have "m \<le> v + (a - 1)" by (simp add: m_def)
  ultimately show ?thesis by arith
qed

lemma place_tensor_Ok:
  assumes "place_tensor file_len start raw = Ok t" and "raw_ok alignment raw"
    and "start mod alignment = 0"
  shows "descriptor_ok file_len alignment t" "td_name t = raw_name raw"
    "td_data_offset t + td_byte_len t \<le> usize_max" "start \<le> td_data_offset t"
proof -
  obtain g where g: "canonical_geometry (format_value_spec (raw_format raw) (rev (raw_dimensions raw))) = Ok g"
    and t: "t = \<lparr>td_name = raw_name raw, td_format = raw_format raw,
       td_logical_shape = rev (raw_dimensions raw), td_physical_shape = physical_shape g,
       td_data_offset = start + raw_offset raw, td_byte_len = geometry_bytes g\<rparr>"
    and room: "start + raw_offset raw + geometry_bytes g \<le> usize_max"
      "start + raw_offset raw + geometry_bytes g \<le> file_len"
    using assms(1)
    by (auto simp: place_tensor_def Let_def outcome_iff checked_simps split: if_splits)
  have "(start + raw_offset raw) mod alignment = 0"
    using assms(2,3) by (simp add: raw_ok_def mod_add_eq[symmetric])
  then show "descriptor_ok file_len alignment t"
    using assms(2) g t room by (auto simp: descriptor_ok_def raw_ok_def canonical_geometry_spec)
qed (use assms in \<open>auto simp: place_tensor_def Let_def outcome_iff checked_simps split: if_splits\<close>)

lemma place_catalogue_Ok:
  assumes "place_catalogue alignment n raws e r = Ok (tensors, s)"
    and raws: "raws_ok alignment raws" and "0 < alignment"
  shows "catalogue_ok (rd_len r) alignment tensors"
    "\<forall>t \<in> set tensors. rd_position r \<le> td_data_offset t" "map td_name tensors = map raw_name raws"
proof -
  obtain start where start: "align_data (rd_position r) alignment = Ok start"
    and placed: "traverse (place_tensor (rd_len r) start) raws = Ok tensors"
    and overlaps: "check_overlaps tensors = Ok ()"
    using assms(1) by (auto simp: place_catalogue_def outcome_iff split: if_splits)
  note aligned = align_data_exact[OF start \<open>0 < alignment\<close>]
  have len: "length tensors = length raws" using placed by (simp add: traverse_Ok)
  have each: "descriptor_ok (rd_len r) alignment (tensors ! i)"
    "td_name (tensors ! i) = raw_name (raws ! i)"
    "td_data_offset (tensors ! i) + td_byte_len (tensors ! i) \<le> usize_max"
    "start \<le> td_data_offset (tensors ! i)" if "i < length tensors" for i
    by (use placed raws that len aligned in \<open>auto simp: traverse_Ok raws_ok_def intro!: place_tensor_Ok\<close>)
  show names: "map td_name tensors = map raw_name raws"
    using len each(2) by (intro nth_equalityI) simp_all
  show "\<forall>t \<in> set tensors. rd_position r \<le> td_data_offset t"
    using each(4) aligned by (fastforce simp: in_set_conv_nth)
  have "tensor_bytes_at t \<inter> tensor_bytes_at v = {}"
    if "t \<in> set tensors" "v \<in> set tensors" "t \<noteq> v" for t v
    using overlaps names raws that each(3)
    by (intro check_overlaps_disjoint) (auto simp: raws_ok_def in_set_conv_nth)
  moreover have "\<forall>t \<in> set tensors. descriptor_ok (rd_len r) alignment t"
    using each(1) by (auto simp: in_set_conv_nth)
  ultimately show "catalogue_ok (rd_len r) alignment tensors"
    using names raws by (simp add: catalogue_ok_def raws_ok_def)
qed

section \<open>What a parse depends on\<close>

text \<open>
  Two worlds that agree on memory, on the length of the file and on the bytes below the header
  limit, the second with fewer cancellations: every parser gives the same result in both, unless
  it is cancelled in the first.
\<close>

locale environment_change =
  fixes S :: "gguf_env \<Rightarrow> gguf_env \<Rightarrow> bool"
  assumes polls: "S e e' \<Longrightarrow> poll e' n \<Longrightarrow> poll e n"
    and reserves: "S e e' \<Longrightarrow> env_reserve e' = env_reserve e"
    and reads: "S e e' \<Longrightarrow> at + n \<le> max_header_bytes \<Longrightarrow> file_read e' at n = file_read e at n"
    and opens: "S e e' \<Longrightarrow> env_seek e' = env_seek e \<and> env_len e' = env_len e"
begin

definition agrees :: "'a parser \<Rightarrow> bool" where
  "agrees p \<longleftrightarrow> (\<forall>e e' r. S e e' \<longrightarrow> p e r = Err Cancelled \<or> p e' r = p e r)"

lemma agreesD: "agrees p \<Longrightarrow> S e e' \<Longrightarrow> p e r \<noteq> Err Cancelled \<Longrightarrow> p e' r = p e r"
  by (auto simp: agrees_def)

lemma agrees_yields [simp]: "agrees (yields x)"
  by (simp add: agrees_def yields_def)

lemma agrees_fails [simp]: "agrees (fails m)"
  by (simp add: agrees_def fails_def)

lemma agrees_lift [simp]: "agrees (lift m)"
  by (simp add: agrees_def lift_def)

lemma agrees_reserve [simp]: "agrees (reserve n what)"
  by (simp add: agrees_def reserve_def reserves)

lemma agrees_count_of [simp]: "agrees (count_of v what least most)"
  by (simp add: agrees_def count_of_def)

lemma agrees_check_cancelled [simp]: "agrees check_cancelled"
  by (auto simp: agrees_def check_cancelled_def polls)

lemma bind_agrees:
  assumes "p e r = Err Cancelled \<or> p e' r = p e r"
    and "\<And>x s. p e r = Ok (x, s) \<Longrightarrow> f x e s = Err Cancelled \<or> f x e' s = f x e s"
  shows "bind p f e r = Err Cancelled \<or> bind p f e' r = bind p f e r"
  using assms by (cases "p e r") (auto simp: bind_def)

lemma agrees_bind: "agrees p \<Longrightarrow> (\<And>x. agrees (f x)) \<Longrightarrow> agrees (bind p f)"
  unfolding agrees_def by (intro allI impI bind_agrees) blast+

lemma agrees_if: "(b \<Longrightarrow> agrees p) \<Longrightarrow> (\<not> b \<Longrightarrow> agrees q) \<Longrightarrow> agrees (if b then p else q)"
  by simp

lemma read_chunk_agrees:
  assumes "S e e'" and "rd_position r + n \<le> max_header_bytes"
  shows "read_chunk n e r = Err Cancelled \<or> read_chunk n e' r = read_chunk n e r"
  unfolding read_chunk_def
proof (rule bind_agrees)
  show "check_cancelled e r = Err Cancelled \<or> check_cancelled e' r = check_cancelled e r"
    using agrees_check_cancelled assms(1) by (simp add: agrees_def)
qed (use assms in \<open>auto simp: outcome_iff reads\<close>)

lemma read_chunks_agrees:
  "S e e' \<Longrightarrow> rd_position r + n \<le> max_header_bytes \<Longrightarrow>
    read_chunks n e r = Err Cancelled \<or> read_chunks n e' r = read_chunks n e r"
proof (induction n arbitrary: r rule: less_induct)
  case (less n)
  show ?case
  proof (cases "n = 0")
    case False
    define c where "c = min n header_read_chunk_bytes"
    have c: "0 < c" "c \<le> n" using False by (auto simp: c_def header_read_chunk_bytes_def)
    have "bind (read_chunk c) (\<lambda>bs. bind (read_chunks (n - c)) (\<lambda>rest. yields (bs @ rest))) e r =
        Err Cancelled \<or>
      bind (read_chunk c) (\<lambda>bs. bind (read_chunks (n - c)) (\<lambda>rest. yields (bs @ rest))) e' r =
        bind (read_chunk c) (\<lambda>bs. bind (read_chunks (n - c)) (\<lambda>rest. yields (bs @ rest))) e r"
      by (intro bind_agrees read_chunk_agrees less.IH)
        (use less.prems c in \<open>auto simp: outcome_iff yields_def\<close>)
    moreover have "read_chunks n =
        bind (read_chunk c) (\<lambda>bs. bind (read_chunks (n - c)) (\<lambda>rest. yields (bs @ rest)))"
      using False by (simp add: read_chunks.simps[of n] c_def Let_def)
    ultimately show ?thesis by simp
  qed (simp add: read_chunks.simps yields_def)
qed

lemma agrees_read_exact [simp]: "agrees (read_exact n)"
  unfolding agrees_def read_exact_def
proof (intro allI impI bind_agrees)
  fix e e' r assume S: "S e e'"
  show "check_cancelled e r = Err Cancelled \<or> check_cancelled e' r = check_cancelled e r"
    using agrees_check_cancelled S by (simp add: agrees_def)
qed (auto simp: checked_simps read_chunks_agrees split: option.split)

lemma agrees_repeated: "(\<And>s. agrees (f s)) \<Longrightarrow> agrees (repeated n f s)"
  by (induction n arbitrary: s) (simp_all add: agrees_bind)

lemma agrees_read_many: "agrees p \<Longrightarrow> agrees (read_many n p)"
  by (induction n) (simp_all add: agrees_bind)

lemma agrees_ints [simp]:
  "agrees (read_unsigned n)" "agrees (read_signed n)"
  "agrees read_u8" "agrees read_i8" "agrees read_u16" "agrees read_i16" "agrees read_u32"
  "agrees read_i32" "agrees read_u64" "agrees read_i64" "agrees read_f32" "agrees read_f64"
  by (simp_all add: read_u8_def read_i8_def read_u16_def read_i16_def read_u32_def read_i32_def
      read_u64_def read_i64_def read_f32_def read_f64_def read_unsigned_def read_signed_def agrees_bind)

lemma agrees_values [simp]:
  "agrees read_bool" "agrees (read_string what most)" "agrees (checked_u64_metadata what v)"
  "agrees (checked_i64_metadata what w)"
  by (simp_all add: read_bool_def read_string_def checked_u64_metadata_def checked_i64_metadata_def
      agrees_bind)

lemma agrees_counted: "agrees p \<Longrightarrow> agrees (counted what variant p n)"
  by (simp add: counted_def agrees_bind agrees_read_many)

lemma agrees_array_elements [simp]: "agrees (array_elements t n)"
  by (simp add: array_elements_def Let_def agrees_counted agrees_bind)

lemma agrees_read_array [simp]: "agrees read_array"
  unfolding read_array_def
  by (intro agrees_bind agrees_if) (auto intro!: agrees_bind split: option.split)

lemma agrees_read_metadata_value [simp]: "agrees (read_metadata_value t)"
  by (simp add: read_metadata_value_def agrees_bind)

lemma agrees_parts [simp]:
  "agrees (read_entry metadata)" "agrees (read_tensor alignment raws)" "agrees read_preamble"
  "agrees (read_metadata n)" "agrees (read_catalogue alignment n)"
  by (simp_all add: read_entry_def read_tensor_def read_raw_def read_dimension_def
      read_preamble_def read_metadata_def read_catalogue_def agrees_bind agrees_read_many
      agrees_repeated)

lemma agrees_place [simp]: "agrees (place_catalogue alignment n raws)"
proof -
  have "agrees (bind (reserve n ''tensor descriptors'') (\<lambda>_.
      bind (lift (traverse (place_tensor a b) raws)) (\<lambda>tensors.
      bind (reserve (length tensors) ''tensor ranges'') (\<lambda>_.
      bind (lift (check_overlaps tensors)) (\<lambda>_. yields tensors)))))" for a b
    by (simp add: agrees_bind)
  then show ?thesis
    by (auto simp: agrees_def place_catalogue_def align_data_def ok_or_def split: option.split)
qed

lemma agrees_body: "agrees parse_body"
  unfolding parse_body_def by (intro agrees_bind) (auto intro!: agrees_bind)

lemma parse_agrees:
  assumes "S e e'" shows "parse_gguf e = Err Cancelled \<or> parse_gguf e' = parse_gguf e"
proof (cases "poll e 0 \<or> \<not> env_seek e \<or> env_len e = None \<or> poll e 1")
  case True
  then show ?thesis using polls[OF assms] opens[OF assms] by (auto simp: parse_gguf_def split: option.split)
next
  case False
  then obtain n where n: "env_len e = Some n" by auto
  let ?r = "\<lparr>rd_len = n, rd_position = 0, rd_polls = 2\<rparr>"
  have "\<not> poll e' 0" "\<not> poll e' 1" using False polls[OF assms] by blast+
  with False n have "parse_gguf e = and_then (parse_body e ?r) (\<lambda>(f, _). Ok f)"
    "parse_gguf e' = and_then (parse_body e' ?r) (\<lambda>(f, _). Ok f)"
    using opens[OF assms] by (simp_all add: parse_gguf_def)
  moreover have "parse_body e ?r = Err Cancelled \<or> parse_body e' ?r = parse_body e ?r"
    using agrees_body assms by (simp add: agrees_def)
  ultimately show ?thesis by auto
qed

end

definition quieter :: "gguf_env \<Rightarrow> gguf_env \<Rightarrow> bool" where
  "quieter e e' \<longleftrightarrow> e' = e\<lparr>env_cancel := None\<rparr>"

definition same_header :: "gguf_env \<Rightarrow> gguf_env \<Rightarrow> bool" where
  "same_header e e' \<longleftrightarrow>
     (\<exists>bs. e' = e\<lparr>env_bytes := bs\<rparr> \<and>
       take max_header_bytes bs = take max_header_bytes (env_bytes e))"

lemma file_read_header:
  assumes "at + n \<le> max_header_bytes" and "take max_header_bytes bs = take max_header_bytes (env_bytes e)"
  shows "file_read (e\<lparr>env_bytes := bs\<rparr>) at n = file_read e at n"
proof -
  have part: "take n (drop at xs) = drop at (take (at + n) (take max_header_bytes xs))" for xs :: bytes
    using assms(1) by (simp add: take_drop min_def add.commute)
  have long: "at + n \<le> length xs \<longleftrightarrow> at + n \<le> length (take max_header_bytes xs)" for xs :: bytes
    using assms(1) by auto
  have "take n (drop at bs) = take n (drop at (env_bytes e))"
    by (simp only: part assms(2))
  moreover have "at + n \<le> length bs \<longleftrightarrow> at + n \<le> length (env_bytes e)"
    by (simp only: long[of bs] long[of "env_bytes e"] assms(2))
  ultimately show ?thesis by (simp add: file_read_def)
qed

interpretation quiet: environment_change quieter
  by unfold_locales (auto simp: quieter_def poll_def file_read_def)

interpretation header: environment_change same_header
  by unfold_locales (auto simp: same_header_def poll_def file_read_header)

end
