(* ===== verification/GgufFormat.thy ===== *)
theory GgufFormat
  imports GgufReader
begin

text \<open>
  The GGUF v3 format as an encoder, and the parser against it: field by field, a parser \<open>reads\<close> the
  bytes that the encoder writes, whatever follows them, so that the fields compose to whole files.
\<close>

section \<open>The encoder\<close>

primrec le_bytes :: "nat \<Rightarrow> nat \<Rightarrow> bytes" where
  "le_bytes 0 v = []"
| "le_bytes (Suc n) v = word_of_nat (v mod 256) # le_bytes n (v div 256)"

definition le_signed :: "nat \<Rightarrow> int \<Rightarrow> bytes" where
  "le_signed n v = le_bytes n (nat (v mod 2 ^ (8 * n)))"

definition enc_string :: "bytes \<Rightarrow> bytes" where
  "enc_string s = le_bytes 8 (length s) @ s"

definition enc_bool :: "bool \<Rightarrow> bytes" where
  "enc_bool b = le_bytes 1 (if b then 1 else 0)"

fun array_code :: "metadata_array \<Rightarrow> nat" where
  "array_code (AU8 _) = 0" | "array_code (AI8 _) = 1" | "array_code (AU16 _) = 2"
| "array_code (AI16 _) = 3" | "array_code (AU32 _) = 4" | "array_code (AI32 _) = 5"
| "array_code (AF32 _) = 6" | "array_code (ABool _) = 7" | "array_code (AString _) = 8"
| "array_code (AU64 _) = 10" | "array_code (AI64 _) = 11" | "array_code (AF64 _) = 12"

fun array_items :: "metadata_array \<Rightarrow> bytes list" where
  "array_items (AU8 xs) = map (le_bytes 1) xs"
| "array_items (AI8 xs) = map (le_signed 1) xs"
| "array_items (AU16 xs) = map (le_bytes 2) xs"
| "array_items (AI16 xs) = map (le_signed 2) xs"
| "array_items (AU32 xs) = map (le_bytes 4) xs"
| "array_items (AI32 xs) = map (le_signed 4) xs"
| "array_items (AF32 xs) = map (le_bytes 4) xs"
| "array_items (ABool xs) = map enc_bool xs"
| "array_items (AString xs) = map enc_string xs"
| "array_items (AU64 xs) = map (le_bytes 8) xs"
| "array_items (AI64 xs) = map (le_signed 8) xs"
| "array_items (AF64 xs) = map (le_bytes 8) xs"

definition enc_array :: "metadata_array \<Rightarrow> bytes" where
  "enc_array a =
     le_bytes 4 (array_code a) @ le_bytes 8 (length (array_items a)) @ concat (array_items a)"

fun value_code :: "metadata_value \<Rightarrow> nat" where
  "value_code (VU8 _) = 0" | "value_code (VI8 _) = 1" | "value_code (VU16 _) = 2"
| "value_code (VI16 _) = 3" | "value_code (VU32 _) = 4" | "value_code (VI32 _) = 5"
| "value_code (VF32 _) = 6" | "value_code (VBool _) = 7" | "value_code (VString _) = 8"
| "value_code (VArray _) = 9" | "value_code (VU64 _) = 10" | "value_code (VI64 _) = 11"
| "value_code (VF64 _) = 12"

fun enc_value :: "metadata_value \<Rightarrow> bytes" where
  "enc_value (VU8 v) = le_bytes 1 v" | "enc_value (VI8 v) = le_signed 1 v"
| "enc_value (VU16 v) = le_bytes 2 v" | "enc_value (VI16 v) = le_signed 2 v"
| "enc_value (VU32 v) = le_bytes 4 v" | "enc_value (VI32 v) = le_signed 4 v"
| "enc_value (VF32 v) = le_bytes 4 v" | "enc_value (VBool v) = enc_bool v"
| "enc_value (VString v) = enc_string v" | "enc_value (VArray a) = enc_array a"
| "enc_value (VU64 v) = le_bytes 8 v" | "enc_value (VI64 v) = le_signed 8 v"
| "enc_value (VF64 v) = le_bytes 8 v"

definition enc_entry :: "metadata_entry \<Rightarrow> bytes" where
  "enc_entry x = enc_string (entry_key x) @ le_bytes 4 (value_code (entry_value x)) @
     enc_value (entry_value x)"

fun format_code :: "tensor_format \<Rightarrow> nat" where
  "format_code TF32 = 0" | "format_code TQ2K = 10" | "format_code TQ3K = 11"
| "format_code TQ4K = 12" | "format_code TQ5K = 13" | "format_code TQ6K = 14"

definition enc_raw :: "raw_tensor \<Rightarrow> bytes" where
  "enc_raw x = enc_string (raw_name x) @ le_bytes 4 (length (raw_dimensions x)) @
     concat (map (le_bytes 8) (raw_dimensions x)) @ le_bytes 4 (format_code (raw_format x)) @
     le_bytes 8 (raw_offset x)"

definition enc_header :: "metadata_entry list \<Rightarrow> raw_tensor list \<Rightarrow> bytes" where
  "enc_header metadata raws = gguf_magic @ le_bytes 4 gguf_version @ le_bytes 8 (length raws) @
     le_bytes 8 (length metadata) @ concat (map enc_entry metadata) @ concat (map enc_raw raws)"

section \<open>Values that the format can hold\<close>

definition string_fits :: "nat \<Rightarrow> bytes \<Rightarrow> bool" where
  "string_fits most s \<longleftrightarrow> utf8_valid s \<and> length s \<le> most"

definition unsigned_fits :: "nat \<Rightarrow> nat \<Rightarrow> bool" where
  "unsigned_fits n v \<longleftrightarrow> v < 2 ^ (8 * n)"

definition signed_fits :: "nat \<Rightarrow> int \<Rightarrow> bool" where
  "signed_fits n v \<longleftrightarrow> - (2 ^ (8 * n - 1)) \<le> v \<and> v < 2 ^ (8 * n - 1)"

definition safe_signed :: "int \<Rightarrow> bool" where
  "safe_signed v \<longleftrightarrow> - int js_safe_integer \<le> v \<and> v \<le> int js_safe_integer"

fun items_fit :: "metadata_array \<Rightarrow> bool" where
  "items_fit (AU8 xs) = list_all (unsigned_fits 1) xs"
| "items_fit (AI8 xs) = list_all (signed_fits 1) xs"
| "items_fit (AU16 xs) = list_all (unsigned_fits 2) xs"
| "items_fit (AI16 xs) = list_all (signed_fits 2) xs"
| "items_fit (AU32 xs) = list_all (unsigned_fits 4) xs"
| "items_fit (AI32 xs) = list_all (signed_fits 4) xs"
| "items_fit (AF32 xs) = list_all (unsigned_fits 4) xs"
| "items_fit (ABool xs) = True"
| "items_fit (AString xs) = list_all (string_fits max_metadata_string_bytes) xs"
| "items_fit (AU64 xs) = list_all (\<lambda>v. v \<le> js_safe_integer) xs"
| "items_fit (AI64 xs) = list_all safe_signed xs"
| "items_fit (AF64 xs) = list_all (unsigned_fits 8) xs"

fun value_fits :: "metadata_value \<Rightarrow> bool" where
  "value_fits (VU8 v) = unsigned_fits 1 v" | "value_fits (VI8 v) = signed_fits 1 v"
| "value_fits (VU16 v) = unsigned_fits 2 v" | "value_fits (VI16 v) = signed_fits 2 v"
| "value_fits (VU32 v) = unsigned_fits 4 v" | "value_fits (VI32 v) = signed_fits 4 v"
| "value_fits (VF32 v) = unsigned_fits 4 v" | "value_fits (VBool v) = True"
| "value_fits (VString v) = string_fits max_metadata_string_bytes v"
| "value_fits (VArray a) =
     (items_fit a \<and> length (array_items a) \<le> max_metadata_array_elements)"
| "value_fits (VU64 v) = (v \<le> js_safe_integer)" | "value_fits (VI64 v) = safe_signed v"
| "value_fits (VF64 v) = unsigned_fits 8 v"

definition entry_fits :: "metadata_entry \<Rightarrow> bool" where
  "entry_fits x \<longleftrightarrow> string_fits max_metadata_key_bytes (entry_key x) \<and> value_fits (entry_value x)"

definition raw_fits :: "raw_tensor \<Rightarrow> bool" where
  "raw_fits x \<longleftrightarrow> string_fits max_tensor_name_bytes (raw_name x) \<and> unsigned_fits 8 (raw_offset x)"

section \<open>Reading what was written\<close>

definition willing :: "gguf_env \<Rightarrow> bool" where
  "willing e \<longleftrightarrow> env_cancel e = None \<and> (\<forall>what n. env_reserve e what n) \<and> (\<forall>at n. env_io e at n)"

definition ahead :: "gguf_env \<Rightarrow> reader \<Rightarrow> bytes \<Rightarrow> bool" where
  "ahead e r bs \<longleftrightarrow> take (length bs) (drop (rd_position r) (env_bytes e)) = bs \<and>
     rd_position r + length bs \<le> length (env_bytes e) \<and> rd_position r + length bs \<le> header_end r"

definition reads :: "'a parser \<Rightarrow> bytes \<Rightarrow> bytes \<Rightarrow> 'a \<Rightarrow> bool" where
  "reads p bs rest x \<longleftrightarrow> (\<forall>e r. willing e \<longrightarrow> ahead e r (bs @ rest) \<longrightarrow>
     (\<exists>s. p e r = Ok (x, s) \<and> rd_len s = rd_len r \<and> rd_position s = rd_position r + length bs))"

lemma readsD:
  assumes "reads p bs rest x" "willing e" "ahead e r (bs @ rest)"
  obtains s where "p e r = Ok (x, s)" "rd_len s = rd_len r" "rd_position s = rd_position r + length bs"
  using assms unfolding reads_def by blast

lemma willing_poll [simp]: "willing e \<Longrightarrow> \<not> poll e n"
  by (simp add: willing_def poll_def)

lemma ahead_rest:
  assumes "ahead e r (bs @ rest)" "rd_len s = rd_len r" "rd_position s = rd_position r + length bs"
  shows "ahead e s rest"
proof -
  have "take (length bs + length rest) (drop (rd_position r) (env_bytes e)) = bs @ rest"
    using assms(1) by (simp add: ahead_def)
  then have "take (length rest) (drop (rd_position r + length bs) (env_bytes e)) = rest"
    by (metis add.commute append_eq_conv_conj drop_drop drop_take add_diff_cancel_left')
  with assms show ?thesis by (simp add: ahead_def header_end_def)
qed

lemma reads_yields: "reads (yields x) [] rest x"
  by (simp add: reads_def yields_def)

lemma reads_bind:
  assumes "reads p bs (cs @ rest) x" and "reads (f x) cs rest y" and "zs = bs @ cs"
  shows "reads (bind p f) zs rest y"
  unfolding reads_def
proof (intro allI impI)
  fix e r assume e: "willing e" and r: "ahead e r (zs @ rest)"
  then have "ahead e r (bs @ cs @ rest)" using assms(3) by simp
  from readsD[OF assms(1) e this] obtain s where
    s: "p e r = Ok (x, s)" "rd_len s = rd_len r" "rd_position s = rd_position r + length bs" .
  have "ahead e s (cs @ rest)"
    using ahead_rest[OF \<open>ahead e r (bs @ cs @ rest)\<close>] s by simp
  from readsD[OF assms(2) e this] obtain t where
    "f x e s = Ok (y, t)" "rd_len t = rd_len s" "rd_position t = rd_position s + length cs" .
  with s assms(3) show "\<exists>s. bind p f e r = Ok (y, s) \<and> rd_len s = rd_len r \<and>
      rd_position s = rd_position r + length zs"
    by (auto simp: outcome_iff)
qed

lemma reads_last: "reads p bs rest x \<Longrightarrow> f x = yields y \<Longrightarrow> reads (bind p f) bs rest y"
  by (rule reads_bind[of p bs "[]" rest x]) (simp_all add: reads_yields)

lemma reads_reserve: "reads (reserve n what) [] rest ()"
  by (simp add: reads_def reserve_def willing_def)

lemma reads_check: "reads check_cancelled [] rest ()"
  by (simp add: reads_def check_cancelled_def)

lemma reads_lift: "m = Ok x \<Longrightarrow> reads (lift m) [] rest x"
  by (simp add: reads_def lift_def)

lemma reads_count:
  assumes "v \<le> most" and "v * least \<le> length rest"
  shows "reads (count_of v what least most) [] rest v"
proof -
  have "v \<le> (header_end r - rd_position r) div least" if "ahead e r rest" "0 < least" for e r
    using that assms(2) by (auto simp: ahead_def less_eq_div_iff_mult_less_eq)
  then show ?thesis
    using assms(1) by (auto simp: reads_def outcome_iff header_end_def)
qed

lemma reads_chunks:
  assumes "willing e" "ahead e r (bs @ rest)"
  shows "\<exists>s. read_chunks (length bs) e r = Ok (bs, s) \<and> rd_len s = rd_len r \<and>
    rd_position s = rd_position r + length bs"
  using assms
proof (induction bs arbitrary: r rule: length_induct)
  case (1 bs)
  show ?case
  proof (cases "bs = []")
    case False
    define c where "c = min (length bs) header_read_chunk_bytes"
    have c: "0 < c" "c \<le> length bs" using False by (auto simp: c_def header_read_chunk_bytes_def)
    let ?t = "r\<lparr>rd_polls := rd_polls r + 1, rd_position := rd_position r + c\<rparr>"
    have small: "length (drop c bs) < length bs" using c False by simp
    have "ahead e r (take c bs @ drop c bs @ rest)"
      using 1(3) unfolding append.assoc[symmetric] append_take_drop_id .
    then have "ahead e ?t (drop c bs @ rest)"
      by (rule ahead_rest) (use c in simp_all)
    then have "\<exists>s. read_chunks (length (drop c bs)) e ?t = Ok (drop c bs, s) \<and>
        rd_len s = rd_len ?t \<and> rd_position s = rd_position ?t + length (drop c bs)"
      by (rule 1(1)[rule_format, OF small 1(2)])
    then obtain s where tail: "read_chunks (length bs - c) e ?t = Ok (drop c bs, s)"
      "rd_len s = rd_len r" "rd_position s = rd_position r + length bs"
      using c by auto
    have "take c (drop (rd_position r) (env_bytes e)) =
        take c (take (length (bs @ rest)) (drop (rd_position r) (env_bytes e)))"
      using c(2) by (simp add: min_def)
    also have "\<dots> = take c bs" using 1(3) c(2) by (simp only: ahead_def) simp
    finally have "file_read e (rd_position r) c = Ok (take c bs)"
      using 1(2,3) c by (auto simp: outcome_iff ahead_def willing_def)
    then have "read_chunk c e r = Ok (take c bs, ?t)"
      using 1(2) by (simp add: read_chunk_Ok)
    with tail False c show ?thesis
      by (subst read_chunks.simps)
        (auto simp: Let_def c_def[symmetric] bind_Ok yields_def simp del: read_chunk_Ok)
  qed (simp add: read_chunks.simps yields_def)
qed

lemma reads_exact: "length bs = n \<Longrightarrow> reads (read_exact n) bs rest bs"
  unfolding reads_def
proof (intro allI impI)
  fix e r assume n: "length bs = n" and e: "willing e" and r: "ahead e r (bs @ rest)"
  let ?t = "r\<lparr>rd_polls := rd_polls r + 1\<rparr>"
  have "ahead e ?t (bs @ rest)" using r by (simp add: ahead_def header_end_def)
  moreover have "rd_position r + n \<le> rd_len r" "rd_position r + n \<le> max_header_bytes"
    using r n by (auto simp: ahead_def header_end_def)
  moreover have "max_header_bytes \<le> usize_max" by (simp add: max_header_bytes_def usize_max_def)
  ultimately show "\<exists>s. read_exact n e r = Ok (bs, s) \<and> rd_len s = rd_len r \<and>
      rd_position s = rd_position r + length bs"
    using reads_chunks[OF e, of ?t bs rest] n e by (auto simp: outcome_iff)
qed

section \<open>Fields\<close>

lemma length_le_bytes [simp]: "length (le_bytes n v) = n"
  by (induction n arbitrary: v) simp_all

lemma length_le_signed [simp]: "length (le_signed n v) = n"
  by (simp add: le_signed_def)

lemma length_enc_bool [simp]: "length (enc_bool b) = 1"
  by (simp add: enc_bool_def)

lemma le_nat_le_bytes: "le_nat (le_bytes n v) = v mod 256 ^ n"
proof (induction n arbitrary: v)
  case (Suc n)
  have "unat (word_of_nat (v mod 256) :: byte) = v mod 256"
    by (simp add: unat_of_nat)
  then show ?case by (simp add: Suc mod_mult2_eq)
qed simp

lemma power_256: "(256 :: 'a :: comm_semiring_1) ^ n = 2 ^ (8 * n)"
  by (simp add: power_mult)

lemma reads_unsigned: "unsigned_fits n v \<Longrightarrow> reads (read_unsigned n) (le_bytes n v) rest v"
  unfolding read_unsigned_def
  by (rule reads_last[OF reads_exact])
    (simp_all add: le_nat_le_bytes power_256 unsigned_fits_def)

lemma signed_of_mod:
  assumes "signed_fits n v" and "0 < n"
  shows "signed_of (8 * n) (nat (v mod 2 ^ (8 * n))) = v"
proof -
  obtain k where k: "8 * n = Suc k" using assms(2) by (cases "8 * n") auto
  have v: "- (2 ^ k) \<le> v" "v < 2 ^ k" using assms(1) by (simp_all add: signed_fits_def k)
  show ?thesis
  proof (cases "0 \<le> v")
    case True
    then have "v mod 2 ^ Suc k = v" using v by (intro mod_pos_pos_trivial) auto
    with True v show ?thesis by (simp add: signed_of_def k nat_less_iff)
  next
    case False
    have "v mod 2 ^ Suc k = (v + 2 ^ Suc k) mod 2 ^ Suc k" by simp
    also have "\<dots> = v + 2 ^ Suc k" using v False by (intro mod_pos_pos_trivial) auto
    finally have m: "v mod 2 ^ Suc k = v + 2 ^ Suc k" .
    have "\<not> nat (v + 2 ^ Suc k) < 2 ^ k" "0 \<le> v + 2 ^ Suc k" using v by (simp_all add: nat_less_iff)
    with m show ?thesis by (simp only: signed_of_def k) simp
  qed
qed

lemma reads_signed:
  assumes "signed_fits n v" and "0 < n"
  shows "reads (read_signed n) (le_signed n v) rest v"
proof -
  have "nat (v mod 2 ^ (8 * n)) < 2 ^ (8 * n)" by (simp add: nat_less_iff)
  then have "reads (read_unsigned n) (le_signed n v) rest (nat (v mod 2 ^ (8 * n)))"
    unfolding le_signed_def by (intro reads_unsigned) (simp add: unsigned_fits_def)
  then show ?thesis
    unfolding read_signed_def
    by (rule reads_last) (simp add: signed_of_mod[OF assms])
qed

lemma reads_ints:
  "unsigned_fits 1 v \<Longrightarrow> reads read_u8 (le_bytes 1 v) rest v"
  "unsigned_fits 2 v \<Longrightarrow> reads read_u16 (le_bytes 2 v) rest v"
  "unsigned_fits 4 v \<Longrightarrow> reads read_u32 (le_bytes 4 v) rest v"
  "unsigned_fits 8 v \<Longrightarrow> reads read_u64 (le_bytes 8 v) rest v"
  "unsigned_fits 4 v \<Longrightarrow> reads read_f32 (le_bytes 4 v) rest v"
  "unsigned_fits 8 v \<Longrightarrow> reads read_f64 (le_bytes 8 v) rest v"
  "signed_fits 1 w \<Longrightarrow> reads read_i8 (le_signed 1 w) rest w"
  "signed_fits 2 w \<Longrightarrow> reads read_i16 (le_signed 2 w) rest w"
  "signed_fits 4 w \<Longrightarrow> reads read_i32 (le_signed 4 w) rest w"
  "signed_fits 8 w \<Longrightarrow> reads read_i64 (le_signed 8 w) rest w"
  by (simp_all only: read_u8_def read_i8_def read_u16_def read_i16_def read_u32_def read_i32_def
      read_u64_def read_i64_def read_f32_def read_f64_def reads_unsigned) (simp_all add: reads_signed)

lemma reads_bool: "reads read_bool (enc_bool b) rest b"
  unfolding read_bool_def enc_bool_def
  by (rule reads_last[OF reads_ints(1)]) (auto simp: unsigned_fits_def)

lemma reads_string:
  assumes "string_fits most s" and "most < 2 ^ 64"
  shows "reads (read_string what most) (enc_string s) rest s"
  unfolding read_string_def enc_string_def
  by (intro reads_bind[OF reads_ints(4)] reads_bind[where bs = "[]", OF reads_count]
      reads_bind[where bs = "[]", OF reads_reserve] reads_last[OF reads_exact])
    (use assms in \<open>auto simp: string_fits_def unsigned_fits_def\<close>)

lemma reads_safe_unsigned:
  assumes "v \<le> js_safe_integer"
  shows "reads (bind read_u64 (checked_u64_metadata what)) (le_bytes 8 v) rest v"
  by (rule reads_last[OF reads_ints(4)])
    (use assms in \<open>auto simp: js_safe_integer_def unsigned_fits_def checked_u64_metadata_def\<close>)

lemma reads_safe_signed:
  assumes "safe_signed v"
  shows "reads (bind read_i64 (checked_i64_metadata what)) (le_signed 8 v) rest v"
  by (rule reads_last[OF reads_ints(10)])
    (use assms in \<open>auto simp: js_safe_integer_def safe_signed_def signed_fits_def
      checked_i64_metadata_def\<close>)

lemma reads_many:
  assumes "\<And>x rest. x \<in> set xs \<Longrightarrow> reads p (enc x) rest x"
  shows "reads (read_many (length xs) p) (concat (map enc xs)) rest xs"
  using assms
proof (induction xs)
  case (Cons x xs)
  have "reads (bind (read_many (length xs) p) (\<lambda>ys. yields (x # ys))) (concat (map enc xs)) rest (x # xs)"
    by (rule reads_last) (use Cons in simp_all)
  then show ?case
    by (auto intro!: reads_bind[of p "enc x"] Cons.prems)
qed (simp add: reads_yields)

lemma reads_counted:
  assumes "\<And>x rest. x \<in> set xs \<Longrightarrow> reads p (enc x) rest x" and "n = length xs" and "a = variant xs"
  shows "reads (counted what variant p n) (concat (map enc xs)) rest a"
  unfolding counted_def assms(2,3)
  by (rule reads_bind[where bs = "[]", OF reads_reserve], rule reads_last,
      rule reads_many) (simp_all add: assms(1))

section \<open>Metadata and tensor entries\<close>

lemma entry_eta [simp]: "\<lparr>entry_key = entry_key x, entry_value = entry_value x\<rparr> = x"
  by simp

lemma raw_eta [simp]: "\<lparr>raw_name = raw_name x, raw_dimensions = raw_dimensions x,
    raw_format = raw_format x, raw_offset = raw_offset x\<rparr> = x"
  by simp

lemmas reads_leaves = reads_ints reads_bool reads_string reads_safe_unsigned reads_safe_signed

lemma array_code_ok:
  "unsigned_fits 4 (array_code a)" "array_code a \<noteq> 9"
  by (cases a; simp add: unsigned_fits_def)+

lemma minimum_bytes_code: "\<exists>least. minimum_bytes (array_code a) = Some least \<and>
    length (array_items a) * least \<le> length (concat (array_items a))"
proof -
  have fixed: "length (concat (map f xs)) = length xs * k" if "\<And>x. length (f x) = k"
    for f :: "'a \<Rightarrow> bytes" and xs k
    using that by (induction xs) simp_all
  have strings: "length xs * 8 \<le> length (concat (map enc_string xs))" for xs
    by (induction xs) (simp_all add: enc_string_def)
  show ?thesis
    by (cases a) (simp_all add: minimum_bytes_def fixed strings)
qed

lemma reads_array_elements:
  assumes "items_fit a"
  shows "reads (array_elements (array_code a) (length (array_items a)))
     (concat (array_items a)) rest a"
  using assms
  by (cases a) (auto simp: array_elements_def Let_def list_all_iff max_metadata_string_bytes_def
      intro!: reads_counted reads_leaves simp del: One_nat_def)

lemma reads_array:
  assumes "items_fit a" and "length (array_items a) \<le> max_metadata_array_elements"
  shows "reads read_array (enc_array a) rest a"
proof -
  obtain least where least: "minimum_bytes (array_code a) = Some least"
    "length (array_items a) * least \<le> length (concat (array_items a))"
    using minimum_bytes_code by blast
  have len: "unsigned_fits 8 (length (array_items a))"
    using assms(2) by (simp add: unsigned_fits_def max_metadata_array_elements_def)
  have "reads (bind (count_of (length (array_items a)) ''metadata array'' least max_metadata_array_elements)
      (array_elements (array_code a))) (concat (array_items a)) rest a"
    by (rule reads_bind[where bs = "[]", OF reads_count]) (use assms least reads_array_elements in simp_all)
  then have "reads (bind read_u64 (\<lambda>count_u64. case minimum_bytes (array_code a) of
        None \<Rightarrow> fails (ArrayElementType (array_code a))
      | Some least \<Rightarrow> bind (count_of count_u64 ''metadata array'' least max_metadata_array_elements)
          (array_elements (array_code a))))
      (le_bytes 8 (length (array_items a)) @ concat (array_items a)) rest a"
    by (intro reads_bind[OF reads_ints(4)]) (use least len in simp_all)
  then show ?thesis
    unfolding read_array_def enc_array_def
    by (intro reads_bind[OF reads_ints(3)]) (simp_all add: array_code_ok)
qed

lemma reads_value:
  assumes "value_fits v"
  shows "reads (read_metadata_value (value_code v)) (enc_value v) rest v"
  using assms
  by (cases v) (auto simp: read_metadata_value_def max_metadata_string_bytes_def
      intro!: reads_leaves[THEN reads_last] reads_array[THEN reads_last] simp del: One_nat_def)

lemma value_code_ok: "unsigned_fits 4 (value_code v)"
  by (cases v) (simp_all add: unsigned_fits_def)

lemma reads_entry:
  assumes "entry_fits x" and "entry_key x \<noteq> []" and "entry_key x \<notin> entry_key ` set m"
  shows "reads (read_entry m) (enc_entry x) rest (m @ [x])"
  unfolding read_entry_def enc_entry_def
proof (rule reads_bind[OF reads_string])
  show "string_fits max_metadata_key_bytes (entry_key x)" "max_metadata_key_bytes < 2 ^ 64"
    using assms(1) by (simp_all add: entry_fits_def max_metadata_key_bytes_def)
  have v: "reads (read_metadata_value (value_code (entry_value x))) (enc_value (entry_value x)) rest
      (entry_value x)"
    using assms(1) by (simp add: entry_fits_def reads_value)
  show "reads (if entry_key x = [] then fails EmptyKey
       else if entry_key x \<in> entry_key ` set m then fails (DuplicateKey (entry_key x))
       else bind read_u32 (\<lambda>value_type. bind (read_metadata_value value_type) (\<lambda>v.
           yields (m @ [\<lparr>entry_key = entry_key x, entry_value = v\<rparr>]))))
     (le_bytes 4 (value_code (entry_value x)) @ enc_value (entry_value x)) rest (m @ [x])"
    using assms(2,3)
    by (auto intro!: reads_bind[OF reads_ints(3)[OF value_code_ok]] reads_last[OF v])
qed simp

lemma reads_repeated:
  assumes "\<And>ys x zs rest. xs = ys @ x # zs \<Longrightarrow> reads (f ys) (enc x) rest (ys @ [x])"
  shows "reads (repeated (length xs) f []) (concat (map enc xs)) rest xs"
proof -
  have "reads (repeated (length zs) f ys) (concat (map enc zs)) rest (ys @ zs)" if "xs = ys @ zs" for ys zs
    using that
  proof (induction zs arbitrary: ys)
    case (Cons z zs)
    have "reads (repeated (length zs) f (ys @ [z])) (concat (map enc zs)) rest ((ys @ [z]) @ zs)"
      using Cons.prems by (intro Cons.IH) simp
    then show ?case
      using assms[OF Cons.prems] by (auto intro!: reads_bind[of "f ys" "enc z"])
  qed (simp add: reads_yields)
  from this[of "[]" xs] show ?thesis by simp
qed

lemma reads_metadata:
  assumes "metadata_ok m" and "\<forall>x \<in> set m. entry_fits x"
  shows "reads (read_metadata (length m)) (concat (map enc_entry m)) rest m"
proof -
  have "reads (repeated (length m) read_entry []) (concat (map enc_entry m)) rest m"
  proof (rule reads_repeated)
    fix ys x zs rest assume "m = ys @ x # zs"
    then show "reads (read_entry ys) (enc_entry x) rest (ys @ [x])"
      using assms by (intro reads_entry) (auto simp: metadata_ok_def)
  qed
  then show ?thesis
    unfolding read_metadata_def
    by (auto intro!: reads_bind[where bs = "[]", OF reads_reserve])
qed

lemma reads_dimension:
  "1 \<le> d \<Longrightarrow> d \<le> js_safe_integer \<Longrightarrow> reads (read_dimension name) (le_bytes 8 d) rest d"
  unfolding read_dimension_def
  by (rule reads_last[OF reads_ints(4)]) (simp_all add: unsigned_fits_def js_safe_integer_def)

lemma format_code_ok: "unsigned_fits 4 (format_code f)" "format_from_code (format_code f) = Ok f"
  by (cases f; simp add: unsigned_fits_def format_from_code_def)+

lemma reads_raw:
  assumes "unsigned_fits 8 (raw_offset x)" and ok: "raw_ok alignment x"
  shows "reads (read_raw alignment (raw_name x)) (le_bytes 4 (length (raw_dimensions x)) @
     concat (map (le_bytes 8) (raw_dimensions x)) @ le_bytes 4 (format_code (raw_format x)) @
     le_bytes 8 (raw_offset x)) rest x"
proof -
  have dims: "reads (read_many (length (raw_dimensions x)) (read_dimension (raw_name x)))
      (concat (map (le_bytes 8) (raw_dimensions x))) rest (raw_dimensions x)" for rest
    using ok by (intro reads_many reads_dimension) (auto simp: raw_ok_def)
  have rnk: "unsigned_fits 4 (length (raw_dimensions x))"
    "1 \<le> length (raw_dimensions x)" "length (raw_dimensions x) \<le> 4"
    using ok by (auto simp: raw_ok_def unsigned_fits_def)
  have "reads (bind read_u64 (\<lambda>relative.
      if relative mod alignment \<noteq> 0 then fails (TensorOffset (raw_name x) relative alignment)
      else yields \<lparr>raw_name = raw_name x, raw_dimensions = raw_dimensions x,
             raw_format = raw_format x, raw_offset = relative\<rparr>)) (le_bytes 8 (raw_offset x)) rest x"
    by (rule reads_last[OF reads_ints(4)[OF assms(1)]]) (use ok in \<open>auto simp: raw_ok_def\<close>)
  then have format: "reads (bind (lift (format_from_code (format_code (raw_format x)))) (\<lambda>format.
      bind read_u64 (\<lambda>relative.
      if relative mod alignment \<noteq> 0 then fails (TensorOffset (raw_name x) relative alignment)
      else yields \<lparr>raw_name = raw_name x, raw_dimensions = raw_dimensions x,
             raw_format = format, raw_offset = relative\<rparr>))) (le_bytes 8 (raw_offset x)) rest x"
    by (intro reads_bind[where bs = "[]", OF reads_lift]) (simp_all add: format_code_ok)
  show ?thesis
    unfolding read_raw_def
    by (rule reads_bind[OF reads_ints(3)[OF rnk(1)]], use rnk in \<open>simp only: simp_thms if_False\<close>)
      (intro reads_bind[where bs = "[]", OF reads_reserve] reads_bind[OF dims]
        reads_bind[OF reads_ints(3)[OF format_code_ok(1)]], use format in simp_all)
qed

lemma reads_tensor:
  assumes "raw_fits x" and "raw_ok alignment x" and "raw_name x \<notin> raw_name ` set raws"
  shows "reads (read_tensor alignment raws) (enc_raw x) rest (raws @ [x])"
  unfolding read_tensor_def enc_raw_def
proof (rule reads_bind[OF reads_string])
  show "string_fits max_tensor_name_bytes (raw_name x)" "max_tensor_name_bytes < 2 ^ 64"
    using assms(1) by (simp_all add: raw_fits_def max_tensor_name_bytes_def)
  have "reads (bind (read_raw alignment (raw_name x)) (\<lambda>raw. yields (raws @ [raw])))
     (le_bytes 4 (length (raw_dimensions x)) @ concat (map (le_bytes 8) (raw_dimensions x)) @
      le_bytes 4 (format_code (raw_format x)) @ le_bytes 8 (raw_offset x)) rest (raws @ [x])"
    by (rule reads_last[OF reads_raw]) (use assms in \<open>simp_all add: raw_fits_def\<close>)
  then show "reads (if raw_name x = [] then fails EmptyTensorName
       else if raw_name x \<in> raw_name ` set raws then fails (DuplicateTensor (raw_name x))
       else bind (read_raw alignment (raw_name x)) (\<lambda>raw. yields (raws @ [raw])))
     (le_bytes 4 (length (raw_dimensions x)) @ concat (map (le_bytes 8) (raw_dimensions x)) @
      le_bytes 4 (format_code (raw_format x)) @ le_bytes 8 (raw_offset x)) rest (raws @ [x])"
    using assms(2,3) by (simp add: raw_ok_def)
qed simp

section \<open>Whole files\<close>

definition raw_of :: "nat \<Rightarrow> tensor_descriptor \<Rightarrow> raw_tensor" where
  "raw_of start t = \<lparr>raw_name = td_name t, raw_dimensions = rev (td_logical_shape t),
     raw_format = td_format t, raw_offset = td_data_offset t - start\<rparr>"

definition header_with :: "gguf_file \<Rightarrow> nat \<Rightarrow> bytes" where
  "header_with f start = enc_header (gf_metadata f) (map (raw_of start) (gf_tensors f))"

definition data_start :: "gguf_file \<Rightarrow> nat \<Rightarrow> nat" where
  "data_start f alignment =
     (length (header_with f 0) + (alignment - 1)) div alignment * alignment"

definition encode_gguf :: "gguf_file \<Rightarrow> nat \<Rightarrow> bytes" where
  "encode_gguf f alignment = header_with f (data_start f alignment)"

definition tensor_fits :: "nat \<Rightarrow> tensor_descriptor \<Rightarrow> bool" where
  "tensor_fits start t \<longleftrightarrow> string_fits max_tensor_name_bytes (td_name t) \<and>
     list_all (\<lambda>d. 1 \<le> d \<and> d \<le> js_safe_integer) (td_logical_shape t) \<and> start \<le> td_data_offset t"

definition gguf_fits :: "gguf_file \<Rightarrow> nat \<Rightarrow> nat \<Rightarrow> bool" where
  "gguf_fits f alignment file_len \<longleftrightarrow>
     metadata_ok (gf_metadata f) \<and> list_all entry_fits (gf_metadata f) \<and>
     length (gf_metadata f) \<le> max_metadata_count \<and> length (gf_tensors f) \<le> max_tensor_count \<and>
     architecture_of (gf_metadata f) = Ok (gf_architecture f) \<and>
     alignment_of (gf_metadata f) = Ok alignment \<and>
     check_quantization_version (gf_metadata f) (map (raw_of 0) (gf_tensors f)) = Ok () \<and>
     list_all (tensor_fits (data_start f alignment)) (gf_tensors f) \<and>
     catalogue_ok file_len alignment (gf_tensors f) \<and>
     length (encode_gguf f alignment) \<le> max_header_bytes \<and>
     data_start f alignment \<le> file_len \<and> file_len \<le> usize_max"

definition plain_env :: "bytes \<Rightarrow> gguf_env" where
  "plain_env bs = \<lparr>env_bytes = bs, env_seek = True, env_len = Some (length bs), env_cancel = None,
     env_reserve = (\<lambda>what n. True), env_io = (\<lambda>at n. True)\<rparr>"

lemma raw_of_simps [simp]:
  "raw_name (raw_of s t) = td_name t" "raw_dimensions (raw_of s t) = rev (td_logical_shape t)"
  "raw_format (raw_of s t) = td_format t" "raw_offset (raw_of s t) = td_data_offset t - s"
  by (simp_all add: raw_of_def)

lemma length_header_with: "length (header_with f a) = length (header_with f b)"
proof -
  have "length (concat (map (enc_raw \<circ> raw_of a) ts)) = length (concat (map (enc_raw \<circ> raw_of b) ts))" for ts
    by (induction ts) (simp_all add: enc_raw_def)
  then show ?thesis by (simp add: header_with_def enc_header_def)
qed

lemma alignment_of_bounds:
  assumes "alignment_of m = Ok a" and "metadata_ok m" and "list_all entry_fits m"
  shows "is_power_of_two a" "0 < a" "a < 2 ^ 32"
proof -
  have a: "is_power_of_two a \<and> (a = default_alignment \<or> metadata_find m ''general.alignment'' = Some (VU32 a))"
    using assms(1)
    by (auto simp: alignment_of_def outcome_iff split: option.splits metadata_value.splits if_splits)
  have "a < 2 ^ 32" if found: "metadata_find m ''general.alignment'' = Some (VU32 a)"
  proof -
    obtain x where x: "find (\<lambda>x. entry_key x = ascii ''general.alignment'') m = Some x"
      "entry_value x = VU32 a"
      using found by (auto simp: metadata_find_def)
    then have "x \<in> set m" by (auto simp: find_Some_iff)
    note x = this x(2)
    then have "value_fits (VU32 a)" using assms(3) by (metis list_all_iff entry_fits_def)
    then show ?thesis by (simp add: unsigned_fits_def)
  qed
  then show "is_power_of_two a" "0 < a" "a < 2 ^ 32"
    using a by (auto simp: default_alignment_def is_power_of_two_pos)
qed

lemma place_tensor_written:
  assumes "descriptor_ok file_len alignment t" and "start \<le> td_data_offset t" and "file_len \<le> usize_max"
  shows "place_tensor file_len start (raw_of start t) = Ok t"
proof -
  obtain g where g: "canonical_geometry (format_value_spec (td_format t) (td_logical_shape t)) = Ok g"
    "td_physical_shape t = physical_shape g" "td_byte_len t = geometry_bytes g"
    using assms(1) by (auto simp: descriptor_ok_def canonical_geometry_spec)
  have room: "td_data_offset t + td_byte_len t \<le> file_len" using assms(1) by (simp add: descriptor_ok_def)
  have "checked_add start (td_data_offset t - start) = Some (td_data_offset t)"
    "checked_add (td_data_offset t) (geometry_bytes g) = Some (td_data_offset t + geometry_bytes g)"
    using room assms(2,3) g(3) by (simp_all add: checked_simps)
  then show ?thesis
    using g room by (simp add: place_tensor_def Let_def ok_or_def)
qed

lemma geometry_positive:
  assumes "geometry_spec v g" and "0 \<notin> set (logical_shape v)"
  shows "0 < geometry_bytes g"
proof (cases "spec_representation (value_storage_spec v)")
  case DenseStorage
  then show ?thesis using assms DenseStorage by (simp add: geometry_spec_def Let_def prod_list_pos)
next
  case (Packed p)
  then obtain c where c: "spec_representation (value_storage_spec v) = Packed (GgmlKQuant c)"
    by (cases p) simp
  have "0 < prod_list (logical_shape v) * block_bytes c"
    using assms(2) by (cases c) (simp_all add: prod_list_pos)
  then show ?thesis by (simp add: packed_bytes[OF assms(1) c, symmetric])
qed

lemma descriptor_nonempty:
  assumes "descriptor_ok file_len alignment t" and "tensor_fits start t"
  shows "0 < td_byte_len t"
proof -
  obtain g where "geometry_spec (format_value_spec (td_format t) (td_logical_shape t)) g"
    "td_byte_len t = geometry_bytes g" using assms(1) by (auto simp: descriptor_ok_def)
  moreover have "0 \<notin> set (td_logical_shape t)" using assms(2) by (auto simp: tensor_fits_def list_all_iff)
  ultimately show ?thesis by (simp add: geometry_positive format_value_spec_def)
qed


lemma check_overlaps_written:
  assumes ok: "catalogue_ok file_len alignment tensors" and fits: "list_all (tensor_fits start) tensors"
    and "file_len \<le> usize_max"
  shows "check_overlaps tensors = Ok ()"
proof -
  define P :: "nat \<times> nat \<times> bytes \<Rightarrow> nat \<times> nat \<times> bytes \<Rightarrow> bool"
    where "P x y \<longleftrightarrow> fst x < fst (snd x) \<and>
      (x \<noteq> y \<longrightarrow> {fst x..<fst (snd x)} \<inter> {fst y..<fst (snd y)} = {})" for x y
  have neighbours: "check_neighbours xs = Ok ()"
    if "sorted (map fst xs)" "distinct xs" "\<forall>x \<in> set xs. \<forall>y \<in> set xs. P x y" for xs
    using that
  proof (induction xs rule: check_neighbours.induct)
    case (1 x y rest)
    then have "x \<noteq> y" "fst x \<le> fst y" "P x y" "P y y" by simp_all
    then have "\<not> fst y < fst (snd x)" unfolding P_def by auto
    with 1 show ?case by simp
  qed simp_all
  have exact: "tensor_range t = (td_data_offset t, td_data_offset t + td_byte_len t, td_name t)"
    "0 < td_byte_len t" if t: "t \<in> set tensors" for t
  proof -
    have "descriptor_ok file_len alignment t" "tensor_fits start t"
      using ok fits t by (simp_all add: catalogue_ok_def list_all_iff)
    then show "0 < td_byte_len t" by (rule descriptor_nonempty)
    show "tensor_range t = (td_data_offset t, td_data_offset t + td_byte_len t, td_name t)"
      using \<open>descriptor_ok file_len alignment t\<close> assms(3) by (simp add: tensor_range_def descriptor_ok_def)
  qed
  have "distinct (map tensor_range tensors)"
    using ok exact by (fastforce simp: catalogue_ok_def distinct_map inj_on_def)
  moreover have "P (tensor_range t) (tensor_range u)" if "t \<in> set tensors" "u \<in> set tensors" for t u
    using ok exact that by (auto simp: P_def catalogue_ok_def tensor_bytes_at_def)
  ultimately show ?thesis
    unfolding check_overlaps_def by (intro neighbours) simp_all
qed

lemma reads_preamble:
  assumes "nm \<le> max_metadata_count" "nt \<le> max_tensor_count" "nm * 13 \<le> length rest" "nt * 32 \<le> length rest"
  shows "reads read_preamble (gguf_magic @ le_bytes 4 gguf_version @ le_bytes 8 nt @ le_bytes 8 nm) rest (nm, nt)"
proof -
  have "unsigned_fits 4 gguf_version" "unsigned_fits 8 nt" "unsigned_fits 8 nm"
    using assms(1,2) by (simp_all add: unsigned_fits_def gguf_version_def max_metadata_count_def
        max_tensor_count_def)
  note ints = reads_ints(3)[OF this(1)] reads_ints(4)[OF this(2)] reads_ints(4)[OF this(3)]
  have "reads (bind (count_of nm ''metadata'' 13 max_metadata_count) (\<lambda>nm.
      bind (count_of nt ''tensor'' 32 max_tensor_count) (\<lambda>nt. yields (nm, nt)))) [] rest (nm, nt)"
    by (rule reads_bind[OF reads_count reads_last[OF reads_count]]) (use assms in simp_all)
  then have "reads (bind read_u64 (\<lambda>nt. bind read_u64 (\<lambda>nm.
      bind (count_of nm ''metadata'' 13 max_metadata_count) (\<lambda>nm.
      bind (count_of nt ''tensor'' 32 max_tensor_count) (\<lambda>nt. yields (nm, nt))))))
      (le_bytes 8 nt @ le_bytes 8 nm) rest (nm, nt)"
    by (rule reads_bind[OF ints(2) reads_bind[OF ints(3)]]) simp_all
  note counts = this
  show ?thesis
    unfolding read_preamble_def
    by (rule reads_bind[OF reads_exact]) (auto simp: gguf_magic_def intro!: reads_bind[OF ints(1)] counts)
qed

lemma reads_catalogue:
  assumes "raws_ok alignment raws" and "\<forall>x \<in> set raws. raw_fits x"
  shows "reads (read_catalogue alignment (length raws)) (concat (map enc_raw raws)) rest raws"
proof -
  have "reads (repeated (length raws) (read_tensor alignment) []) (concat (map enc_raw raws)) rest raws"
  proof (rule reads_repeated)
    fix ys x zs rest assume "raws = ys @ x # zs"
    then show "reads (read_tensor alignment ys) (enc_raw x) rest (ys @ [x])"
      using assms by (intro reads_tensor) (auto simp: raws_ok_def)
  qed
  then show ?thesis
    unfolding read_catalogue_def by (auto intro!: reads_bind[where bs = "[]", OF reads_reserve])
qed

lemma entry_bytes: "entry_key x \<noteq> [] \<Longrightarrow> 13 \<le> length (enc_entry x)"
proof -
  have "0 < length (enc_value v)" for v
    by (cases v) (simp_all add: enc_string_def enc_array_def)
  then show "entry_key x \<noteq> [] \<Longrightarrow> 13 \<le> length (enc_entry x)"
    by (cases "entry_key x") (simp_all add: enc_entry_def enc_string_def Suc_le_eq)
qed

lemma raw_bytes: "1 \<le> length (raw_dimensions x) \<Longrightarrow> raw_name x \<noteq> [] \<Longrightarrow> 32 \<le> length (enc_raw x)"
  by (cases "raw_dimensions x"; cases "raw_name x") (simp_all add: enc_raw_def enc_string_def)

lemma concat_bytes:
  "\<forall>x \<in> set xs. k \<le> length (f x) \<Longrightarrow> length xs * k \<le> length (concat (map f xs))"
  by (induction xs) auto

lemma raws_written:
  assumes "catalogue_ok file_len alignment tensors" and "list_all (tensor_fits start) tensors"
    and "start mod alignment = 0" and "file_len \<le> usize_max"
  shows "raws_ok alignment (map (raw_of start) tensors)" "\<forall>x \<in> set (map (raw_of start) tensors). raw_fits x"
proof -
  have "raw_ok alignment (raw_of start t)" "raw_fits (raw_of start t)" if t: "t \<in> set tensors" for t
  proof -
    have d: "descriptor_ok file_len alignment t" "tensor_fits start t"
      using assms(1,2) t by (simp_all add: catalogue_ok_def list_all_iff)
    then have "(td_data_offset t - start) mod alignment = 0"
      using assms(3) by (auto simp: descriptor_ok_def mod_eq_0_iff_dvd)
    with d show "raw_ok alignment (raw_of start t)"
      by (auto simp: raw_ok_def descriptor_ok_def tensor_fits_def list_all_iff)
    have "td_data_offset t \<le> usize_max" using d(1) assms(4) by (simp add: descriptor_ok_def)
    then have "td_data_offset t - start < 2 ^ 64" unfolding usize_max_def by simp
    with d show "raw_fits (raw_of start t)" by (simp add: raw_fits_def tensor_fits_def unsigned_fits_def)
  qed
  then show "raws_ok alignment (map (raw_of start) tensors)"
    "\<forall>x \<in> set (map (raw_of start) tensors). raw_fits x"
    using assms(1) by (auto simp: raws_ok_def catalogue_ok_def comp_def)
qed

lemma place_catalogue_written:
  assumes fits: "gguf_fits f alignment (rd_len r)" and "willing e"
    and r: "rd_position r = length (encode_gguf f alignment)"
  shows "place_catalogue alignment n (map (raw_of (data_start f alignment)) (gf_tensors f)) e r =
     Ok (gf_tensors f, r)"
proof -
  let ?start = "data_start f alignment"
  have a: "0 < alignment" "alignment < 2 ^ 32"
    using fits alignment_of_bounds by (auto simp: gguf_fits_def)
  have len: "length (header_with f 0) = rd_position r"
    using length_header_with[of f 0 ?start] by (simp add: r encode_gguf_def)
  have "rd_position r \<le> 64 * 1024 * 1024" using fits r by (simp add: gguf_fits_def max_header_bytes_def)
  then have "rd_position r + (alignment - 1) \<le> usize_max" using a by (simp add: usize_max_def)
  then have "align_data (rd_position r) alignment = Ok ?start"
    using len by (simp add: align_data_Ok data_start_def minus_mod_eq_div_mult)
  moreover have "traverse (place_tensor (rd_len r) ?start) (map (raw_of ?start) (gf_tensors f)) = Ok (gf_tensors f)"
    using fits by (auto simp: traverse_Ok gguf_fits_def catalogue_ok_def list_all_iff tensor_fits_def
        intro!: place_tensor_written)
  moreover have "check_overlaps (gf_tensors f) = Ok ()"
    using fits by (intro check_overlaps_written) (auto simp: gguf_fits_def)
  ultimately show ?thesis
    using fits assms(2) by (simp add: place_catalogue_def outcome_iff gguf_fits_def willing_def)
qed

lemma quantization_raws:
  "check_quantization_version m (map (raw_of a) ts) = check_quantization_version m (map (raw_of b) ts)"
  by (simp add: check_quantization_version_def)

lemma parse_written:
  assumes fits: "gguf_fits f alignment (length (encode_gguf f alignment @ tail))"
  shows "parse_gguf (plain_env (encode_gguf f alignment @ tail)) = Ok f"
proof -
  let ?start = "data_start f alignment" and ?m = "gf_metadata f"
  let ?raws = "map (raw_of ?start) (gf_tensors f)"
  let ?file = "encode_gguf f alignment @ tail" and ?es = "concat (map enc_entry (gf_metadata f))"
  let ?e = "plain_env ?file" and ?ts = "concat (map enc_raw ?raws)"
  define r where "r = \<lparr>rd_len = length ?file, rd_position = 0, rd_polls = 2\<rparr>"
  define pre where "pre = gguf_magic @ le_bytes 4 gguf_version @ le_bytes 8 (length ?raws) @ le_bytes 8 (length ?m)"
  have e: "willing ?e" by (simp add: willing_def plain_env_def)
  have enc: "encode_gguf f alignment = pre @ ?es @ ?ts"
    by (simp add: encode_gguf_def header_with_def enc_header_def pre_def)
  have a: "0 < alignment" using fits alignment_of_bounds by (auto simp: gguf_fits_def)
  have ok: "raws_ok alignment ?raws" "\<forall>x \<in> set ?raws. raw_fits x"
    using fits by (intro raws_written[of "length ?file" alignment]; simp add: gguf_fits_def data_start_def)+
  have es: "length ?m * 13 \<le> length ?es"
    using fits by (intro concat_bytes ballI entry_bytes) (metis gguf_fits_def metadata_ok_def image_eqI)
  have ts: "length ?raws * 32 \<le> length ?ts"
    using ok by (intro concat_bytes) (auto simp: raws_ok_def raw_ok_def intro: raw_bytes)
  have ahead: "ahead ?e r (pre @ ?es @ ?ts)"
    using fits by (simp add: ahead_def r_def plain_env_def header_end_def gguf_fits_def enc)
  have "reads read_preamble pre (?es @ ?ts) (length ?m, length ?raws)"
    unfolding pre_def by (rule reads_preamble) (use fits es ts in \<open>simp_all add: gguf_fits_def\<close>)
  from readsD[OF this e ahead] obtain s1 where
    s1: "read_preamble ?e r = Ok ((length ?m, length ?raws), s1)" "rd_len s1 = rd_len r"
      "rd_position s1 = rd_position r + length pre" .
  note ahead1 = ahead_rest[OF ahead s1(2,3)]
  have "reads (read_metadata (length ?m)) ?es ?ts ?m"
    using fits by (intro reads_metadata) (simp_all add: gguf_fits_def list_all_iff)
  from readsD[OF this e ahead1] obtain s2 where
    s2: "read_metadata (length ?m) ?e s1 = Ok (?m, s2)" "rd_len s2 = rd_len s1"
      "rd_position s2 = rd_position s1 + length ?es" .
  have ahead2: "ahead ?e s2 (?ts @ [])" using ahead_rest[OF ahead1 s2(2,3)] by simp
  from readsD[OF reads_catalogue[OF ok] e ahead2] obtain s3 where
    s3: "read_catalogue alignment (length ?raws) ?e s2 = Ok (?raws, s3)" "rd_len s3 = rd_len s2"
      "rd_position s3 = rd_position s2 + length ?ts" .
  have "place_catalogue alignment (length ?raws) ?raws ?e s3 = Ok (gf_tensors f, s3)"
    by (rule place_catalogue_written[OF _ e]) (use fits s1 s2 s3 in \<open>simp_all add: r_def enc\<close>)
  then have "\<exists>s. parse_body ?e r = Ok (f, s)"
    using fits s1(1) s2(1) s3(1) e quantization_raws[of ?m ?start "gf_tensors f" 0]
    by (simp add: parse_body_def outcome_iff gguf_fits_def)
  then show ?thesis
    using e by (auto simp: parse_gguf_def plain_env_def r_def poll_def)
qed

section \<open>An example file\<close>

definition bias_tensor :: tensor_descriptor where
  "bias_tensor = \<lparr>td_name = ascii ''b'', td_format = TF32, td_logical_shape = [2],
     td_physical_shape = [2], td_data_offset = 192, td_byte_len = 8\<rparr>"

definition weight_tensor :: tensor_descriptor where
  "weight_tensor = \<lparr>td_name = ascii ''w'', td_format = TQ4K, td_logical_shape = [256],
     td_physical_shape = [1, 144], td_data_offset = 224, td_byte_len = 144\<rparr>"

definition example_file :: gguf_file where
  "example_file = \<lparr>gf_architecture = ascii ''llm'',
     gf_metadata =
       [\<lparr>entry_key = ascii ''general.architecture'', entry_value = VString (ascii ''llm'')\<rparr>,
        \<lparr>entry_key = ascii ''general.quantization_version'', entry_value = VU32 2\<rparr>],
     gf_tensors = [weight_tensor, bias_tensor]\<rparr>"

definition example_bytes :: bytes where
  "example_bytes = encode_gguf example_file 32 @ replicate 191 0"

lemma example_length: "length (header_with example_file s) = 177"
  by (simp add: header_with_def enc_header_def example_file_def weight_tensor_def bias_tensor_def
      raw_of_def enc_raw_def enc_entry_def enc_string_def gguf_magic_def ascii_def)

lemma example_start: "data_start example_file 32 = 192"
  by (simp add: data_start_def example_length)

lemma example_bytes_length: "length example_bytes = 368"
  by (simp add: example_bytes_def encode_gguf_def example_length)

lemma power_32: "is_power_of_two 32"
  unfolding is_power_of_two_iff by (rule exI[of _ 5]) simp

lemma example_metadata: "metadata_ok (gf_metadata example_file)"
  "list_all entry_fits (gf_metadata example_file)"
  "architecture_of (gf_metadata example_file) = Ok (gf_architecture example_file)"
  "alignment_of (gf_metadata example_file) = Ok 32"
  "check_quantization_version (gf_metadata example_file) (map (raw_of 0) (gf_tensors example_file)) = Ok ()"
  by (simp_all add: metadata_ok_def example_file_def ascii_def entry_fits_def string_fits_def
      max_metadata_key_bytes_def max_metadata_string_bytes_def unsigned_fits_def architecture_of_def
      alignment_of_def metadata_find_def default_alignment_def power_32
      check_quantization_version_def ggml_quantization_version_def)

lemma example_descriptors: "descriptor_ok 368 32 weight_tensor" "descriptor_ok 368 32 bias_tensor"
  by (simp_all add: descriptor_ok_def geometry_spec_def format_value_spec_def weight_tensor_def
      bias_tensor_def ascii_def usize_max_def strides_fit_def Let_def)

lemma example_catalogue: "catalogue_ok 368 32 (gf_tensors example_file)"
proof -
  have "td_name weight_tensor \<noteq> td_name bias_tensor" by code_simp
  moreover have "tensor_bytes_at weight_tensor \<inter> tensor_bytes_at bias_tensor = {}"
    by (auto simp: tensor_bytes_at_def weight_tensor_def bias_tensor_def)
  ultimately show ?thesis
    using example_descriptors by (auto simp: catalogue_ok_def example_file_def)
qed

lemma example_tensors: "list_all (tensor_fits 192) (gf_tensors example_file)"
  by (simp add: example_file_def weight_tensor_def bias_tensor_def tensor_fits_def string_fits_def
      ascii_def max_tensor_name_bytes_def js_safe_integer_def)

lemma example_fits: "gguf_fits example_file 32 (length example_bytes)"
  using example_metadata example_catalogue example_tensors
  by (simp add: gguf_fits_def example_bytes_length example_start encode_gguf_def example_length
      max_header_bytes_def usize_max_def)
    (simp add: example_file_def max_metadata_count_def max_tensor_count_def)

lemma example_parsed: "parse_gguf (plain_env example_bytes) = Ok example_file"
  using parse_written[OF example_fits[unfolded example_bytes_def]] by (simp add: example_bytes_def)

section \<open>Properties of the parser\<close>

text \<open>
  C29. The parser accepts exactly what the format writes: a file laid out by the encoder from any
  architecture, metadata and catalogue that fit the format, with any payload bytes after the
  header, parses back to that architecture, metadata and catalogue.
\<close>
theorem parse_gguf_written:
  "gguf_fits f alignment (length (encode_gguf f alignment @ tail)) \<Longrightarrow>
    parse_gguf (plain_env (encode_gguf f alignment @ tail)) = Ok f"
  by (rule parse_written)

lemma parse_gguf_written_witness:
  "gguf_fits example_file 32 (length (encode_gguf example_file 32 @ replicate 191 0)) \<and>
   parse_gguf (plain_env (encode_gguf example_file 32 @ replicate 191 0)) = Ok example_file"
  using parse_gguf_written[OF example_fits[unfolded example_bytes_def]]
    example_fits[unfolded example_bytes_def] by simp

lemma parse_body_Ok:
  assumes "parse_body e r = Ok (f, s)"
  obtains alignment m raws q where "alignment_of (gf_metadata f) = Ok alignment"
    "architecture_of (gf_metadata f) = Ok (gf_architecture f)" "metadata_ok (gf_metadata f)"
    "check_quantization_version (gf_metadata f) raws = Ok ()" "raws_ok alignment raws"
    "place_catalogue alignment m raws e q = Ok (gf_tensors f, q)" "moved e r q"
    "polled_unset e r q" "\<not> poll e (rd_polls q)" "s = q\<lparr>rd_polls := rd_polls q + 1\<rparr>"
proof -
  obtain nm nt s1 metadata s2 alignment raws q where steps:
    "read_preamble e r = Ok ((nm, nt), s1)" "read_metadata nm e s1 = Ok (metadata, s2)"
    "architecture_of metadata = Ok (gf_architecture f)" "alignment_of metadata = Ok alignment"
    "read_catalogue alignment nt e s2 = Ok (raws, q)" "check_quantization_version metadata raws = Ok ()"
    and placed: "\<exists>s3. place_catalogue alignment nt raws e q = Ok (gf_tensors f, s3) \<and>
       check_cancelled e s3 = Ok ((), s)"
    and f: "gf_metadata f = metadata"
    using assms by (fastforce simp: parse_body_def bind_Ok lift_Ok yields_Ok)
  from placed obtain s3 where s3: "place_catalogue alignment nt raws e q = Ok (gf_tensors f, s3)"
    "check_cancelled e s3 = Ok ((), s)" by blast
  moreover have "s3 = q" using s3(1) by (auto simp: place_catalogue_def outcome_iff split: if_splits)
  moreover have "moved e r q"
    using position.keepsD[OF position.keeps_preamble steps(1)]
      position.keepsD[OF position.keeps_metadata steps(2)]
      position.keepsD[OF position.keeps_catalogue steps(5)] by (blast intro: position.chain)
  moreover have "polled_unset e r q"
    using polls.keepsD[OF polls.keeps_preamble steps(1)]
      polls.keepsD[OF polls.keeps_metadata steps(2)]
      polls.keepsD[OF polls.keeps_catalogue steps(5)] by (blast intro: polls.chain)
  ultimately show thesis
    using steps f ensuresD[OF ensures_read_metadata steps(2)] ensuresD[OF ensures_read_catalogue steps(5)]
    by (intro that[of alignment raws nt q]) (auto simp: check_cancelled_Ok)
qed

lemma architecture_of_Ok: "architecture_of m = Ok a \<Longrightarrow> a \<noteq> []"
  by (auto simp: architecture_of_def split: option.splits metadata_value.splits if_splits)

lemma alignment_of_Ok: "alignment_of m = Ok a \<Longrightarrow> is_power_of_two a"
  by (auto simp: alignment_of_def outcome_iff split: option.splits metadata_value.splits if_splits)

text \<open>
  C30. What a parse returns is safe to use: the architecture is present; keys and names are
  non-empty and distinct; the alignment is a power of two; every tensor has one to four
  dimensions, the physical shape and byte length of the canonical geometry of its format, and an
  aligned byte range that lies inside the file, after the bytes the reader consumed; no two ranges
  overlap.
\<close>
theorem parse_gguf_sound:
  assumes "parse_gguf e = Ok f"
  shows "\<exists>file_len alignment header_bytes.
    env_len e = Some file_len \<and> alignment_of (gf_metadata f) = Ok alignment \<and>
    is_power_of_two alignment \<and> architecture_of (gf_metadata f) = Ok (gf_architecture f) \<and>
    gf_architecture f \<noteq> [] \<and> metadata_ok (gf_metadata f) \<and>
    catalogue_ok file_len alignment (gf_tensors f) \<and>
    header_bytes \<le> min file_len max_header_bytes \<and> header_bytes \<le> length (env_bytes e) \<and>
    (\<forall>t \<in> set (gf_tensors f). header_bytes \<le> td_data_offset t)"
proof -
  obtain n s where n: "env_len e = Some n"
    and body: "parse_body e \<lparr>rd_len = n, rd_position = 0, rd_polls = 2\<rparr> = Ok (f, s)"
    using assms by (rule position.parsed)
  from body obtain alignment m raws q where
    a: "alignment_of (gf_metadata f) = Ok alignment"
      "architecture_of (gf_metadata f) = Ok (gf_architecture f)" "metadata_ok (gf_metadata f)"
    and raws: "raws_ok alignment raws"
    and placed: "place_catalogue alignment m raws e q = Ok (gf_tensors f, q)"
    and moved: "moved e \<lparr>rd_len = n, rd_position = 0, rd_polls = 2\<rparr> q"
    by (rule parse_body_Ok)
  have "0 < alignment" using alignment_of_Ok[OF a(1)] by (rule is_power_of_two_pos)
  note ok = place_catalogue_Ok[OF placed raws this]
  have "rd_len q = n" "rd_position q \<le> min n max_header_bytes" "rd_position q \<le> length (env_bytes e)"
    using moved by (auto simp: moved_def header_end_def)
  with ok n a alignment_of_Ok architecture_of_Ok show ?thesis by blast
qed

lemma parse_gguf_sound_witness:
  "parse_gguf (plain_env example_bytes) = Ok example_file \<and>
   (\<exists>file_len alignment header_bytes. env_len (plain_env example_bytes) = Some file_len \<and>
      catalogue_ok file_len alignment (gf_tensors example_file) \<and>
      header_bytes \<le> min file_len max_header_bytes)"
  using parse_gguf_sound[OF example_parsed] example_parsed by blast

lemma parse_not_Panic: "parse_gguf e \<noteq> Panic"
proof -
  have "parse_body e r \<noteq> Panic" for r using calm_body by (simp add: calm_def)
  then show ?thesis by (simp add: parse_gguf_def outcome_iff case_prod_beta split: option.split)
qed





section \<open>Selecting tensors\<close>

definition selection_of :: "gguf_file \<Rightarrow> bytes list \<Rightarrow> tensor_descriptor list \<Rightarrow> bool" where
  "selection_of f names kept \<longleftrightarrow> distinct names \<and> [] \<notin> set names \<and>
     set names \<subseteq> td_name ` set (gf_tensors f) \<and>
     kept = filter (\<lambda>t. td_name t \<in> set names) (gf_tensors f)"

lemma request_names_Ok:
  "request_names e polls seen names = Ok polls' \<longleftrightarrow>
     polls' = polls + length names \<and> (\<forall>k < length names. \<not> poll e (polls + k)) \<and>
     [] \<notin> set names \<and> distinct names \<and> set names \<inter> set seen = {}"
  by (induction e polls seen names rule: request_names.induct) (auto simp: less_Suc_eq_0_disj)

lemma retain_requested_filter:
  assumes "distinct (map td_name ts)"
  shows "retain_requested requested ts =
    (filter (\<lambda>t. td_name t \<in> set requested) ts, filter (\<lambda>n. n \<notin> td_name ` set ts) requested)"
  using assms
proof (induction ts arbitrary: requested)
  case (Cons t ts)
  have other: "td_name u \<noteq> td_name t" if "u \<in> set ts" for u
    using Cons.prems that by (metis distinct.simps(2) image_eqI list.map(2) list.set_map)
  then have "filter (\<lambda>u. td_name u \<in> set (removeAll (td_name t) requested)) ts =
      filter (\<lambda>u. td_name u \<in> set requested) ts"
    by (intro filter_cong) auto
  moreover have "filter (\<lambda>n. n \<notin> td_name ` set ts) (removeAll (td_name t) requested) =
      filter (\<lambda>n. n \<notin> td_name ` set (t # ts)) requested"
    by (induction requested) auto
  moreover have "filter (\<lambda>n. n \<notin> td_name ` set ts) requested = filter (\<lambda>n. n \<notin> td_name ` set (t # ts)) requested"
    if "td_name t \<notin> set requested"
    using that by (intro filter_cong) auto
  ultimately show ?case using Cons by simp
qed simp

text \<open>
  C33. A selection is exact: it succeeds only with the requested tensors, each once, in the order
  of the archive, for distinct non-empty names that all exist; without cancellation and allocation
  failure it succeeds for all of those; and no selection is the whole catalogue.
\<close>
theorem select_tensors_exact:
  assumes "distinct (map td_name (gf_tensors f))"
  shows "(select_tensors e f (Some names) = Ok kept \<longrightarrow> selection_of f names kept) \<and>
    (willing e \<longrightarrow> selection_of f names kept \<longrightarrow> select_tensors e f (Some names) = Ok kept) \<and>
    (willing e \<longrightarrow> select_tensors e f None = Ok (gf_tensors f))"
proof -
  have find: "find (\<lambda>n. n \<in> set (filter (\<lambda>n. n \<notin> td_name ` set (gf_tensors f)) names)) names = None \<longleftrightarrow>
      set names \<subseteq> td_name ` set (gf_tensors f)"
    by (auto simp: find_None_iff)
  have "select_tensors e f (Some names) = Ok kept \<longleftrightarrow>
      \<not> poll e 0 \<and> env_reserve e ''tensor selection'' (length names) \<and>
      (\<forall>k < length names. \<not> poll e (1 + k)) \<and> \<not> poll e (1 + length names) \<and> selection_of f names kept"
    using find
    by (auto simp: select_tensors_def outcome_iff request_names_Ok retain_requested_filter[OF assms]
        selection_of_def split: if_splits option.splits)
  moreover have "willing e \<Longrightarrow> select_tensors e f None = Ok (gf_tensors f)"
    by (simp add: select_tensors_def)
  ultimately show ?thesis by (simp add: willing_def poll_def)
qed

lemma select_tensors_exact_witness:
  "select_tensors (plain_env []) example_file (Some [td_name bias_tensor]) = Ok [bias_tensor]"
proof -
  have names: "td_name weight_tensor \<noteq> td_name bias_tensor" by code_simp
  then have "distinct (map td_name (gf_tensors example_file))" by (simp add: example_file_def)
  moreover have "selection_of example_file [td_name bias_tensor] [bias_tensor]"
    using names by (simp add: selection_of_def example_file_def) (simp add: bias_tensor_def ascii_def)
  moreover have "willing (plain_env [])" by (simp add: willing_def plain_env_def)
  ultimately show ?thesis
    using select_tensors_exact[of example_file "plain_env []" "[td_name bias_tensor]" "[bias_tensor]"] by blast
qed

section \<open>Reading a payload\<close>

definition payload :: "gguf_env \<Rightarrow> tensor_descriptor \<Rightarrow> bytes" where
  "payload e t = take (td_byte_len t) (drop (td_data_offset t) (env_bytes e))"

definition filled :: "gguf_env \<Rightarrow> tensor_descriptor \<Rightarrow> bytes \<Rightarrow> nat \<Rightarrow> bytes \<Rightarrow> bool" where
  "filled e t output j buffer \<longleftrightarrow>
     buffer = take j (drop (td_data_offset t) (env_bytes e)) @ drop j output \<and>
     (j = 0 \<or> td_data_offset t + j \<le> length (env_bytes e))"

lemma payload_chunk_cases:
  assumes "filled e t output r buffer" and "r = index * read_chunk_bytes" and "r < length output"
  shows "case read_payload_chunk e t buffer index of
      Ok b \<Rightarrow> filled e t output (min (Suc index * read_chunk_bytes) (length output)) b
    | Err (x, b) \<Rightarrow> filled e t output r b
    | Panic \<Rightarrow> False"
proof -
  define m where "m = min read_chunk_bytes (length output - r)"
  have m: "r + m = min (Suc index * read_chunk_bytes) (length output)"
    using assms(2,3) by (simp add: m_def)
  have len: "length buffer = length output"
    using assms(1,3) by (auto simp: filled_def)
  have "filled e t output (r + m) (take r buffer @ bs @ drop (r + m) buffer)"
    if bs: "file_read e (td_data_offset t + r) m = Ok bs" for bs
  proof -
    have part: "bs = take m (drop (td_data_offset t + r) (env_bytes e))"
      and room: "td_data_offset t + r + m \<le> length (env_bytes e)"
      using bs by (simp_all add: outcome_iff)
    have "take r buffer = take r (drop (td_data_offset t) (env_bytes e))"
      using assms(1) by (auto simp: filled_def)
    moreover have "drop (r + m) buffer = drop (r + m) output"
      using assms(1) by (auto simp: filled_def)
    moreover have "take r (drop (td_data_offset t) (env_bytes e)) @ bs =
        take (r + m) (drop (td_data_offset t) (env_bytes e))"
      unfolding part take_add drop_drop by (simp add: add.commute)
    ultimately show ?thesis using room by (simp add: filled_def)
  qed
  then show ?thesis
    using assms(1,2) len m
    by (auto simp: read_payload_chunk_def ok_or_def checked_mul_def checked_add_def Let_def m_def
        file_read_def split: option.splits if_splits)
qed

lemma chunk_start: "k < chunk_count n \<Longrightarrow> k * read_chunk_bytes < n"
proof -
  have c: "0 < read_chunk_bytes" by (simp add: read_chunk_bytes_def)
  assume "k < chunk_count n"
  then have "Suc k * read_chunk_bytes \<le> n + read_chunk_bytes - 1"
    using less_eq_div_iff_mult_less_eq[OF c, of "Suc k" "n + read_chunk_bytes - 1"]
    by (simp add: chunk_count_def)
  then show ?thesis using c by simp
qed

lemma read_into_cases:
  assumes "length buf = td_byte_len t"
  shows "case read_gguf_tensor_into e t buf of
      Ok b \<Rightarrow> b = payload e t \<and> length b = td_byte_len t
    | Err (x, b) \<Rightarrow> \<exists>j. filled e t buf j b
    | Panic \<Rightarrow> False"
proof -
  let ?n = "length buf" and ?c = "read_chunk_bytes"
  have c: "0 < ?c" by (simp add: read_chunk_bytes_def)
  have last: "?n \<le> chunk_count ?n * ?c"
    using dividend_less_div_times[OF c, of "?n + ?c - 1"] c unfolding chunk_count_def by linarith
  note before = chunk_start[of _ ?n]
  have "case fold_outcome (read_payload_chunk e t) buf [0..<chunk_count ?n] of
      Ok b \<Rightarrow> filled e t buf (min (chunk_count ?n * ?c) ?n) b
    | Err z \<Rightarrow> \<exists>j. filled e t buf j (snd z)
    | Panic \<Rightarrow> False"
  proof (rule fold_outcome_upto[where P = "\<lambda>k. filled e t buf (min (k * ?c) ?n)"])
    fix k b assume k: "k < chunk_count ?n" and b: "filled e t buf (min (k * ?c) ?n) b"
    have "min (k * ?c) ?n = k * ?c" using before[OF k] by simp
    with b before[OF k] have "case read_payload_chunk e t b k of
      Ok b' \<Rightarrow> filled e t buf (min (Suc k * ?c) ?n) b'
    | Err (x, b') \<Rightarrow> filled e t buf (k * ?c) b' | Panic \<Rightarrow> False"
      by (intro payload_chunk_cases) simp_all
    then show "case read_payload_chunk e t b k of
      Ok b' \<Rightarrow> filled e t buf (min (Suc k * ?c) ?n) b'
    | Err z \<Rightarrow> \<exists>j. filled e t buf j (snd z) | Panic \<Rightarrow> False"
      by (auto split: outcome.splits)
  qed (simp add: filled_def)
  moreover have "b = payload e t \<and> length b = td_byte_len t" if "filled e t buf ?n b" for b
    using that assms by (auto simp: filled_def payload_def)
  ultimately show ?thesis
    using assms last by (auto simp: read_gguf_tensor_into_def min_absorb2 split: outcome.splits)
qed

lemma read_into_succeeds:
  assumes "willing e" and "td_data_offset t + td_byte_len t \<le> length (env_bytes e)"
    and "length (env_bytes e) \<le> usize_max" and "length buf = td_byte_len t"
  shows "\<exists>b. read_gguf_tensor_into e t buf = Ok b"
proof -
  let ?n = "length buf" and ?c = "read_chunk_bytes"
  have chunk: "\<exists>b'. read_payload_chunk e t b k = Ok b' \<and> length b' = ?n"
    if k: "k < chunk_count ?n" and b: "length b = ?n" for k b
  proof -
    have "k * ?c < ?n" using k by (rule chunk_start)
    then show ?thesis
      using assms b
      by (auto simp: read_payload_chunk_def ok_or_def checked_mul_def checked_add_def Let_def
          file_read_def willing_def poll_def)
  qed
  have "case fold_outcome (read_payload_chunk e t) buf [0..<chunk_count ?n] of
      Ok b \<Rightarrow> length b = ?n | Err _ \<Rightarrow> False | Panic \<Rightarrow> False"
    by (rule fold_outcome_upto[where P = "\<lambda>k b. length b = ?n"]) (use chunk in fastforce)+
  then show ?thesis
    using assms by (auto simp: read_gguf_tensor_into_def split: outcome.splits)
qed



end
