(* ===== verification/Graph.thy ===== *)
theory Graph
  imports Storage Floats
begin

text \<open>
  The intermediate representation of tensor programs (\<open>crates/graph/src/lib.rs\<close>): node kinds,
  their children, and the rebuilding of a kind with other children.

  A shared \<open>Arc<Node>\<close> is a node value that carries its identifier; the structure is immutable,
  so sharing is visible only through \<open>node_id\<close>. The enum \<open>NodeKind\<close> is split into families, one
  constructor of \<open>kind\<close> each, along the or-patterns of the code: variants that the code treats
  alike everywhere (such as \<open>Add\<close> and \<open>Sub\<close>) share a constructor and are told apart by an
  operator.
\<close>

section \<open>Devices and attributes\<close>

datatype device = Cpu nat | Metal nat | Cuda nat

fun is_metal :: "device \<Rightarrow> bool" where
  "is_metal (Metal _) = True"
| "is_metal _ = False"

definition same_device :: "device \<Rightarrow> device \<Rightarrow> bool" where
  "same_device a b \<longleftrightarrow> a = b"

datatype ce_reduction = CeMean | CeSum

datatype position_offset = Absolute | Cursor

datatype attention_window = Inherit | FullWindow | Local nat

definition resolve_window :: "attention_window \<Rightarrow> nat option \<Rightarrow> nat option" where
  "resolve_window w inherited = (case w of
     Inherit \<Rightarrow> inherited
   | FullWindow \<Rightarrow> None
   | Local n \<Rightarrow> Some n)"

definition local_window :: "attention_window \<Rightarrow> nat option" where
  "local_window w = resolve_window w None"

datatype attention_rounding = Fused | Stepwise

datatype rotary_layout = HalfSplit | InterleavedPairs

datatype kv_attention_mode = CausalMode | BidirectionalBlock

section \<open>Node kinds\<close>

datatype arith_op = Add | Sub | Mul | Div | Maximum | Minimum

datatype compare_op = Eq | Gt | Lt | Ge | Le

datatype unary_op = Neg | Abs | Sqrt | Exp | Log | Sin | Cos | Tanh | Relu | Erf | Gelu bool
  | Floor | Ceil | Round | Sign | Checkpoint | StopGradient | Expose string | Pow f64

datatype reduce_op = SumOf | MeanOf | MaxOf | MinOf | ProdOf

datatype fill_op = Zeros | Ones | Randn | Full f64

datatype conv_params = ConvParams (conv_stride: nat) (conv_padding: nat) (conv_dilation: nat) (conv_groups: nat)

text \<open>Kinds without operands. A leaf names its slot, whose content is part of the world.\<close>

datatype source_kind =
    Leaf nat
  | Input nat "nat list" dtype device storage_metadata
  | ScalarInput nat dtype device
  | FromBytes "8 word list" "nat list" dtype device
  | Fill fill_op "nat list" dtype device
  | Uniform f64 f64 "nat list" dtype device
  | Arange f64 f64 f64 dtype device
  | Eye nat dtype device

datatype 'a index_kind =
    Argmax 'a nat | Argmin 'a nat | TopKIndices 'a nat | Cumsum 'a nat
  | IndexSelect 'a nat 'a | ScatterAdd 'a nat 'a 'a | Gather 'a nat 'a
  | CrossEntropy 'a 'a int ce_reduction | CrossEntropyBackward 'a 'a int ce_reduction
  | PositionEmbedding 'a nat | LastTokenRow 'a

datatype 'a attention_kind =
    Sdpa 'a 'a 'a f64 bool attention_window
  | SdpaConfigured 'a 'a 'a f64 bool attention_window attention_rounding "nat option" attention_window
  | SdpaBackward 'a 'a 'a 'a 'a f64 bool attention_window
  | SdpaBackwardOut 'a nat
  | KvAttention 'a 'a 'a f64 nat "nat option" kv_attention_mode attention_rounding
  | KdaChunk 'a 'a 'a 'a 'a f64
  | KdaRecurrence 'a 'a 'a 'a 'a f64 nat
  | KdaBackward 'a 'a 'a 'a 'a 'a f64
  | KdaBackwardOut 'a nat
  | ShortConv1d 'a 'a
  | ConvState 'a 'a nat
  | ShortConv1dBackwardX 'a 'a 'a
  | ShortConv1dBackwardW 'a 'a 'a
  | RotaryEmbedding 'a nat f64 position_offset rotary_layout
  | RotaryEmbeddingExplicit 'a 'a 'a rotary_layout
  | RotaryEmbeddingBackward 'a "nat list" nat f64 rotary_layout

datatype 'a layer_kind =
    ChunkedHeadCe 'a 'a 'a 'a int
  | ChunkedHeadCeBackward 'a 'a 'a 'a 'a int
  | ChunkedHeadCeBackwardOut 'a nat
  | LayerNorm 'a 'a 'a f64
  | RmsNorm 'a "'a option" f64
  | LayerNormBackward 'a 'a 'a f64
  | LayerNormBackwardOut 'a nat
  | Linear 'a 'a 'a
  | ExpertLinearRows 'a 'a 'a
  | GroupedExpertLinearRows 'a 'a 'a
  | QuantizedLinear 'a 'a "'a option"
  | QuantizedEmbedding 'a 'a "nat option"
  | AdamWStep 'a 'a 'a 'a 'a 'a 'a f64 f64 f64 f64
  | AdamWOut 'a nat
  | SgdStep 'a 'a 'a 'a 'a f64 f64 bool f64
  | SgdOut 'a nat

datatype 'a conv_kind =
    Conv1d 'a 'a conv_params
  | Conv2d 'a 'a conv_params
  | ConvTranspose1d 'a 'a nat conv_params
  | ConvTranspose2d 'a 'a nat conv_params
  | Conv1dBackwardW 'a 'a nat nat conv_params
  | Conv2dBackwardW 'a 'a "nat \<times> nat" nat conv_params

datatype 'a shape_kind =
    Reshape 'a "nat list" | Permute 'a "nat list" | Slice 'a "(nat \<times> nat \<times> nat) list"
  | Concat 'a 'a nat | BroadcastTo 'a "nat list" | Matmul 'a 'a | Inverse 'a | Det 'a | Solve 'a 'a

datatype 'a kind =
    Source source_kind
  | Arith arith_op 'a 'a
  | Compare compare_op 'a 'a
  | Unary unary_op 'a
  | Where 'a 'a 'a
  | Cast 'a dtype
  | Reduce reduce_op 'a "nat list" bool
  | Index "'a index_kind"
  | Attention "'a attention_kind"
  | Layer "'a layer_kind"
  | Conv "'a conv_kind"
  | Shape "'a shape_kind"

datatype node = Node (node_id: nat) (node_shape: "nat list") (node_dtype: dtype)
  (node_device: device) (node_storage: storage_metadata) (node_kind: "node kind")

record node_metadata =
  md_shape :: "nat list"
  md_dtype :: dtype
  md_device :: device
  md_storage :: storage_metadata

definition node_value_spec :: "node \<Rightarrow> value_spec" where
  "node_value_spec x = \<lparr>semantic_dtype = node_dtype x, logical_shape = node_shape x,
     value_storage_spec = as_spec (node_storage x)\<rparr>"

definition metadata_value_spec :: "node_metadata \<Rightarrow> value_spec" where
  "metadata_value_spec m = \<lparr>semantic_dtype = md_dtype m, logical_shape = md_shape m,
     value_storage_spec = as_spec (md_storage m)\<rparr>"

section \<open>Children\<close>

fun index_children :: "'a index_kind \<Rightarrow> 'a list" where
  "index_children (Argmax a _) = [a]"
| "index_children (Argmin a _) = [a]"
| "index_children (TopKIndices a _) = [a]"
| "index_children (Cumsum a _) = [a]"
| "index_children (IndexSelect a _ indexes) = [a, indexes]"
| "index_children (ScatterAdd a _ indexes src) = [a, indexes, src]"
| "index_children (Gather a _ indexes) = [a, indexes]"
| "index_children (CrossEntropy logits target _ _) = [logits, target]"
| "index_children (CrossEntropyBackward logits target _ _) = [logits, target]"
| "index_children (PositionEmbedding weight _) = [weight]"
| "index_children (LastTokenRow a) = [a]"

fun attention_children :: "'a attention_kind \<Rightarrow> 'a list" where
  "attention_children (Sdpa q k v _ _ _) = [q, k, v]"
| "attention_children (SdpaConfigured q k v _ _ _ _ _ _) = [q, k, v]"
| "attention_children (SdpaBackward q k v g fwd _ _ _) = [q, k, v, g, fwd]"
| "attention_children (SdpaBackwardOut src _) = [src]"
| "attention_children (KvAttention q k v _ _ _ _ _) = [q, k, v]"
| "attention_children (KdaChunk q k v log_decay beta _) = [q, k, v, log_decay, beta]"
| "attention_children (KdaRecurrence q k v log_decay beta _ _) = [q, k, v, log_decay, beta]"
| "attention_children (KdaBackward q k v log_decay beta g _) = [q, k, v, log_decay, beta, g]"
| "attention_children (KdaBackwardOut src _) = [src]"
| "attention_children (ShortConv1d x weight) = [x, weight]"
| "attention_children (ConvState x weight _) = [x, weight]"
| "attention_children (ShortConv1dBackwardX x weight g) = [x, weight, g]"
| "attention_children (ShortConv1dBackwardW x weight g) = [x, weight, g]"
| "attention_children (RotaryEmbedding x _ _ _ _) = [x]"
| "attention_children (RotaryEmbeddingExplicit x positions inverse_frequencies _) =
     [x, positions, inverse_frequencies]"
| "attention_children (RotaryEmbeddingBackward g _ _ _ _) = [g]"

definition optional :: "'a option \<Rightarrow> 'a list" where
  "optional x = (case x of None \<Rightarrow> [] | Some y \<Rightarrow> [y])"

fun layer_children :: "'a layer_kind \<Rightarrow> 'a list" where
  "layer_children (ChunkedHeadCe x weight bias target _) = [x, weight, bias, target]"
| "layer_children (ChunkedHeadCeBackward x weight bias target g _) = [x, weight, bias, target, g]"
| "layer_children (ChunkedHeadCeBackwardOut src _) = [src]"
| "layer_children (LayerNorm x weight bias _) = [x, weight, bias]"
| "layer_children (RmsNorm x weight _) = x # optional weight"
| "layer_children (LayerNormBackward x weight g _) = [x, weight, g]"
| "layer_children (LayerNormBackwardOut src _) = [src]"
| "layer_children (Linear x weight bias) = [x, weight, bias]"
| "layer_children (ExpertLinearRows x weight indexes) = [x, weight, indexes]"
| "layer_children (GroupedExpertLinearRows x weight indexes) = [x, weight, indexes]"
| "layer_children (QuantizedLinear x weight bias) = x # weight # optional bias"
| "layer_children (QuantizedEmbedding indexes weight _) = [indexes, weight]"
| "layer_children (AdamWStep param grad m v lr c1 c2 _ _ _ _) = [param, grad, m, v, lr, c1, c2]"
| "layer_children (AdamWOut src _) = [src]"
| "layer_children (SgdStep param grad velocity first lr _ _ _ _) = [param, grad, velocity, first, lr]"
| "layer_children (SgdOut src _) = [src]"

fun conv_children :: "'a conv_kind \<Rightarrow> 'a list" where
  "conv_children (Conv1d x w _) = [x, w]"
| "conv_children (Conv2d x w _) = [x, w]"
| "conv_children (ConvTranspose1d x w _ _) = [x, w]"
| "conv_children (ConvTranspose2d x w _ _) = [x, w]"
| "conv_children (Conv1dBackwardW x g _ _ _) = [x, g]"
| "conv_children (Conv2dBackwardW x g _ _ _) = [x, g]"

fun shape_children :: "'a shape_kind \<Rightarrow> 'a list" where
  "shape_children (Reshape a _) = [a]"
| "shape_children (Permute a _) = [a]"
| "shape_children (Slice a _) = [a]"
| "shape_children (Concat a b _) = [a, b]"
| "shape_children (BroadcastTo a _) = [a]"
| "shape_children (Matmul a b) = [a, b]"
| "shape_children (Inverse a) = [a]"
| "shape_children (Det a) = [a]"
| "shape_children (Solve a b) = [a, b]"

fun node_children :: "'a kind \<Rightarrow> 'a list" where
  "node_children (Source _) = []"
| "node_children (Arith _ a b) = [a, b]"
| "node_children (Compare _ a b) = [a, b]"
| "node_children (Unary _ a) = [a]"
| "node_children (Where c a b) = [c, a, b]"
| "node_children (Cast a _) = [a]"
| "node_children (Reduce _ a _ _) = [a]"
| "node_children (Index k) = index_children k"
| "node_children (Attention k) = attention_children k"
| "node_children (Layer k) = layer_children k"
| "node_children (Conv k) = conv_children k"
| "node_children (Shape k) = shape_children k"

section \<open>Rebuilding a kind\<close>

fun remap_index :: "('a \<Rightarrow> 'b) \<Rightarrow> 'a index_kind \<Rightarrow> 'b index_kind" where
  "remap_index f (Argmax a d) = Argmax (f a) d"
| "remap_index f (Argmin a d) = Argmin (f a) d"
| "remap_index f (TopKIndices a k) = TopKIndices (f a) k"
| "remap_index f (Cumsum a d) = Cumsum (f a) d"
| "remap_index f (IndexSelect a d i) = IndexSelect (f a) d (f i)"
| "remap_index f (ScatterAdd a d i s) = ScatterAdd (f a) d (f i) (f s)"
| "remap_index f (Gather a d i) = Gather (f a) d (f i)"
| "remap_index f (CrossEntropy l t i r) = CrossEntropy (f l) (f t) i r"
| "remap_index f (CrossEntropyBackward l t i r) = CrossEntropyBackward (f l) (f t) i r"
| "remap_index f (PositionEmbedding w n) = PositionEmbedding (f w) n"
| "remap_index f (LastTokenRow a) = LastTokenRow (f a)"

fun remap_attention :: "('a \<Rightarrow> 'b) \<Rightarrow> 'a attention_kind \<Rightarrow> 'b attention_kind" where
  "remap_attention f (Sdpa q k v s c w) = Sdpa (f q) (f k) (f v) s c w"
| "remap_attention f (SdpaConfigured q k v s c w r l t) =
     SdpaConfigured (f q) (f k) (f v) s c w r l t"
| "remap_attention f (SdpaBackward q k v g y s c w) =
     SdpaBackward (f q) (f k) (f v) (f g) (f y) s c w"
| "remap_attention f (SdpaBackwardOut x i) = SdpaBackwardOut (f x) i"
| "remap_attention f (KvAttention q k v s l w m r) = KvAttention (f q) (f k) (f v) s l w m r"
| "remap_attention f (KdaChunk q k v d b s) = KdaChunk (f q) (f k) (f v) (f d) (f b) s"
| "remap_attention f (KdaRecurrence q k v d b s l) =
     KdaRecurrence (f q) (f k) (f v) (f d) (f b) s l"
| "remap_attention f (KdaBackward q k v d b g s) =
     KdaBackward (f q) (f k) (f v) (f d) (f b) (f g) s"
| "remap_attention f (KdaBackwardOut x i) = KdaBackwardOut (f x) i"
| "remap_attention f (ShortConv1d x w) = ShortConv1d (f x) (f w)"
| "remap_attention f (ConvState x w l) = ConvState (f x) (f w) l"
| "remap_attention f (ShortConv1dBackwardX x w g) = ShortConv1dBackwardX (f x) (f w) (f g)"
| "remap_attention f (ShortConv1dBackwardW x w g) = ShortConv1dBackwardW (f x) (f w) (f g)"
| "remap_attention f (RotaryEmbedding x n t p l) = RotaryEmbedding (f x) n t p l"
| "remap_attention f (RotaryEmbeddingExplicit x p i l) = RotaryEmbeddingExplicit (f x) (f p) (f i) l"
| "remap_attention f (RotaryEmbeddingBackward g s n t l) = RotaryEmbeddingBackward (f g) s n t l"

fun remap_layer :: "('a \<Rightarrow> 'b) \<Rightarrow> 'a layer_kind \<Rightarrow> 'b layer_kind" where
  "remap_layer f (ChunkedHeadCe x w b t i) = ChunkedHeadCe (f x) (f w) (f b) (f t) i"
| "remap_layer f (ChunkedHeadCeBackward x w b t g i) =
     ChunkedHeadCeBackward (f x) (f w) (f b) (f t) (f g) i"
| "remap_layer f (ChunkedHeadCeBackwardOut x i) = ChunkedHeadCeBackwardOut (f x) i"
| "remap_layer f (LayerNorm x w b e) = LayerNorm (f x) (f w) (f b) e"
| "remap_layer f (RmsNorm x w e) = RmsNorm (f x) (map_option f w) e"
| "remap_layer f (LayerNormBackward x w g e) = LayerNormBackward (f x) (f w) (f g) e"
| "remap_layer f (LayerNormBackwardOut x i) = LayerNormBackwardOut (f x) i"
| "remap_layer f (Linear x w b) = Linear (f x) (f w) (f b)"
| "remap_layer f (ExpertLinearRows x w i) = ExpertLinearRows (f x) (f w) (f i)"
| "remap_layer f (GroupedExpertLinearRows x w i) = GroupedExpertLinearRows (f x) (f w) (f i)"
| "remap_layer f (QuantizedLinear x w b) = QuantizedLinear (f x) (f w) (map_option f b)"
| "remap_layer f (QuantizedEmbedding i w p) = QuantizedEmbedding (f i) (f w) p"
| "remap_layer f (AdamWStep p g m v l c1 c2 b1 b2 e d) =
     AdamWStep (f p) (f g) (f m) (f v) (f l) (f c1) (f c2) b1 b2 e d"
| "remap_layer f (AdamWOut x i) = AdamWOut (f x) i"
| "remap_layer f (SgdStep p g v s l m d n w) = SgdStep (f p) (f g) (f v) (f s) (f l) m d n w"
| "remap_layer f (SgdOut x i) = SgdOut (f x) i"

fun remap_conv :: "('a \<Rightarrow> 'b) \<Rightarrow> 'a conv_kind \<Rightarrow> 'b conv_kind" where
  "remap_conv f (Conv1d x w p) = Conv1d (f x) (f w) p"
| "remap_conv f (Conv2d x w p) = Conv2d (f x) (f w) p"
| "remap_conv f (ConvTranspose1d x w extra p) = ConvTranspose1d (f x) (f w) extra p"
| "remap_conv f (ConvTranspose2d x w extra p) = ConvTranspose2d (f x) (f w) extra p"
| "remap_conv f (Conv1dBackwardW x g k c p) = Conv1dBackwardW (f x) (f g) k c p"
| "remap_conv f (Conv2dBackwardW x g k c p) = Conv2dBackwardW (f x) (f g) k c p"

fun remap_shape :: "('a \<Rightarrow> 'b) \<Rightarrow> 'a shape_kind \<Rightarrow> 'b shape_kind" where
  "remap_shape f (Reshape a s) = Reshape (f a) s"
| "remap_shape f (Permute a d) = Permute (f a) d"
| "remap_shape f (Slice a r) = Slice (f a) r"
| "remap_shape f (Concat a b d) = Concat (f a) (f b) d"
| "remap_shape f (BroadcastTo a s) = BroadcastTo (f a) s"
| "remap_shape f (Matmul a b) = Matmul (f a) (f b)"
| "remap_shape f (Inverse a) = Inverse (f a)"
| "remap_shape f (Det a) = Det (f a)"
| "remap_shape f (Solve a b) = Solve (f a) (f b)"

fun remap_children :: "('a \<Rightarrow> 'b) \<Rightarrow> 'a kind \<Rightarrow> 'b kind" where
  "remap_children f (Source s) = Source s"
| "remap_children f (Arith op a b) = Arith op (f a) (f b)"
| "remap_children f (Compare op a b) = Compare op (f a) (f b)"
| "remap_children f (Unary op a) = Unary op (f a)"
| "remap_children f (Where c a b) = Where (f c) (f a) (f b)"
| "remap_children f (Cast a d) = Cast (f a) d"
| "remap_children f (Reduce op a dims keep) = Reduce op (f a) dims keep"
| "remap_children f (Index k) = Index (remap_index f k)"
| "remap_children f (Attention k) = Attention (remap_attention f k)"
| "remap_children f (Layer k) = Layer (remap_layer f k)"
| "remap_children f (Conv k) = Conv (remap_conv f k)"
| "remap_children f (Shape k) = Shape (remap_shape f k)"

lemma remap_index_map [simp]: "remap_index f k = map_index_kind f k"
  by (cases k) simp_all

lemma remap_attention_map [simp]: "remap_attention f k = map_attention_kind f k"
  by (cases k) simp_all

lemma remap_layer_map [simp]: "remap_layer f k = map_layer_kind f k"
  by (cases k) simp_all

lemma remap_conv_map [simp]: "remap_conv f k = map_conv_kind f k"
  by (cases k) simp_all

lemma remap_shape_map [simp]: "remap_shape f k = map_shape_kind f k"
  by (cases k) simp_all

lemma remap_is_map: "remap_children f k = map_kind f k"
  by (cases k) simp_all

lemma set_index_children [simp]: "set (index_children k) = set_index_kind k"
  by (cases k) (auto simp: optional_def split: option.split)

lemma set_attention_children [simp]: "set (attention_children k) = set_attention_kind k"
  by (cases k) (auto simp: optional_def split: option.split)

lemma set_layer_children [simp]: "set (layer_children k) = set_layer_kind k"
  by (cases k) (auto simp: optional_def split: option.split)

lemma set_conv_children [simp]: "set (conv_children k) = set_conv_kind k"
  by (cases k) (auto simp: optional_def split: option.split)

lemma set_shape_children [simp]: "set (shape_children k) = set_shape_kind k"
  by (cases k) (auto simp: optional_def split: option.split)

text \<open>The enumeration of children is complete.\<close>

lemma set_node_children: "set (node_children k) = set_kind k"
  by (cases k) auto

lemma node_children_remap: "node_children (remap_children f k) = map f (node_children k)"
proof -
  have "index_children (map_index_kind f i) = map f (index_children i)" for i by (cases i) simp_all
  moreover have "attention_children (map_attention_kind f i) = map f (attention_children i)" for i
    by (cases i) simp_all
  moreover have "layer_children (map_layer_kind f i) = map f (layer_children i)" for i
    by (cases i) (simp_all add: optional_def split: option.split)
  moreover have "conv_children (map_conv_kind f i) = map f (conv_children i)" for i by (cases i) simp_all
  moreover have "shape_children (map_shape_kind f i) = map f (shape_children i)" for i by (cases i) simp_all
  ultimately show ?thesis by (cases k) simp_all
qed

lemma size_index_child: "x \<in> set_index_kind k \<Longrightarrow> f x \<le> size_index_kind f k"
  by (cases k) (auto split: option.splits)

lemma size_attention_child: "x \<in> set_attention_kind k \<Longrightarrow> f x \<le> size_attention_kind f k"
  by (cases k) (auto split: option.splits)

lemma size_layer_child: "x \<in> set_layer_kind k \<Longrightarrow> f x \<le> size_layer_kind f k"
  by (cases k) (auto split: option.splits)

lemma size_conv_child: "x \<in> set_conv_kind k \<Longrightarrow> f x \<le> size_conv_kind f k"
  by (cases k) (auto split: option.splits)

lemma size_shape_child: "x \<in> set_shape_kind k \<Longrightarrow> f x \<le> size_shape_kind f k"
  by (cases k) (auto split: option.splits)

lemma size_kind_child: "x \<in> set_kind k \<Longrightarrow> f x \<le> size_kind f k"
  by (cases k) (auto dest: size_index_child[of _ _ f] size_attention_child[of _ _ f]
    size_layer_child[of _ _ f] size_conv_child[of _ _ f] size_shape_child[of _ _ f])

lemma node_children_size: "x \<in> set (node_children (node_kind y)) \<Longrightarrow> size x < size y"
  by (cases y) (auto simp: set_node_children less_Suc_eq_le intro: size_kind_child)

end
