(* ===== verification/Shapes.thy ===== *)
theory Shapes
  imports Graph
begin

text \<open>
  Shape inference (\<open>NodeKind::metadata\<close> of \<open>crates/graph/src/lib.rs\<close>): for every kind of node its
  output shape, element type and device, and every refusal. Each match arm is a definition.

  \<open>at\<close>, \<open>prefix_of\<close> and \<open>suffix_of\<close> are the indexing and slicing of the code: they panic out of
  range. Arithmetic on \<open>usize\<close> wraps, as in a release build; a division by zero panics. An error is
  the text of its message up to the first value shown.
\<close>

section \<open>Outcomes of the checks\<close>

datatype graph_error = Refused string | BadStorage storage_error | ClearedLeaf

type_synonym 'a checked = "('a, graph_error) outcome"

text \<open>Output shape, element type and device.\<close>

type_synonym typed = "nat list \<times> dtype \<times> device"

definition at :: "nat list \<Rightarrow> nat \<Rightarrow> (nat \<Rightarrow> 'a checked) \<Rightarrow> 'a checked" where
  "at xs i f = and_then (expect (nth_opt xs i)) f"

definition prefix_of :: "nat list \<Rightarrow> nat \<Rightarrow> (nat list \<Rightarrow> 'a checked) \<Rightarrow> 'a checked" where
  "prefix_of xs n f = (if n \<le> length xs then f (take n xs) else Panic)"

definition suffix_of :: "nat list \<Rightarrow> nat \<Rightarrow> (nat list \<Rightarrow> 'a checked) \<Rightarrow> 'a checked" where
  "suffix_of xs n f = (if n \<le> length xs then f (drop n xs) else Panic)"

definition wrapping_sub :: "nat \<Rightarrow> nat \<Rightarrow> nat" where
  "wrapping_sub a b = (a + (usize_max + 1 - b mod (usize_max + 1))) mod (usize_max + 1)"

definition wrapping_product :: "nat list \<Rightarrow> nat" where
  "wrapping_product xs = fold (\<lambda>d n. wrapping_mul n d) xs 1"

definition divided :: "nat \<Rightarrow> nat \<Rightarrow> (nat \<Rightarrow> 'a checked) \<Rightarrow> 'a checked" where
  "divided a b f = (if b = 0 then Panic else f (a div b))"

definition typed_as :: "node \<Rightarrow> typed" where
  "typed_as x = (node_shape x, node_dtype x, node_device x)"

definition like :: "nat list \<Rightarrow> node \<Rightarrow> typed checked" where
  "like sh x = Ok (sh, node_dtype x, node_device x)"

definition is_index_type :: "dtype \<Rightarrow> bool" where
  "is_index_type d \<longleftrightarrow> d = I64 \<or> d = U32"

section \<open>Shared checks\<close>

definition padded_dim :: "nat list \<Rightarrow> nat \<Rightarrow> nat \<Rightarrow> nat checked" where
  "padded_dim a r i =
     (if i < r - length a then Ok 1 else at a (i - (r - length a)) Ok)"

definition broadcast_shapes :: "nat list \<Rightarrow> nat list \<Rightarrow> nat list checked" where
  "broadcast_shapes a b =
     (let r = max (length a) (length b) in
      traverse (\<lambda>i. and_then (padded_dim a r i) (\<lambda>da. and_then (padded_dim b r i) (\<lambda>db.
        if da \<noteq> db \<and> da \<noteq> 1 \<and> db \<noteq> 1 then Err (Refused ''shapes'') else Ok (max da db)))) [0..<r])"

definition scalar_aware_binary_dtype :: "node \<Rightarrow> node \<Rightarrow> dtype checked" where
  "scalar_aware_binary_dtype a b =
     (if node_dtype a = node_dtype b then Ok (node_dtype a)
      else if is_float (node_dtype a) \<and> is_float (node_dtype b) \<and>
              (node_shape a = []) \<noteq> (node_shape b = [])
      then Ok (if node_shape a = [] then node_dtype b else node_dtype a)
      else Err (Refused ''dtype mismatch''))"

definition require_same_dtype :: "string \<Rightarrow> node list \<Rightarrow> unit checked" where
  "require_same_dtype operation values = (case values of
     [] \<Rightarrow> Ok ()
   | first # _ \<Rightarrow>
       if list_ex (\<lambda>v. node_dtype v \<noteq> node_dtype first) values then Err (Refused operation)
       else Ok ())"

definition reduced_shape :: "nat list \<Rightarrow> nat list \<Rightarrow> bool \<Rightarrow> nat list" where
  "reduced_shape sh dims keepdims =
     (if keepdims
      then map (\<lambda>(i, d). if i \<in> set dims then 1 else d) (enumerate 0 sh)
      else map snd (filter (\<lambda>(i, d). i \<notin> set dims) (enumerate 0 sh)))"

definition linear_out_shape :: "nat list \<Rightarrow> nat list \<Rightarrow> nat list \<Rightarrow> nat list checked" where
  "linear_out_shape x weight bias =
     (let r = length x; refuse = Err (Refused ''linear: expected x'') in
      if r < 2 \<or> length weight \<noteq> 2 then refuse
      else at x (r - 1) (\<lambda>k. at weight 0 (\<lambda>w0. if k \<noteq> w0 then refuse
      else at weight 1 (\<lambda>w1. if bias \<noteq> [w1] then refuse else Ok (x[r - 1 := w1])))))"

definition conv_check :: "string \<Rightarrow> node \<Rightarrow> node \<Rightarrow> conv_params \<Rightarrow> unit checked" where
  "conv_check op x w p =
     (let groups = conv_groups p in
      if conv_stride p < 1 \<or> conv_dilation p < 1 \<or> groups < 1 then Err (Refused op)
      else at (node_shape x) 1 (\<lambda>c_in. at (node_shape w) 0 (\<lambda>c_out.
      if c_in mod groups \<noteq> 0 \<or> c_out mod groups \<noteq> 0 then Err (Refused op)
      else at (node_shape w) 1 (\<lambda>c_group. divided c_in groups (\<lambda>expected.
      if c_group \<noteq> expected then Err (Refused op)
      else if \<not> is_float (node_dtype x) \<or> node_dtype x \<noteq> node_dtype w then Err (Refused op)
      else if \<not> same_device (node_device x) (node_device w) then Err (Refused op)
      else Ok ())))))"

definition conv_out_dim :: "nat \<Rightarrow> nat \<Rightarrow> conv_params \<Rightarrow> nat checked" where
  "conv_out_dim input taps p =
     (let effective = wrapping_add (wrapping_mul (conv_dilation p) (wrapping_sub taps 1)) 1;
          padded = wrapping_add input (wrapping_mul 2 (conv_padding p)) in
      if padded < effective then Err (Refused ''conv: kernel of effective size'')
      else divided (padded - effective) (conv_stride p) (\<lambda>steps. Ok (wrapping_add steps 1)))"

definition sdpa_heads :: "string \<Rightarrow> nat list \<Rightarrow> nat list \<Rightarrow> nat list \<Rightarrow> unit checked" where
  "sdpa_heads op q k v =
     (let r = length q in
      if 3 \<le> r then
        at q (r - 3) (\<lambda>q_heads. at k (r - 3) (\<lambda>kv_heads. at v (r - 3) (\<lambda>v_heads.
        if v_heads \<noteq> kv_heads then Err (Refused op)
        else if kv_heads = 0 \<or> q_heads mod kv_heads \<noteq> 0 then Err (Refused op)
        else Ok ())))
      else Ok ())"

definition sdpa_check :: "string \<Rightarrow> node \<Rightarrow> node \<Rightarrow> node \<Rightarrow> nat list checked" where
  "sdpa_check op qn kn vn =
     (let q = node_shape qn; k = node_shape kn; v = node_shape vn; r = length q;
          leading = (if r < 3 then r - 2 else r - 3); refuse = Err (Refused op) in
      if r < 2 \<or> length k \<noteq> r \<or> length v \<noteq> r then refuse
      else prefix_of q leading (\<lambda>lq. prefix_of k leading (\<lambda>lk. prefix_of v leading (\<lambda>lv.
      if lq \<noteq> lk \<or> lq \<noteq> lv then refuse
      else and_then (sdpa_heads op q k v) (\<lambda>_.
      at q (r - 1) (\<lambda>q_dim. at k (r - 1) (\<lambda>k_dim. if q_dim \<noteq> k_dim then refuse
      else at k (r - 2) (\<lambda>k_len. at v (r - 2) (\<lambda>v_len. if k_len \<noteq> v_len then refuse
      else if \<not> is_float (node_dtype qn) then refuse
      else if node_dtype kn \<noteq> node_dtype qn \<or> node_dtype vn \<noteq> node_dtype qn then refuse
      else if \<not> same_device (node_device kn) (node_device qn) \<or>
              \<not> same_device (node_device vn) (node_device qn) then refuse
      else prefix_of q (r - 1) (\<lambda>front. at v (r - 1) (\<lambda>v_dim. Ok (front @ [v_dim]))))))))))))"

definition kda_operand :: "string \<Rightarrow> node \<Rightarrow> node \<Rightarrow> unit checked" where
  "kda_operand op q t =
     (if node_dtype t \<noteq> node_dtype q then Err (Refused op)
      else if \<not> same_device (node_device t) (node_device q) then Err (Refused op)
      else Ok ())"

definition kda_check :: "string \<Rightarrow> node \<Rightarrow> node \<Rightarrow> node \<Rightarrow> node \<Rightarrow> node \<Rightarrow> nat list checked" where
  "kda_check op qn kn vn dn bn =
     (let q = node_shape qn; k = node_shape kn; v = node_shape vn; d = node_shape dn;
          b = node_shape bn; r = length q; refuse = Err (Refused op) in
      if r < 2 \<or> length k \<noteq> r \<or> length v \<noteq> r \<or> length d \<noteq> r \<or> length b \<noteq> r then refuse
      else if k \<noteq> q \<or> d \<noteq> q then refuse
      else prefix_of v (r - 1) (\<lambda>fv. prefix_of q (r - 1) (\<lambda>fq.
      if fv \<noteq> fq then refuse
      else at q (r - 1) (\<lambda>_. if b \<noteq> q[r - 1 := 1] then refuse
      else if \<not> is_float (node_dtype qn) then refuse
      else and_then (each_outcome (kda_operand op qn) [kn, vn, dn, bn]) (\<lambda>_.
      at v (r - 1) (\<lambda>v_dim. Ok (q[r - 1 := v_dim])))))))"

definition head_ce_bias :: "nat list \<Rightarrow> nat \<Rightarrow> bool" where
  "head_ce_bias bias v \<longleftrightarrow> length bias > 2 \<or> (length bias \<ge> 1 \<and> last bias \<noteq> v) \<or>
     wrapping_product bias \<noteq> v"

definition head_ce_check :: "string \<Rightarrow> node \<Rightarrow> node \<Rightarrow> node \<Rightarrow> node \<Rightarrow> nat checked" where
  "head_ce_check op xn wn bn tn =
     (let x = node_shape xn; r = length x; refuse = Err (Refused op) in
      if r < 2 \<or> length (node_shape wn) \<noteq> 2 then refuse
      else at (node_shape wn) 0 (\<lambda>k. at (node_shape wn) 1 (\<lambda>v. at x (r - 1) (\<lambda>x_dim.
      if x_dim \<noteq> k then refuse
      else if head_ce_bias (node_shape bn) v then refuse
      else prefix_of x (r - 1) (\<lambda>front.
      if node_shape tn \<noteq> front then refuse
      else if \<not> is_index_type (node_dtype tn) then refuse
      else if \<not> is_float (node_dtype xn) then refuse
      else if node_dtype wn \<noteq> node_dtype xn \<or> node_dtype bn \<noteq> node_dtype xn then refuse
      else if list_ex (\<lambda>n. \<not> same_device (node_device n) (node_device xn)) [wn, bn, tn] then refuse
      else Ok v)))))"

definition short_conv_check :: "string \<Rightarrow> node \<Rightarrow> node \<Rightarrow> unit checked" where
  "short_conv_check op xn wn =
     (let x = node_shape xn; w = node_shape wn; refuse = Err (Refused op) in
      if length x < 2 \<or> length w \<noteq> 2 then refuse
      else at x (length x - 1) (\<lambda>c. at w 0 (\<lambda>w0. if w0 \<noteq> c then refuse
      else at w 1 (\<lambda>w1. if w1 = 0 then refuse
      else if \<not> is_float (node_dtype xn) \<or> node_dtype xn \<noteq> node_dtype wn then refuse
      else if \<not> same_device (node_device xn) (node_device wn) then refuse
      else Ok ()))))"

definition check_dtype_device :: "dtype \<Rightarrow> device \<Rightarrow> unit checked" where
  "check_dtype_device d device =
     (if d = F64 \<and> is_metal device then Err (Refused ''dtype f64 is not supported'') else Ok ())"


section \<open>Operations on indices\<close>

definition dim_removed :: "string \<Rightarrow> node \<Rightarrow> nat \<Rightarrow> typed checked" where
  "dim_removed op a dim =
     (if node_shape a = [] \<or> dim \<ge> length (node_shape a) then Err (Refused op)
      else Ok (take dim (node_shape a) @ drop (Suc dim) (node_shape a), I64, node_device a))"

definition top_k_meta :: "node \<Rightarrow> nat \<Rightarrow> typed checked" where
  "top_k_meta a k =
     (if node_shape a = [] then Err (Refused ''topKIndices: input must have rank >= 1'')
      else let width = last (node_shape a) in
        if k = 0 \<or> k > width \<or> width > u32_max then Err (Refused ''topKIndices: require'')
        else if node_dtype a \<noteq> F32 then Err (Refused ''topKIndices: expected f32'')
        else Ok (butlast (node_shape a) @ [k], U32, node_device a))"

definition cumsum_meta :: "node \<Rightarrow> nat \<Rightarrow> typed checked" where
  "cumsum_meta a dim =
     (if node_shape a = [] \<or> dim \<ge> length (node_shape a) then Err (Refused ''cumsum: dim'')
      else Ok (typed_as a))"

definition index_select_meta :: "node \<Rightarrow> nat \<Rightarrow> node \<Rightarrow> typed checked" where
  "index_select_meta a dim indexes =
     (if node_shape a = [] \<or> dim \<ge> length (node_shape a) then Err (Refused ''index_select: dim'')
      else if \<not> is_index_type (node_dtype indexes) then Err (Refused ''index_select: indexes must be i64 or u32'')
      else if length (node_shape indexes) \<noteq> 1 then Err (Refused ''index_select: indexes must be 1-D'')
      else at (node_shape indexes) 0 (\<lambda>n. like ((node_shape a)[dim := n]) a))"

definition scatter_add_meta :: "node \<Rightarrow> nat \<Rightarrow> node \<Rightarrow> node \<Rightarrow> typed checked" where
  "scatter_add_meta a dim indexes src =
     (if node_shape a = [] \<or> dim \<ge> length (node_shape a) then Err (Refused ''scatter_add: dim'')
      else if \<not> is_index_type (node_dtype indexes) then Err (Refused ''scatter_add: indexes must be i64 or u32'')
      else if node_shape indexes \<noteq> node_shape src then Err (Refused ''scatter_add: indexes shape'')
      else if node_dtype src \<noteq> node_dtype a then Err (Refused ''scatter_add: src dtype'')
      else Ok (typed_as a))"

definition gather_meta :: "node \<Rightarrow> nat \<Rightarrow> node \<Rightarrow> typed checked" where
  "gather_meta a dim indexes =
     (let sa = node_shape a; si = node_shape indexes in
      if sa = [] \<or> dim \<ge> length sa then Err (Refused ''gather: dim'')
      else if \<not> is_index_type (node_dtype indexes) then Err (Refused ''gather: indexes must be i64 or u32'')
      else if length si \<noteq> length sa then Err (Refused ''gather: indexes rank'')
      else and_then (each_outcome (\<lambda>i. if i = dim then Ok ()
             else at si i (\<lambda>x. at sa i (\<lambda>y. if x > y then Err (Refused ''gather: indexes shape'') else Ok ())))
             [0..<length sa])
        (\<lambda>_. like si a))"

definition cross_entropy_meta :: "node \<Rightarrow> node \<Rightarrow> typed checked" where
  "cross_entropy_meta logits target =
     (let sh = node_shape logits; r = length sh in
      if r < 1 then Err (Refused ''cross_entropy: logits must have rank >= 1'')
      else at sh (r - 1) (\<lambda>classes.
      if classes = 0 then Err (Refused ''cross_entropy: class dimension must be non-empty'')
      else if \<not> is_float (node_dtype logits) then Err (Refused ''cross_entropy: logits must be floating point'')
      else if \<not> is_index_type (node_dtype target) then Err (Refused ''cross_entropy: targets must be i64 or u32'')
      else prefix_of sh (r - 1) (\<lambda>front.
      if node_shape target \<noteq> front then Err (Refused ''cross_entropy: targets shape'')
      else if \<not> same_device (node_device target) (node_device logits)
      then Err (Refused ''cross_entropy: logits and targets must be on the same device'')
      else like [] logits)))"

definition position_embedding_meta :: "node \<Rightarrow> nat \<Rightarrow> typed checked" where
  "position_embedding_meta weight seq_len =
     (if length (node_shape weight) \<noteq> 2 then Err (Refused ''position_embedding: weight must be'')
      else at (node_shape weight) 0 (\<lambda>positions.
      if seq_len = 0 \<or> seq_len > positions then Err (Refused ''position_embedding: seq_len'')
      else if \<not> is_float (node_dtype weight) then Err (Refused ''position_embedding: weight must be a float dtype'')
      else at (node_shape weight) 1 (\<lambda>e. like [seq_len, e] weight)))"

definition last_token_row_meta :: "node \<Rightarrow> typed checked" where
  "last_token_row_meta a =
     (if length (node_shape a) \<noteq> 3 then Err (Refused ''last_token_row: expected input'')
      else at (node_shape a) 0 (\<lambda>batch. if batch \<noteq> 1 then Err (Refused ''last_token_row: expected input'')
      else at (node_shape a) 2 (\<lambda>v. like [v] a)))"

fun index_meta :: "node index_kind \<Rightarrow> typed checked" where
  "index_meta (Argmax a dim) = dim_removed ''argmax/argmin: dim'' a dim"
| "index_meta (Argmin a dim) = dim_removed ''argmax/argmin: dim'' a dim"
| "index_meta (TopKIndices a k) = top_k_meta a k"
| "index_meta (Cumsum a dim) = cumsum_meta a dim"
| "index_meta (IndexSelect a dim indexes) = index_select_meta a dim indexes"
| "index_meta (ScatterAdd a dim indexes src) = scatter_add_meta a dim indexes src"
| "index_meta (Gather a dim indexes) = gather_meta a dim indexes"
| "index_meta (CrossEntropy logits target _ _) = cross_entropy_meta logits target"
| "index_meta (CrossEntropyBackward logits _ _ _) = Ok (typed_as logits)"
| "index_meta (PositionEmbedding weight seq_len) = position_embedding_meta weight seq_len"
| "index_meta (LastTokenRow a) = last_token_row_meta a"

section \<open>Attention\<close>

definition window_check :: "string \<Rightarrow> bool \<Rightarrow> attention_window \<Rightarrow> unit checked" where
  "window_check op causal window =
     (if window = Local 0 then Err (Refused (op @ '': window must be positive''))
      else if \<not> causal \<and> window \<noteq> Inherit
      then Err (Refused (op @ '': explicit window requires causal attention''))
      else Ok ())"

definition sdpa_meta :: "node \<Rightarrow> node \<Rightarrow> node \<Rightarrow> bool \<Rightarrow> attention_window \<Rightarrow> attention_rounding option \<Rightarrow> typed checked" where
  "sdpa_meta q k v causal window rounding =
     and_then (window_check ''sdpa'' causal window) (\<lambda>_.
     and_then (sdpa_check ''sdpa'' q k v) (\<lambda>out.
     if rounding = Some Stepwise \<and> node_dtype q \<notin> {F32, F16, BF16}
     then Err (Refused ''stepwise attention requires F32, F16, or BF16'')
     else like out q))"

fun is_sdpa :: "node kind \<Rightarrow> bool" where
  "is_sdpa (Attention (Sdpa _ _ _ _ _ _)) = True"
| "is_sdpa _ = False"

definition sdpa_backward_meta ::
    "node \<Rightarrow> node \<Rightarrow> node \<Rightarrow> node \<Rightarrow> node \<Rightarrow> bool \<Rightarrow> attention_window \<Rightarrow> typed checked" where
  "sdpa_backward_meta q k v g fwd causal window =
     and_then (window_check ''sdpa backward'' causal window) (\<lambda>_.
     and_then (sdpa_check ''sdpa'' q k v) (\<lambda>out.
     let r = length (node_shape q);
         rest =
           (if \<not> is_sdpa (node_kind fwd) then Err (Refused ''sdpa backward: fwd must be an sdpa node'')
            else if node_shape g \<noteq> out then Err (Refused ''sdpa backward: grad shape'')
            else if node_dtype g \<noteq> node_dtype q \<or> \<not> same_device (node_device g) (node_device q)
            then Err (Refused ''sdpa backward: grad must share dtype and device with q'')
            else Ok (typed_as q)) in
     if 3 \<le> r then at (node_shape q) (r - 3) (\<lambda>qh. at (node_shape k) (r - 3) (\<lambda>kh.
       if qh \<noteq> kh then Err (Refused ''sdpa backward: grouped-query attention is not differentiable'')
       else rest))
     else rest))"

definition pick :: "string \<Rightarrow> node list \<Rightarrow> nat \<Rightarrow> typed checked" where
  "pick op sources index = (case nth_opt sources index of
     None \<Rightarrow> Err (Refused op) | Some source \<Rightarrow> Ok (typed_as source))"

definition sdpa_backward_out_meta :: "node \<Rightarrow> nat \<Rightarrow> typed checked" where
  "sdpa_backward_out_meta src index = (case node_kind src of
     Attention (SdpaBackward q k v _ _ _ _ _) \<Rightarrow> pick ''sdpa backward out: index must be'' [q, k, v] index
   | _ \<Rightarrow> Err (Refused ''sdpa backward out: source must be an sdpa backward node''))"

definition kv_attention_meta :: "node \<Rightarrow> node \<Rightarrow> node \<Rightarrow> typed checked" where
  "kv_attention_meta q k v =
     and_then (sdpa_check ''kv_attention'' q k v) (\<lambda>out.
     let r = length (node_shape q) in
     at (node_shape q) (r - 2) (\<lambda>t. at (node_shape k) (r - 2) (\<lambda>s.
     if t \<noteq> s then Err (Refused ''kv_attention: q, k and v must share the new-token length'')
     else if r < 3 then Err (Refused ''kv_attention: expected shape'')
     else like out q)))"

definition kda_backward_meta ::
    "node \<Rightarrow> node \<Rightarrow> node \<Rightarrow> node \<Rightarrow> node \<Rightarrow> node \<Rightarrow> typed checked" where
  "kda_backward_meta q k v log_decay beta g =
     and_then (kda_check ''kda_backward'' q k v log_decay beta) (\<lambda>out.
     if node_shape g \<noteq> out then Err (Refused ''kda backward: grad shape'')
     else if node_dtype g \<noteq> node_dtype q \<or> \<not> same_device (node_device g) (node_device q)
     then Err (Refused ''kda backward: grad must share dtype and device with q'')
     else Ok (typed_as q))"

definition kda_backward_out_meta :: "node \<Rightarrow> nat \<Rightarrow> typed checked" where
  "kda_backward_out_meta src index = (case node_kind src of
     Attention (KdaBackward q k v log_decay beta _ _) \<Rightarrow>
       pick ''kda backward out: index must be'' [q, k, v, log_decay, beta] index
   | _ \<Rightarrow> Err (Refused ''kda backward out: source must be a kda backward node''))"

definition short_conv_backward_meta :: "node \<Rightarrow> node \<Rightarrow> node \<Rightarrow> node \<Rightarrow> typed checked" where
  "short_conv_backward_meta x weight g source =
     and_then (short_conv_check ''short_conv1d_backward'' x weight) (\<lambda>_.
     if node_shape g \<noteq> node_shape x then Err (Refused ''short_conv1d backward: grad shape'')
     else Ok (typed_as source))"

definition rotary_meta :: "node \<Rightarrow> nat \<Rightarrow> typed checked" where
  "rotary_meta x seq_len =
     (let sh = node_shape x; r = length sh in
      if r < 2 then Err (Refused ''rotary_embedding: expected'')
      else at sh (r - 2) (\<lambda>t. at sh (r - 1) (\<lambda>d.
      if seq_len \<noteq> t then Err (Refused ''rotary_embedding: seq_len'')
      else if d mod 2 \<noteq> 0 then Err (Refused ''rotary_embedding: head dim must be even'')
      else if \<not> is_float (node_dtype x) then Err (Refused ''rotary_embedding: dtype must be floating point'')
      else Ok (typed_as x))))"

definition rotary_positions_bad :: "nat list \<Rightarrow> nat \<Rightarrow> node \<Rightarrow> bool" where
  "rotary_positions_bad batch t positions \<longleftrightarrow>
     \<not> is_index_type (node_dtype positions) \<or>
     length (node_shape positions) \<noteq> length batch + 1 \<or>
     node_shape positions = [] \<or> last (node_shape positions) \<noteq> t \<or>
     list_ex (\<lambda>(size, actual). actual \<noteq> 1 \<and> actual \<noteq> size) (zip batch (node_shape positions))"

definition rotary_explicit_meta :: "node \<Rightarrow> node \<Rightarrow> node \<Rightarrow> typed checked" where
  "rotary_explicit_meta x positions inverse_frequencies =
     (let sh = node_shape x; r = length sh;
          shape_error = Err (Refused ''rotary_embedding: expected [..., T, D] with positive even D'') in
      if r < 2 then shape_error
      else at sh (r - 1) (\<lambda>d. if d = 0 \<or> d mod 2 \<noteq> 0 then shape_error
      else if node_dtype x \<notin> {F32, F16, BF16}
      then Err (Refused ''rotary_embedding: explicit rotation requires F32, F16, or BF16'')
      else prefix_of sh (r - 3) (\<lambda>batch. at sh (r - 2) (\<lambda>t.
      if rotary_positions_bad batch t positions then Err (Refused ''rotary_embedding: positions must be'')
      else if node_dtype inverse_frequencies \<notin> {F32, F16, BF16} \<or>
              node_shape inverse_frequencies \<noteq> [d div 2]
      then Err (Refused ''rotary_embedding: inverse frequencies must be floating-point [D/2]'')
      else Ok (typed_as x)))))"

definition rotary_backward_meta :: "node \<Rightarrow> nat list \<Rightarrow> nat \<Rightarrow> typed checked" where
  "rotary_backward_meta g sh seq_len =
     (let r = length sh; refuse = Err (Refused ''rotary_embedding_backward: expected grad of shape'') in
      if r < 2 then refuse
      else at sh (r - 2) (\<lambda>t. if t \<noteq> seq_len \<or> node_shape g \<noteq> sh then refuse else like sh g))"

fun attention_meta :: "node attention_kind \<Rightarrow> typed checked" where
  "attention_meta (Sdpa q k v _ causal window) = sdpa_meta q k v causal window None"
| "attention_meta (SdpaConfigured q k v _ causal window rounding _ _) =
     sdpa_meta q k v causal window (Some rounding)"
| "attention_meta (SdpaBackward q k v g fwd _ causal window) =
     sdpa_backward_meta q k v g fwd causal window"
| "attention_meta (SdpaBackwardOut src index) = sdpa_backward_out_meta src index"
| "attention_meta (KvAttention q k v _ _ _ _ _) = kv_attention_meta q k v"
| "attention_meta (KdaChunk q k v log_decay beta _) =
     and_then (kda_check ''kda_chunk'' q k v log_decay beta) (\<lambda>out. like out q)"
| "attention_meta (KdaRecurrence q k v log_decay beta _ _) =
     and_then (kda_check ''kda_recurrence'' q k v log_decay beta) (\<lambda>out. like out q)"
| "attention_meta (KdaBackward q k v log_decay beta g _) = kda_backward_meta q k v log_decay beta g"
| "attention_meta (KdaBackwardOut src index) = kda_backward_out_meta src index"
| "attention_meta (ShortConv1d x weight) =
     and_then (short_conv_check ''short_conv1d'' x weight) (\<lambda>_. Ok (typed_as x))"
| "attention_meta (ConvState x weight _) =
     and_then (short_conv_check ''conv_state'' x weight) (\<lambda>_. Ok (typed_as x))"
| "attention_meta (ShortConv1dBackwardX x weight g) = short_conv_backward_meta x weight g x"
| "attention_meta (ShortConv1dBackwardW x weight g) = short_conv_backward_meta x weight g weight"
| "attention_meta (RotaryEmbedding x seq_len _ _ _) = rotary_meta x seq_len"
| "attention_meta (RotaryEmbeddingExplicit x positions inverse_frequencies _) =
     rotary_explicit_meta x positions inverse_frequencies"
| "attention_meta (RotaryEmbeddingBackward g sh seq_len _ _) = rotary_backward_meta g sh seq_len"


section \<open>Layers and optimizers\<close>

definition head_ce_backward_meta :: "node \<Rightarrow> node \<Rightarrow> node \<Rightarrow> node \<Rightarrow> node \<Rightarrow> typed checked" where
  "head_ce_backward_meta x weight bias target g =
     and_then (head_ce_check ''chunked_head_ce_backward'' x weight bias target) (\<lambda>_.
     if node_shape g \<noteq> [] \<and> wrapping_product (node_shape g) \<noteq> 1
     then Err (Refused ''chunked head ce backward: grad must be a scalar'')
     else Ok (typed_as x))"

definition head_ce_backward_out_meta :: "node \<Rightarrow> nat \<Rightarrow> typed checked" where
  "head_ce_backward_out_meta src index = (case node_kind src of
     Layer (ChunkedHeadCeBackward x weight bias _ _ _) \<Rightarrow>
       pick ''chunked head ce backward out: index must be'' [x, weight, bias] index
   | _ \<Rightarrow> Err (Refused ''chunked head ce backward out: source must be''))"

text \<open>The test \<open>rank < k || x.shape[rank - k..] != weight.shape[..]\<close>.\<close>

definition trailing_differs :: "nat list \<Rightarrow> nat list \<Rightarrow> (bool \<Rightarrow> 'a checked) \<Rightarrow> 'a checked" where
  "trailing_differs x w f =
     (if length x < length w then f True
      else suffix_of x (length x - length w) (\<lambda>tail. f (tail \<noteq> w)))"

definition layer_norm_meta :: "node \<Rightarrow> node \<Rightarrow> node \<Rightarrow> typed checked" where
  "layer_norm_meta x weight bias =
     and_then (require_same_dtype ''layer_norm'' [x, weight, bias]) (\<lambda>_.
     trailing_differs (node_shape x) (node_shape weight) (\<lambda>differs.
     if differs \<or> node_shape bias \<noteq> node_shape weight
     then Err (Refused ''layer_norm: weight and bias must match'')
     else Ok (typed_as x)))"

definition rms_norm_meta :: "node \<Rightarrow> node option \<Rightarrow> typed checked" where
  "rms_norm_meta x weight =
     (if node_shape x = [] then Err (Refused ''rms_norm: input must have rank at least 1'')
      else (case weight of
          None \<Rightarrow> Ok (typed_as x)
        | Some w \<Rightarrow>
            if node_shape w \<noteq> [last (node_shape x)] \<or> node_dtype w \<noteq> node_dtype x \<or>
               \<not> same_device (node_device w) (node_device x)
            then Err (Refused ''rms_norm: weight must be'') else Ok (typed_as x)))"

definition layer_norm_backward_meta :: "node \<Rightarrow> node \<Rightarrow> node \<Rightarrow> typed checked" where
  "layer_norm_backward_meta x weight g =
     and_then (require_same_dtype ''layer_norm_backward'' [x, weight, g]) (\<lambda>_.
     trailing_differs (node_shape x) (node_shape weight) (\<lambda>differs.
     if differs \<or> node_shape g \<noteq> node_shape x
     then Err (Refused ''layer_norm_backward: expected grad of shape'')
     else Ok (typed_as x)))"

definition layer_norm_backward_out_meta :: "node \<Rightarrow> nat \<Rightarrow> typed checked" where
  "layer_norm_backward_out_meta src index = (case node_kind src of
     Layer (LayerNormBackward _ weight _ _) \<Rightarrow>
       if index = 0 \<or> index > 2 then Err (Refused ''layer_norm_backward_out: index must be'')
       else Ok (typed_as weight)
   | _ \<Rightarrow> Err (Refused ''layer_norm_backward_out: parent is not a backward node''))"

definition linear_meta :: "node \<Rightarrow> node \<Rightarrow> node \<Rightarrow> typed checked" where
  "linear_meta x weight bias =
     and_then (require_same_dtype ''linear'' [x, weight, bias]) (\<lambda>_.
     and_then (linear_out_shape (node_shape x) (node_shape weight) (node_shape bias)) (\<lambda>out. like out x))"

definition expert_rows_meta :: "string \<Rightarrow> node \<Rightarrow> node \<Rightarrow> node \<Rightarrow> typed checked" where
  "expert_rows_meta op x weight indexes =
     (let sx = node_shape x; sw = node_shape weight; si = node_shape indexes;
          refuse = Err (Refused op) in
      and_then (require_same_dtype op [x, weight]) (\<lambda>_.
      if node_dtype x \<notin> {F32, BF16} \<or> node_dtype indexes \<noteq> U32 then refuse
      else if length sx \<noteq> 2 \<or> length sw \<noteq> 3 \<or> length si \<noteq> 1 then refuse
      else at sx 1 (\<lambda>x1. at sw 2 (\<lambda>w2. if x1 \<noteq> w2 then refuse
      else at sx 0 (\<lambda>x0. at si 0 (\<lambda>i0. if x0 \<noteq> i0 then refuse
      else at sw 0 (\<lambda>w0. if w0 = 0 \<or> w0 > u32_max then refuse
      else at sw 1 (\<lambda>w1. like [x0, w1] x))))))))"

definition packed_operand :: "node \<Rightarrow> (nat \<times> nat) checked" where
  "packed_operand weight =
     and_then (map_err BadStorage (packed_matrix (node_value_spec weight))) (\<lambda>(_, dims). Ok dims)"

definition quantized_linear_meta :: "node \<Rightarrow> node \<Rightarrow> node option \<Rightarrow> typed checked" where
  "quantized_linear_meta x weight bias =
     and_then (packed_operand weight) (\<lambda>(rows, columns).
     if length (node_shape x) < 2 \<or> last (node_shape x) \<noteq> columns
     then Err (Refused ''quantized_linear: expected input'')
     else if node_dtype x \<noteq> F32 then Err (Refused ''quantized_linear: input must be f32'')
     else if \<not> same_device (node_device x) (node_device weight)
     then Err (Refused ''quantized_linear: input and weight must be on the same device'')
     else (case bias of
         Some b \<Rightarrow>
           if node_shape b \<noteq> [rows] \<or> node_dtype b \<noteq> F32 \<or> \<not> same_device (node_device b) (node_device x)
           then Err (Refused ''quantized_linear: bias must be'')
           else Ok (butlast (node_shape x) @ [rows], F32, node_device x)
       | None \<Rightarrow> Ok (butlast (node_shape x) @ [rows], F32, node_device x)))"

definition quantized_embedding_meta :: "node \<Rightarrow> node \<Rightarrow> nat option \<Rightarrow> typed checked" where
  "quantized_embedding_meta indexes weight padding_index =
     and_then (packed_operand weight) (\<lambda>(rows, columns).
     if \<not> is_index_type (node_dtype indexes)
     then Err (Refused ''quantized_embedding: indexes must be i64 or u32'')
     else if \<not> same_device (node_device indexes) (node_device weight)
     then Err (Refused ''quantized_embedding: indexes and weight must be on the same device'')
     else if (case padding_index of None \<Rightarrow> False | Some i \<Rightarrow> i \<ge> rows)
     then Err (Refused ''quantized_embedding: padding index is outside'')
     else Ok (node_shape indexes @ [columns], F32, node_device indexes))"

definition optimizer_check :: "string \<Rightarrow> node \<Rightarrow> node list \<Rightarrow> node list \<Rightarrow> typed checked" where
  "optimizer_check op param tensors scalars =
     (if \<not> is_float (node_dtype param) then Err (Refused op)
      else if list_ex (\<lambda>t. node_shape t \<noteq> node_shape param \<or> node_dtype t \<noteq> node_dtype param) tensors
      then Err (Refused op)
      else if list_ex (\<lambda>t. node_shape t \<noteq> []) scalars then Err (Refused op)
      else Ok (typed_as param))"

definition output_index :: "string \<Rightarrow> nat \<Rightarrow> node \<Rightarrow> nat \<Rightarrow> typed checked" where
  "output_index op most step index =
     (if index > most then Err (Refused op) else Ok (typed_as step))"

fun layer_meta :: "node layer_kind \<Rightarrow> typed checked" where
  "layer_meta (ChunkedHeadCe x weight bias target _) =
     and_then (head_ce_check ''chunked_head_ce'' x weight bias target) (\<lambda>_. like [] x)"
| "layer_meta (ChunkedHeadCeBackward x weight bias target g _) =
     head_ce_backward_meta x weight bias target g"
| "layer_meta (ChunkedHeadCeBackwardOut src index) = head_ce_backward_out_meta src index"
| "layer_meta (LayerNorm x weight bias _) = layer_norm_meta x weight bias"
| "layer_meta (RmsNorm x weight _) = rms_norm_meta x weight"
| "layer_meta (LayerNormBackward x weight g _) = layer_norm_backward_meta x weight g"
| "layer_meta (LayerNormBackwardOut src index) = layer_norm_backward_out_meta src index"
| "layer_meta (Linear x weight bias) = linear_meta x weight bias"
| "layer_meta (ExpertLinearRows x weight indexes) = expert_rows_meta ''expertLinearRows'' x weight indexes"
| "layer_meta (GroupedExpertLinearRows x weight indexes) =
     expert_rows_meta ''groupedExpertLinearRows'' x weight indexes"
| "layer_meta (QuantizedLinear x weight bias) = quantized_linear_meta x weight bias"
| "layer_meta (QuantizedEmbedding indexes weight padding) = quantized_embedding_meta indexes weight padding"
| "layer_meta (AdamWStep param grad m v lr c1 c2 _ _ _ _) =
     optimizer_check ''adamw_step'' param [grad, m, v] [lr, c1, c2]"
| "layer_meta (AdamWOut step index) = output_index ''adamw_out'' 2 step index"
| "layer_meta (SgdStep param grad velocity first lr _ _ _ _) =
     optimizer_check ''sgd_step'' param [grad, velocity] [first, lr]"
| "layer_meta (SgdOut step index) = output_index ''sgd_out'' 1 step index"

section \<open>Convolutions\<close>

definition transposed_dim :: "nat \<Rightarrow> nat \<Rightarrow> nat \<Rightarrow> conv_params \<Rightarrow> nat" where
  "transposed_dim input taps output_padding p =
     wrapping_sub
       (wrapping_add (wrapping_add (wrapping_add (wrapping_mul (wrapping_sub input 1) (conv_stride p))
          (wrapping_mul (conv_dilation p) (wrapping_sub taps 1))) output_padding) 1)
       (wrapping_mul 2 (conv_padding p))"

definition conv1d_meta :: "node \<Rightarrow> node \<Rightarrow> conv_params \<Rightarrow> typed checked" where
  "conv1d_meta x w p =
     (if length (node_shape x) \<noteq> 3 \<or> length (node_shape w) \<noteq> 3
      then Err (Refused ''conv1d: expected rank-3 input and weight'')
      else and_then (conv_check ''conv1d'' x w p) (\<lambda>_.
        at (node_shape x) 2 (\<lambda>x2. at (node_shape w) 2 (\<lambda>w2.
        and_then (conv_out_dim x2 w2 p) (\<lambda>out.
        at (node_shape x) 0 (\<lambda>x0. at (node_shape w) 0 (\<lambda>w0. like [x0, w0, out] x)))))))"

definition conv2d_meta :: "node \<Rightarrow> node \<Rightarrow> conv_params \<Rightarrow> typed checked" where
  "conv2d_meta x w p =
     (if length (node_shape x) \<noteq> 4 \<or> length (node_shape w) \<noteq> 4
      then Err (Refused ''conv2d: expected rank-4 input and weight'')
      else and_then (conv_check ''conv2d'' x w p) (\<lambda>_.
        at (node_shape x) 2 (\<lambda>x2. at (node_shape w) 2 (\<lambda>w2.
        and_then (conv_out_dim x2 w2 p) (\<lambda>oh.
        at (node_shape x) 3 (\<lambda>x3. at (node_shape w) 3 (\<lambda>w3.
        and_then (conv_out_dim x3 w3 p) (\<lambda>ow.
        at (node_shape x) 0 (\<lambda>x0. at (node_shape w) 0 (\<lambda>w0. like [x0, w0, oh, ow] x))))))))))"

definition conv_transpose1d_meta :: "node \<Rightarrow> node \<Rightarrow> nat \<Rightarrow> conv_params \<Rightarrow> typed checked" where
  "conv_transpose1d_meta x w output_padding p =
     (if length (node_shape x) \<noteq> 3 \<or> length (node_shape w) \<noteq> 3
      then Err (Refused ''conv_transpose1d: expected rank-3 input and weight'')
      else at (node_shape x) 2 (\<lambda>x2. at (node_shape w) 2 (\<lambda>w2.
        at (node_shape x) 0 (\<lambda>x0. at (node_shape w) 1 (\<lambda>w1.
        like [x0, wrapping_mul w1 (conv_groups p), transposed_dim x2 w2 output_padding p] x)))))"

definition conv_transpose2d_meta :: "node \<Rightarrow> node \<Rightarrow> nat \<Rightarrow> conv_params \<Rightarrow> typed checked" where
  "conv_transpose2d_meta x w output_padding p =
     (if length (node_shape x) \<noteq> 4 \<or> length (node_shape w) \<noteq> 4
      then Err (Refused ''conv_transpose2d: expected rank-4 input and weight'')
      else at (node_shape x) 2 (\<lambda>x2. at (node_shape w) 2 (\<lambda>w2.
        at (node_shape x) 3 (\<lambda>x3. at (node_shape w) 3 (\<lambda>w3.
        at (node_shape x) 0 (\<lambda>x0. at (node_shape w) 1 (\<lambda>w1.
        like [x0, wrapping_mul w1 (conv_groups p), transposed_dim x2 w2 output_padding p,
              transposed_dim x3 w3 output_padding p] x)))))))"

definition conv_backward_w_meta :: "node \<Rightarrow> nat list \<Rightarrow> nat \<Rightarrow> conv_params \<Rightarrow> typed checked" where
  "conv_backward_w_meta x taps out_channels p =
     at (node_shape x) 1 (\<lambda>c. divided c (conv_groups p) (\<lambda>per_group.
     like ([out_channels, per_group] @ taps) x))"

fun conv_meta :: "node conv_kind \<Rightarrow> typed checked" where
  "conv_meta (Conv1d x w p) = conv1d_meta x w p"
| "conv_meta (Conv2d x w p) = conv2d_meta x w p"
| "conv_meta (ConvTranspose1d x w output_padding p) = conv_transpose1d_meta x w output_padding p"
| "conv_meta (ConvTranspose2d x w output_padding p) = conv_transpose2d_meta x w output_padding p"
| "conv_meta (Conv1dBackwardW x _ taps out_channels p) = conv_backward_w_meta x [taps] out_channels p"
| "conv_meta (Conv2dBackwardW x _ taps out_channels p) =
     conv_backward_w_meta x [fst taps, snd taps] out_channels p"

section \<open>Shapes and linear algebra\<close>

definition reshape_meta :: "node \<Rightarrow> nat list \<Rightarrow> typed checked" where
  "reshape_meta a sh =
     (if wrapping_product (node_shape a) \<noteq> wrapping_product sh
      then Err (Refused ''reshape: cannot reshape'') else like sh a)"

definition permute_meta :: "node \<Rightarrow> nat list \<Rightarrow> typed checked" where
  "permute_meta a dims =
     (let sh = node_shape a in
      if length dims \<noteq> length sh \<or> list_ex (\<lambda>d. d \<ge> length sh) dims \<or>
         list_ex (\<lambda>i. dims ! i \<in> set (take i dims)) [1..<length dims]
      then Err (Refused ''permute: dims'')
      else and_then (traverse (\<lambda>d. at sh d Ok) dims) (\<lambda>out. like out a))"

definition slice_dim :: "nat \<times> nat \<times> nat \<Rightarrow> nat checked" where
  "slice_dim bounds = (case bounds of (start, stop, stride) \<Rightarrow>
     (let n = stop - start in
      divided n stride (\<lambda>q. Ok (if n mod stride > 0 then q + 1 else q))))"

definition slice_meta :: "node \<Rightarrow> (nat \<times> nat \<times> nat) list \<Rightarrow> typed checked" where
  "slice_meta a ranges =
     (if length ranges \<noteq> length (node_shape a) then Err (Refused ''slice: expected'')
      else and_then (traverse slice_dim ranges) (\<lambda>sh. like sh a))"

definition concat_dim :: "nat list \<Rightarrow> nat list \<Rightarrow> nat \<Rightarrow> nat list \<Rightarrow> nat \<Rightarrow> nat list checked" where
  "concat_dim sa sb dim sh i =
     (if i = dim then at sh i (\<lambda>x. at sb i (\<lambda>y. Ok (sh[i := wrapping_add x y])))
      else at sa i (\<lambda>x. at sb i (\<lambda>y.
        if x \<noteq> y then Err (Refused ''concat: shape mismatch at dim'') else Ok sh)))"

definition concat_meta :: "node \<Rightarrow> node \<Rightarrow> nat \<Rightarrow> typed checked" where
  "concat_meta a b dim =
     (let sa = node_shape a; sb = node_shape b in
      and_then (require_same_dtype ''concat'' [a, b]) (\<lambda>_.
      if length sa \<noteq> length sb \<or> dim \<ge> length sa then Err (Refused ''concat: rank/dim mismatch'')
      else and_then (fold_outcome (concat_dim sa sb dim) sa [0..<length sa]) (\<lambda>sh. like sh a)))"

definition broadcast_to_meta :: "node \<Rightarrow> nat list \<Rightarrow> typed checked" where
  "broadcast_to_meta a sh =
     (let sa = node_shape a in
      if length sh < length sa then Err (Refused ''broadcast_to: cannot broadcast'')
      else and_then (each_outcome (\<lambda>(i, d). at sh (length sh - length sa + i) (\<lambda>target.
             if d \<noteq> target \<and> d \<noteq> 1 then Err (Refused ''broadcast_to: cannot broadcast'') else Ok ()))
             (enumerate 0 sa))
        (\<lambda>_. like sh a))"

definition matmul_meta :: "node \<Rightarrow> node \<Rightarrow> typed checked" where
  "matmul_meta a b =
     (let sa = node_shape a; sb = node_shape b; ar = length sa; br = length sb in
      and_then (require_same_dtype ''matmul'' [a, b]) (\<lambda>_.
      if ar < 2 \<or> br < 2 then Err (Refused ''matmul: expected tensors of rank >= 2'')
      else at sa (ar - 1) (\<lambda>ka. at sb (br - 2) (\<lambda>kb.
      if ka \<noteq> kb then Err (Refused ''matmul: inner dimensions mismatch'')
      else prefix_of sa (ar - 2) (\<lambda>fa. prefix_of sb (br - 2) (\<lambda>fb.
      and_then (broadcast_shapes fa fb) (\<lambda>batch.
      at sa (ar - 2) (\<lambda>m. at sb (br - 1) (\<lambda>n. like (batch @ [m, n]) a)))))))))"

definition square_meta :: "bool \<Rightarrow> node \<Rightarrow> typed checked" where
  "square_meta is_det a =
     (let sh = node_shape a; r = length sh; refuse = Err (Refused ''linalg: expected a tensor square'') in
      if r < 2 then refuse
      else at sh (r - 2) (\<lambda>m. at sh (r - 1) (\<lambda>n. if m \<noteq> n then refuse
      else if \<not> is_float (node_dtype a) then Err (Refused ''linalg: dtype must be floating point'')
      else if is_det then prefix_of sh (r - 2) (\<lambda>front. like front a)
      else Ok (typed_as a))))"

definition solve_meta :: "node \<Rightarrow> node \<Rightarrow> typed checked" where
  "solve_meta a b =
     (let sa = node_shape a; sb = node_shape b; r = length sa;
          square = Err (Refused ''solve: expected a coefficient tensor'');
          rows = Err (Refused ''solve: expected a right-hand side'') in
      if r < 2 then square
      else at sa (r - 2) (\<lambda>m. at sa (r - 1) (\<lambda>n. if m \<noteq> n then square
      else if length sb \<noteq> r then rows
      else prefix_of sb (r - 2) (\<lambda>fb. prefix_of sa (r - 2) (\<lambda>fa. if fb \<noteq> fa then rows
      else at sb (r - 2) (\<lambda>k. if k \<noteq> n then rows
      else if \<not> is_float (node_dtype a) \<or> node_dtype a \<noteq> node_dtype b
      then Err (Refused ''solve: dtypes must be floating point'')
      else like sb a))))))"

fun shape_meta :: "node shape_kind \<Rightarrow> typed checked" where
  "shape_meta (Reshape a sh) = reshape_meta a sh"
| "shape_meta (Permute a dims) = permute_meta a dims"
| "shape_meta (Slice a ranges) = slice_meta a ranges"
| "shape_meta (Concat a b dim) = concat_meta a b dim"
| "shape_meta (BroadcastTo a sh) = broadcast_to_meta a sh"
| "shape_meta (Matmul a b) = matmul_meta a b"
| "shape_meta (Inverse a) = square_meta False a"
| "shape_meta (Det a) = square_meta True a"
| "shape_meta (Solve a b) = solve_meta a b"

section \<open>Sources and element-wise operations\<close>

definition arange_length :: "f64 \<Rightarrow> f64 \<Rightarrow> f64 \<Rightarrow> nat" where
  "arange_length start end step =
     f64_to_unsigned usize_max (f64_max_zero (f64_ceil (f64_div (f64_sub end start) step)))"

definition from_bytes_meta :: "8 word list \<Rightarrow> nat list \<Rightarrow> dtype \<Rightarrow> device \<Rightarrow> typed checked" where
  "from_bytes_meta bytes sh d device =
     and_then (map_err BadStorage (canonical_geometry (value_dense d sh))) (\<lambda>geometry.
     if length bytes \<noteq> geometry_bytes geometry then Err (Refused ''from_bytes: expected'')
     else Ok (sh, d, device))"

definition uniform_meta :: "f64 \<Rightarrow> f64 \<Rightarrow> nat list \<Rightarrow> dtype \<Rightarrow> device \<Rightarrow> typed checked" where
  "uniform_meta lo hi sh d device =
     (if \<not> is_float d then Err (Refused ''uniform: dtype must be floating point'')
      else if f64_le hi lo then Err (Refused ''uniform: expected lo < hi'')
      else Ok (sh, d, device))"

text \<open>A leaf is read through its slot and returns before the checks that follow the match.\<close>

fun source_meta :: "source_kind \<Rightarrow> typed checked" where
  "source_meta (Leaf _) = Panic"
| "source_meta (Input _ sh d device _) = Ok (sh, d, device)"
| "source_meta (ScalarInput _ d device) = Ok ([], d, device)"
| "source_meta (FromBytes bytes sh d device) = from_bytes_meta bytes sh d device"
| "source_meta (Fill _ sh d device) = Ok (sh, d, device)"
| "source_meta (Uniform lo hi sh d device) = uniform_meta lo hi sh d device"
| "source_meta (Arange start end step d device) = Ok ([arange_length start end step], d, device)"
| "source_meta (Eye n d device) = Ok ([n, n], d, device)"

definition arith_meta :: "node \<Rightarrow> node \<Rightarrow> typed checked" where
  "arith_meta a b =
     and_then (broadcast_shapes (node_shape a) (node_shape b)) (\<lambda>sh.
     and_then (scalar_aware_binary_dtype a b) (\<lambda>d. Ok (sh, d, node_device a)))"

definition compare_meta :: "node \<Rightarrow> node \<Rightarrow> typed checked" where
  "compare_meta a b =
     and_then (scalar_aware_binary_dtype a b) (\<lambda>_.
     and_then (broadcast_shapes (node_shape a) (node_shape b)) (\<lambda>sh. Ok (sh, U8, node_device a)))"

definition where_meta :: "node \<Rightarrow> node \<Rightarrow> node \<Rightarrow> typed checked" where
  "where_meta c a b =
     (if node_dtype c \<noteq> U8 then Err (Refused ''where: condition must be u8'')
      else if node_dtype a \<noteq> node_dtype b then Err (Refused ''where: dtype mismatch'')
      else and_then (broadcast_shapes (node_shape c) (node_shape a)) (\<lambda>sh.
        and_then (broadcast_shapes sh (node_shape b)) (\<lambda>sh. like sh a)))"

fun kind_meta :: "node kind \<Rightarrow> typed checked" where
  "kind_meta (Source s) = source_meta s"
| "kind_meta (Arith _ a b) = arith_meta a b"
| "kind_meta (Compare _ a b) = compare_meta a b"
| "kind_meta (Unary _ a) = Ok (typed_as a)"
| "kind_meta (Where c a b) = where_meta c a b"
| "kind_meta (Cast a d) = Ok (node_shape a, d, node_device a)"
| "kind_meta (Reduce _ a dims keepdims) = like (reduced_shape (node_shape a) dims keepdims) a"
| "kind_meta (Index k) = index_meta k"
| "kind_meta (Attention k) = attention_meta k"
| "kind_meta (Layer k) = layer_meta k"
| "kind_meta (Conv k) = conv_meta k"
| "kind_meta (Shape k) = shape_meta k"

section \<open>Metadata of a node\<close>

fun is_quantized_op :: "'a kind \<Rightarrow> bool" where
  "is_quantized_op (Layer (QuantizedLinear _ _ _)) = True"
| "is_quantized_op (Layer (QuantizedEmbedding _ _ _)) = True"
| "is_quantized_op _ = False"

definition check_operand :: "node kind \<Rightarrow> nat \<times> node \<Rightarrow> unit checked" where
  "check_operand k operand = (case operand of (role, child) \<Rightarrow>
     and_then (map_err BadStorage (validate_value (node_value_spec child))) (\<lambda>_.
     if is_packed (meta_representation (node_storage child)) \<and> \<not> (role = 1 \<and> is_quantized_op k)
     then Err (Refused ''operand'') else Ok ()))"

fun kind_storage :: "'a kind \<Rightarrow> storage_metadata" where
  "kind_storage (Source (Input _ _ _ _ storage)) = storage"
| "kind_storage _ = metadata_unconstrained"

definition check_metadata :: "node_metadata \<Rightarrow> node_metadata checked" where
  "check_metadata m =
     and_then (check_dtype_device (md_dtype m) (md_device m)) (\<lambda>_.
     and_then (map_err BadStorage (validate_value (metadata_value_spec m))) (\<lambda>_. Ok m))"

definition leaf_metadata :: "(nat \<Rightarrow> node_metadata option) \<Rightarrow> nat \<Rightarrow> node_metadata checked" where
  "leaf_metadata slots slot = (case slots slot of
     None \<Rightarrow> Err ClearedLeaf
   | Some m \<Rightarrow>
       and_then (map_err BadStorage (validate_value (metadata_value_spec m))) (\<lambda>_.
       and_then (check_dtype_device (md_dtype m) (md_device m)) (\<lambda>_. Ok m)))"

definition operation_metadata :: "node kind \<Rightarrow> node_metadata checked" where
  "operation_metadata k =
     and_then (kind_meta k) (\<lambda>(sh, d, device).
     if list_ex (\<lambda>child. \<not> same_device (node_device child) device) (node_children k)
     then Err (Refused ''node operands must use device'')
     else check_metadata \<lparr>md_shape = sh, md_dtype = d, md_device = device, md_storage = kind_storage k\<rparr>)"

definition metadata :: "(nat \<Rightarrow> node_metadata option) \<Rightarrow> node kind \<Rightarrow> node_metadata checked" where
  "metadata slots k =
     and_then (each_outcome (check_operand k) (enumerate 0 (node_children k))) (\<lambda>_.
     (case k of
        Source (Leaf slot) \<Rightarrow> leaf_metadata slots slot
      | _ \<Rightarrow> operation_metadata k))"

text \<open>\<open>Node::new\<close>: the identifier is that of the global counter, which advances on success.\<close>

definition new_node :: "(nat \<Rightarrow> node_metadata option) \<Rightarrow> nat \<Rightarrow> node kind \<Rightarrow> (node \<times> nat) checked" where
  "new_node slots next k =
     and_then (metadata slots k) (\<lambda>m.
     Ok (Node next (md_shape m) (md_dtype m) (md_device m) (md_storage m) k, wrapping_add next 1))"

end
