(* ===== verification/ShapeLaws.thy ===== *)
theory ShapeLaws
  imports Shapes
begin

text \<open>
  What shape inference guarantees: it panics in three cases only (a zero slice stride, and the weight
  gradient of a convolution whose input has rank below two or whose groups are zero), and a node
  that it accepts is well typed. The second part follows a graph while it is built by \<open>Node::new\<close>:
  a step relation over the built nodes and the identifier counter, with its invariant.
\<close>

section \<open>Checks that return\<close>

declare is_float.simps [simp del]

text \<open>An outcome of the checks is not a panic, construct by construct.\<close>

lemma at_total: "i < length xs \<Longrightarrow> f (xs ! i) \<noteq> Panic \<Longrightarrow> at xs i f \<noteq> Panic"
  by (auto simp: at_def expect_def nth_opt_def)

lemma prefix_total: "n \<le> length xs \<Longrightarrow> f (take n xs) \<noteq> Panic \<Longrightarrow> prefix_of xs n f \<noteq> Panic"
  by (auto simp: prefix_of_def)

lemma suffix_total: "n \<le> length xs \<Longrightarrow> f (drop n xs) \<noteq> Panic \<Longrightarrow> suffix_of xs n f \<noteq> Panic"
  by (auto simp: suffix_of_def)

lemma divided_total: "0 < b \<Longrightarrow> f (a div b) \<noteq> Panic \<Longrightarrow> divided a b f \<noteq> Panic"
  by (auto simp: divided_def)

lemma if_total: "(b \<Longrightarrow> m \<noteq> Panic) \<Longrightarrow> (\<not> b \<Longrightarrow> n \<noteq> Panic) \<Longrightarrow> (if b then m else n) \<noteq> Panic"
  by simp

lemma and_then_total:
  "m \<noteq> Panic \<Longrightarrow> (\<And>x. m = Ok x \<Longrightarrow> f x \<noteq> Panic) \<Longrightarrow> and_then m f \<noteq> Panic"
  by (cases m) auto

lemma result_total: "Ok x \<noteq> Panic" "Err e \<noteq> Panic"
  by simp_all

lemmas total_intros = at_total prefix_total suffix_total divided_total if_total and_then_total result_total

lemma at_Ok [outcome_iff]: "at xs i f = Ok y \<longleftrightarrow> i < length xs \<and> f (xs ! i) = Ok y"
  by (auto simp: at_def outcome_iff)

lemma prefix_of_Ok [outcome_iff]: "prefix_of xs n f = Ok y \<longleftrightarrow> n \<le> length xs \<and> f (take n xs) = Ok y"
  by (auto simp: prefix_of_def)

lemma suffix_of_Ok [outcome_iff]: "suffix_of xs n f = Ok y \<longleftrightarrow> n \<le> length xs \<and> f (drop n xs) = Ok y"
  by (auto simp: suffix_of_def)

lemma divided_Ok [outcome_iff]: "divided a b f = Ok y \<longleftrightarrow> b \<noteq> 0 \<and> f (a div b) = Ok y"
  by (auto simp: divided_def)

lemma at_Panic: "at xs i f = Panic \<longleftrightarrow> length xs \<le> i \<or> f (xs ! i) = Panic"
  by (auto simp: at_def outcome_iff not_le)

lemma like_Ok [simp]: "like sh x = Ok y \<longleftrightarrow> y = (sh, node_dtype x, node_device x)" "like sh x \<noteq> Panic"
  by (auto simp: like_def)

lemma shared_checks_total [simp]:
  "scalar_aware_binary_dtype a b \<noteq> Panic" "require_same_dtype op xs \<noteq> Panic"
  "check_dtype_device d device \<noteq> Panic" "kda_operand op a b \<noteq> Panic" "pick op xs i \<noteq> Panic"
  "window_check op c w \<noteq> Panic" "output_index op n a i \<noteq> Panic"
  by (auto simp: scalar_aware_binary_dtype_def require_same_dtype_def check_dtype_device_def
      kda_operand_def pick_def window_check_def output_index_def split: list.split option.split)

lemma padded_dim_eq:
  "length a \<le> r \<Longrightarrow> i < r \<Longrightarrow>
    padded_dim a r i = Ok (if i < r - length a then 1 else a ! (i - (r - length a)))"
  by (auto simp: padded_dim_def at_def expect_def nth_opt_def)

lemma broadcast_shapes_total [simp]: "broadcast_shapes a b \<noteq> Panic"
  unfolding broadcast_shapes_def Let_def by (rule traverse_Panic) (auto simp: padded_dim_eq)

lemma conv_out_dim_total: "0 < conv_stride p \<Longrightarrow> conv_out_dim n k p \<noteq> Panic"
  unfolding conv_out_dim_def Let_def by (intro total_intros; auto)

lemma conv_check_total:
  "2 \<le> length (node_shape x) \<Longrightarrow> 2 \<le> length (node_shape w) \<Longrightarrow> conv_check op x w p \<noteq> Panic"
  unfolding conv_check_def Let_def by (intro total_intros; auto)

lemma conv_check_stride: "conv_check op x w p = Ok u \<Longrightarrow> 0 < conv_stride p"
  by (auto simp: conv_check_def Let_def split: if_splits)

lemma sdpa_heads_total [simp]: "length k = length q \<Longrightarrow> length v = length q \<Longrightarrow> sdpa_heads op q k v \<noteq> Panic"
  unfolding sdpa_heads_def Let_def
  by (intro total_intros; auto)

lemma sdpa_check_total [simp]: "sdpa_check op q k v \<noteq> Panic"
  unfolding sdpa_check_def Let_def
  by (intro total_intros sdpa_heads_total; auto)

lemma sdpa_check_Ok:
  "sdpa_check op q k v = Ok sh \<Longrightarrow>
    2 \<le> length (node_shape q) \<and> length (node_shape k) = length (node_shape q) \<and>
    length (node_shape v) = length (node_shape q)"
  by (auto simp: sdpa_check_def Let_def split: if_splits)

lemma kda_check_total [simp]: "kda_check op q k v d b \<noteq> Panic"
  unfolding kda_check_def Let_def by (intro total_intros each_outcome_Panic; auto)

lemma head_ce_check_total [simp]: "head_ce_check op x w b t \<noteq> Panic"
  unfolding head_ce_check_def Let_def
  by (intro total_intros; auto)

lemma short_conv_check_total [simp]: "short_conv_check op x w \<noteq> Panic"
  unfolding short_conv_check_def Let_def
  by (intro total_intros; auto)

lemma linear_out_shape_total [simp]: "linear_out_shape x w b \<noteq> Panic"
  unfolding linear_out_shape_def Let_def
  by (intro total_intros; auto)

lemma dim_removed_total [simp]: "dim_removed op a d \<noteq> Panic"
  unfolding dim_removed_def Let_def
  by (intro total_intros like_Ok(2); auto)

lemma top_k_meta_total [simp]: "top_k_meta a n \<noteq> Panic"
  unfolding top_k_meta_def Let_def
  by (intro total_intros like_Ok(2); auto)

lemma cumsum_meta_total [simp]: "cumsum_meta a n \<noteq> Panic"
  unfolding cumsum_meta_def Let_def
  by (intro total_intros like_Ok(2); auto)

lemma index_select_meta_total [simp]: "index_select_meta a n i \<noteq> Panic"
  unfolding index_select_meta_def Let_def
  by (intro total_intros like_Ok(2); auto)

lemma scatter_add_meta_total [simp]: "scatter_add_meta a n i b \<noteq> Panic"
  unfolding scatter_add_meta_def Let_def
  by (intro total_intros like_Ok(2); auto)

lemma cross_entropy_meta_total [simp]: "cross_entropy_meta a b \<noteq> Panic"
  unfolding cross_entropy_meta_def Let_def
  by (intro total_intros like_Ok(2); auto)

lemma position_embedding_meta_total [simp]: "position_embedding_meta a n \<noteq> Panic"
  unfolding position_embedding_meta_def Let_def
  by (intro total_intros like_Ok(2); auto)

lemma last_token_row_meta_total [simp]: "last_token_row_meta a \<noteq> Panic"
  unfolding last_token_row_meta_def Let_def
  by (intro total_intros like_Ok(2); auto)

lemma gather_total [simp]: "gather_meta a dim i \<noteq> Panic"
  unfolding gather_meta_def Let_def by (intro total_intros each_outcome_Panic like_Ok(2); auto)

lemma index_meta_total [simp]: "index_meta k \<noteq> Panic"
  by (cases k) simp_all

lemma sdpa_meta_total [simp]: "sdpa_meta q k v c w r \<noteq> Panic"
  unfolding sdpa_meta_def Let_def
  by (intro total_intros like_Ok(2); auto)

lemma kv_attention_meta_total [simp]: "kv_attention_meta q k v \<noteq> Panic"
  unfolding kv_attention_meta_def Let_def
  by (intro total_intros like_Ok(2); auto dest!: sdpa_check_Ok)

lemma sdpa_backward_meta_total [simp]: "sdpa_backward_meta q k v g fwd c w \<noteq> Panic"
  unfolding sdpa_backward_meta_def Let_def
  by (intro total_intros like_Ok(2); auto dest!: sdpa_check_Ok)

lemma pick_outputs_total [simp]:
  "sdpa_backward_out_meta src i \<noteq> Panic" "kda_backward_out_meta src i \<noteq> Panic"
  "head_ce_backward_out_meta src i \<noteq> Panic" "layer_norm_backward_out_meta src i \<noteq> Panic"
  by (auto simp: sdpa_backward_out_meta_def kda_backward_out_meta_def head_ce_backward_out_meta_def
      layer_norm_backward_out_meta_def split: kind.split attention_kind.split layer_kind.split)

lemma kda_backward_meta_total [simp]: "kda_backward_meta q k v l b g \<noteq> Panic"
  unfolding kda_backward_meta_def Let_def
  by (intro total_intros like_Ok(2); auto)

lemma short_conv_backward_meta_total [simp]: "short_conv_backward_meta q k v l \<noteq> Panic"
  unfolding short_conv_backward_meta_def Let_def
  by (intro total_intros like_Ok(2); auto)

lemma rotary_meta_total [simp]: "rotary_meta x n \<noteq> Panic"
  unfolding rotary_meta_def Let_def
  by (intro total_intros like_Ok(2); auto)

lemma rotary_explicit_meta_total [simp]: "rotary_explicit_meta x a b \<noteq> Panic"
  unfolding rotary_explicit_meta_def Let_def
  by (intro total_intros like_Ok(2); auto)

lemma rotary_backward_meta_total [simp]: "rotary_backward_meta x n m \<noteq> Panic"
  unfolding rotary_backward_meta_def Let_def
  by (intro total_intros like_Ok(2); auto)

lemma attention_meta_total [simp]: "attention_meta k \<noteq> Panic"
  by (cases k) (simp_all add: and_then_total)

lemma head_ce_backward_meta_total [simp]: "head_ce_backward_meta x w b t g \<noteq> Panic"
  unfolding head_ce_backward_meta_def
  by (intro total_intros; auto)

lemma trailing_differs_total: "(\<And>d. f d \<noteq> Panic) \<Longrightarrow> trailing_differs x w f \<noteq> Panic"
  unfolding trailing_differs_def
  by (intro total_intros; auto)

lemma norm_metas_total [simp]:
  "layer_norm_meta x w b \<noteq> Panic" "layer_norm_backward_meta x w b \<noteq> Panic" "rms_norm_meta x p \<noteq> Panic"
  unfolding layer_norm_meta_def layer_norm_backward_meta_def rms_norm_meta_def
  by (intro total_intros trailing_differs_total; auto split: option.split)+

lemma linear_meta_total [simp]: "linear_meta x w b \<noteq> Panic"
  unfolding linear_meta_def
  by (intro total_intros like_Ok(2); auto)

lemma expert_rows_meta_total [simp]: "expert_rows_meta op x w i \<noteq> Panic"
  unfolding expert_rows_meta_def Let_def
  by (intro total_intros like_Ok(2); auto)

lemma optimizer_check_total [simp]: "optimizer_check op p ts ss \<noteq> Panic"
  by (auto simp: optimizer_check_def)

lemma packed_operand_total [simp]: "packed_operand w \<noteq> Panic"
  by (auto simp: packed_operand_def packed_matrix_def outcome_iff
      split: storage_representation.split packed_format.split list.split)

lemma quantized_metas_total [simp]:
  "quantized_linear_meta x w b \<noteq> Panic" "quantized_embedding_meta i w p \<noteq> Panic"
  unfolding quantized_linear_meta_def quantized_embedding_meta_def
  by (intro and_then_total; auto split: prod.split option.split)+

lemma layer_meta_total [simp]: "layer_meta k \<noteq> Panic"
  by (cases k) (simp_all add: and_then_total)

text \<open>The conditions under which an inference panics.\<close>

fun conv_panics :: "node conv_kind \<Rightarrow> bool" where
  "conv_panics (Conv1dBackwardW x _ _ _ p) \<longleftrightarrow> length (node_shape x) < 2 \<or> conv_groups p = 0"
| "conv_panics (Conv2dBackwardW x _ _ _ p) \<longleftrightarrow> length (node_shape x) < 2 \<or> conv_groups p = 0"
| "conv_panics _ \<longleftrightarrow> False"

fun shape_panics :: "node shape_kind \<Rightarrow> bool" where
  "shape_panics (Slice a ranges) \<longleftrightarrow>
     length ranges = length (node_shape a) \<and> 0 \<in> (snd \<circ> snd) ` set ranges"
| "shape_panics _ \<longleftrightarrow> False"

fun kind_panics :: "node kind \<Rightarrow> bool" where
  "kind_panics (Conv k) = conv_panics k"
| "kind_panics (Shape k) = shape_panics k"
| "kind_panics _ = False"

lemma forward_conv_total [simp]: "conv1d_meta x w p \<noteq> Panic" "conv2d_meta x w p \<noteq> Panic"
  unfolding conv1d_meta_def conv2d_meta_def
  by (intro total_intros like_Ok(2) conv_check_total conv_out_dim_total; auto dest: conv_check_stride)+

lemma transpose_conv_total [simp]:
  "conv_transpose1d_meta x w n p \<noteq> Panic" "conv_transpose2d_meta x w n p \<noteq> Panic"
  unfolding conv_transpose1d_meta_def conv_transpose2d_meta_def
  by (intro total_intros like_Ok(2); auto)+

lemma conv_backward_w_Panic [simp]:
  "conv_backward_w_meta x taps c p = Panic \<longleftrightarrow> length (node_shape x) < 2 \<or> conv_groups p = 0"
  by (auto simp: conv_backward_w_meta_def at_def expect_def nth_opt_def divided_def outcome_iff)

lemma conv_meta_Panic [simp]: "conv_meta k = Panic \<longleftrightarrow> conv_panics k"
  by (cases k) simp_all

lemma slice_dim_eq:
  "slice_dim (start, stop, stride) =
     (if stride = 0 then Panic
      else Ok ((stop - start) div stride + of_bool ((stop - start) mod stride > 0)))"
  by (auto simp: slice_dim_def divided_def Let_def)

lemma slice_dims_Panic: "traverse slice_dim ranges = Panic \<longleftrightarrow> 0 \<in> (snd \<circ> snd) ` set ranges"
proof (induction ranges)
  case (Cons range ranges)
  then show ?case
    by (cases range; cases "snd (snd range) = 0") (auto simp: slice_dim_eq outcome_iff)
qed simp

lemma slice_meta_Panic [simp]:
  "slice_meta a ranges = Panic \<longleftrightarrow>
     length ranges = length (node_shape a) \<and> 0 \<in> (snd \<circ> snd) ` set ranges"
  by (auto simp: slice_meta_def outcome_iff slice_dims_Panic)

lemma permute_meta_total [simp]: "permute_meta a dims \<noteq> Panic"
  unfolding permute_meta_def Let_def
  by (intro total_intros like_Ok(2) traverse_Panic; auto simp: list_ex_iff not_le)

lemma concat_dims_total:
  assumes "length sb = length sa" "length sh = length sa" "set is \<subseteq> {..<length sa}"
  shows "fold_outcome (concat_dim sa sb dim) sh is \<noteq> Panic"
  using assms(2,3)
proof (induction "is" arbitrary: sh)
  case (Cons i is')
  then have "concat_dim sa sb dim sh i \<noteq> Panic" unfolding concat_dim_def
    by (intro total_intros; use assms(1) in auto)
  moreover have "length sh' = length sa" if "concat_dim sa sb dim sh i = Ok sh'" for sh'
    using that Cons.prems by (auto simp: concat_dim_def outcome_iff split: if_splits)
  ultimately show ?case using Cons by (auto simp: outcome_iff)
qed simp

lemma concat_meta_total [simp]: "concat_meta a b dim \<noteq> Panic"
  unfolding concat_meta_def Let_def
  by (intro total_intros like_Ok(2) concat_dims_total; auto)

lemma broadcast_to_meta_total [simp]: "broadcast_to_meta a sh \<noteq> Panic"
  unfolding broadcast_to_meta_def Let_def
  by (intro total_intros like_Ok(2) each_outcome_Panic) (auto simp: at_Panic split: if_splits)

lemma matmul_meta_total [simp]: "matmul_meta a b \<noteq> Panic"
  unfolding matmul_meta_def Let_def
  by (intro total_intros like_Ok(2); auto)

lemma square_meta_total [simp]: "square_meta d a \<noteq> Panic"
  unfolding square_meta_def Let_def
  by (intro total_intros like_Ok(2); auto)

lemma solve_meta_total [simp]: "solve_meta a b \<noteq> Panic"
  unfolding solve_meta_def Let_def
  by (intro total_intros like_Ok(2); auto)

lemma shape_meta_Panic [simp]: "shape_meta k = Panic \<longleftrightarrow> shape_panics k"
  by (cases k) (simp_all add: reshape_meta_def)

lemma source_meta_Panic [simp]: "source_meta s = Panic \<longleftrightarrow> (\<exists>slot. s = Leaf slot)"
  by (cases s) (auto simp: from_bytes_meta_def uniform_meta_def outcome_iff)

lemma elementwise_total [simp]:
  "arith_meta a b \<noteq> Panic" "compare_meta a b \<noteq> Panic" "where_meta a b c \<noteq> Panic"
  unfolding arith_meta_def compare_meta_def where_meta_def
  by (intro total_intros like_Ok(2); auto)+

lemma kind_meta_Panic: "kind_meta k = Panic \<longleftrightarrow> kind_panics k \<or> (\<exists>slot. k = Source (Leaf slot))"
  by (cases k) simp_all

section \<open>Panics\<close>

definition operand_ok :: "node kind \<Rightarrow> nat \<Rightarrow> node \<Rightarrow> bool" where
  "operand_ok k role child \<longleftrightarrow> validate_value (node_value_spec child) = Ok () \<and>
     (is_packed (meta_representation (node_storage child)) \<longrightarrow> role = 1 \<and> is_quantized_op k)"

definition operands_ok :: "node kind \<Rightarrow> bool" where
  "operands_ok k \<longleftrightarrow> (\<forall>role < length (node_children k). operand_ok k role (node_children k ! role))"

lemma check_operand_Ok: "check_operand k (role, child) = Ok u \<longleftrightarrow> operand_ok k role child"
  by (auto simp: check_operand_def operand_ok_def outcome_iff split: if_splits)

lemma check_operands_Ok:
  "(\<forall>x \<in> set (enumerate 0 (node_children k)). check_operand k x = Ok ()) \<longleftrightarrow> operands_ok k"
  by (simp add: ball_enumerate operands_ok_def check_operand_Ok)

lemma check_operands_total: "each_outcome (check_operand k) xs \<noteq> Panic"
  by (rule each_outcome_Panic) (auto simp: check_operand_def outcome_iff split: if_splits)

lemma check_metadata_total [simp]: "check_metadata m \<noteq> Panic"
  by (auto simp: check_metadata_def outcome_iff)

lemma leaf_metadata_total [simp]: "leaf_metadata slots slot \<noteq> Panic"
  by (auto simp: leaf_metadata_def outcome_iff split: option.split)

lemma operation_metadata_Panic: "operation_metadata k = Panic \<longleftrightarrow> kind_meta k = Panic"
  by (auto simp: operation_metadata_def outcome_iff split: if_splits)

lemma metadata_eq:
  "metadata slots k =
     and_then (each_outcome (check_operand k) (enumerate 0 (node_children k))) (\<lambda>_.
       if \<exists>slot. k = Source (Leaf slot) then leaf_metadata slots (THE slot. k = Source (Leaf slot))
       else operation_metadata k)"
  by (auto simp: metadata_def split: kind.split source_kind.split)

lemma metadata_Panic: "metadata slots k = Panic \<longleftrightarrow> operands_ok k \<and> kind_panics k"
  by (auto simp: metadata_eq outcome_iff check_operands_Ok check_operands_total
      operation_metadata_Panic kind_meta_Panic)

lemma metadata_Ok:
  assumes "metadata slots k = Ok m"
  shows "operands_ok k" "validate_value (metadata_value_spec m) = Ok ()"
    "\<not> (md_dtype m = F64 \<and> is_metal (md_device m))"
    "\<forall>child \<in> set (node_children k). node_device child = md_device m"
  using assms
  by (auto simp: metadata_eq outcome_iff check_operands_Ok leaf_metadata_def operation_metadata_def
      check_metadata_def check_dtype_device_def same_device_def list_ex_iff
      split: if_splits option.splits)

text \<open>
  C36. Shape inference panics exactly when the operands pass their checks and the kind is a slice
  of matching rank with a zero stride, or a convolution weight gradient whose input has rank
  below two or whose group count is zero.
\<close>

theorem metadata_panics_iff: "metadata slots k = Panic \<longleftrightarrow> operands_ok k \<and> kind_panics k"
  by (rule metadata_Panic)

section \<open>Building a graph\<close>

text \<open>
  The state is the nodes built so far, newest first, and the counter \<open>NEXT_NODE_ID\<close>. Operands are
  nodes built before; leaf slots may change between two steps.
\<close>

inductive build_step :: "node list \<times> nat \<Rightarrow> node list \<times> nat \<Rightarrow> bool" where
  build: "set (node_children k) \<subseteq> set built \<Longrightarrow> new_node slots next k = Ok (x, next') \<Longrightarrow>
    build_step (built, next) (x # built, next')"

inductive_cases build_step_cases: "build_step (built, next) s"

definition new_graph :: "node list \<times> nat \<Rightarrow> bool" where
  "new_graph s \<longleftrightarrow> s = ([], 0)"

definition typed_node :: "node \<Rightarrow> bool" where
  "typed_node x \<longleftrightarrow> validate_value (node_value_spec x) = Ok () \<and>
     \<not> (node_dtype x = F64 \<and> is_metal (node_device x)) \<and> operands_ok (node_kind x) \<and>
     (\<forall>child \<in> set (node_children (node_kind x)). node_device child = node_device x)"

definition built_ok :: "node list \<Rightarrow> node \<Rightarrow> bool" where
  "built_ok built x \<longleftrightarrow> typed_node x \<and> set (node_children (node_kind x)) \<subseteq> set built"

text \<open>Identifiers are given out in order; they are unique until the counter wraps around.\<close>

definition ids_ok :: "node list \<Rightarrow> nat \<Rightarrow> bool" where
  "ids_ok built next \<longleftrightarrow> next = length built mod (usize_max + 1) \<and>
     (length built \<le> usize_max + 1 \<longrightarrow>
        map node_id (rev built) = [0..<length built] \<and>
        (\<forall>x \<in> set built. \<forall>child \<in> set (node_children (node_kind x)). node_id child < node_id x))"

fun graph_ok :: "node list \<times> nat \<Rightarrow> bool" where
  "graph_ok (built, next) \<longleftrightarrow> (\<forall>x \<in> set built. built_ok built x) \<and> ids_ok built next"

lemma new_node_typed:
  assumes "new_node slots next k = Ok (x, next')"
  shows "typed_node x" "node_kind x = k" "node_id x = next" "next' = (next + 1) mod (usize_max + 1)"
  using assms
  by (auto simp: new_node_def outcome_iff typed_node_def node_value_spec_def metadata_value_spec_def
      wrapping_add_def dest: metadata_Ok)

lemma ids_below:
  assumes "map node_id (rev built) = [0..<length built]" "x \<in> set built"
  shows "node_id x < length built"
proof -
  have "node_id x \<in> set (map node_id (rev built))" using assms(2) by simp
  then show ?thesis unfolding assms(1) by simp
qed

lemma ids_ok_step:
  assumes "ids_ok built next" "set (node_children k) \<subseteq> set built" "new_node slots next k = Ok (x, next')"
  shows "ids_ok (x # built) next'"
proof -
  note new = new_node_typed [OF assms(3)]
  have counter_eq: "next = length built mod (usize_max + 1)" using assms(1) by (simp add: ids_ok_def)
  have ids: "map node_id (rev built) = [0..<length built]"
      "\<forall>y \<in> set built. \<forall>c \<in> set (node_children (node_kind y)). node_id c < node_id y" "next = length built"
    if "length built \<le> usize_max" using assms(1) that by (auto simp: ids_ok_def)
  have "next' = length (x # built) mod (usize_max + 1)"
    using new(4) counter_eq by (simp add: mod_simps)
  moreover have "node_id c < node_id x" if "length built \<le> usize_max" "c \<in> set (node_children (node_kind x))" for c
    using ids [OF that(1)] ids_below [of built c] that(2) new(2,3) assms(2) by auto
  ultimately show ?thesis
    using ids new(3) by (auto simp: ids_ok_def)
qed

interpretation building: invariant_system new_graph build_step graph_ok
proof
  show "graph_ok s" if "new_graph s" for s
    using that by (simp add: new_graph_def ids_ok_def)
next
  fix s t :: "node list \<times> nat"
  assume ok: "graph_ok s" and step: "build_step s t"
  obtain built "next" where s: "s = (built, next)" by force
  obtain k slots x next' where "set (node_children k) \<subseteq> set built" "new_node slots next k = Ok (x, next')"
      "t = (x # built, next')"
    using step unfolding s by (elim build_step_cases) auto
  then show "graph_ok t"
    using ok ids_ok_step new_node_typed(1,2) by (auto simp: s built_ok_def)
qed

lemma built_graph_ok_parts:
  assumes "new_graph s" and "build_step\<^sup>*\<^sup>* s (built, next)"
  shows "x \<in> set built \<Longrightarrow> built_ok built x" and "ids_ok built next"
  using building.reachable_inv [OF assms] by simp_all

text \<open>
  C5. A graph built by \<open>Node::new\<close> is well typed: each node in it has a valid value, is not
  \<open>f64\<close> on Metal, shares the device of its operands, has packed operands only as the weight of a
  quantized operation, and its operands are nodes of the graph. As long as at most 2^64 nodes were
  built, the n-th node has identifier n, so identifiers are unique and every operand has a smaller
  identifier than its consumer.
\<close>

theorem built_graph_ok:
  assumes "new_graph s" and "build_step\<^sup>*\<^sup>* s (built, next)"
  shows "(\<forall>x \<in> set built. built_ok built x) \<and> ids_ok built next"
  using built_graph_ok_parts [OF assms] by blast

section \<open>An example graph\<close>

text \<open>A linear layer whose weight is a packed matrix.\<close>

definition input_node :: node where
  "input_node = Node 0 [3, 256] F32 (Cpu 0) metadata_dense
     (Source (Input 0 [3, 256] F32 (Cpu 0) metadata_dense))"

definition weight_node :: node where
  "weight_node = Node 1 [2, 256] F32 (Cpu 0) (metadata_packed Q4K)
     (Source (Input 1 [2, 256] F32 (Cpu 0) (metadata_packed Q4K)))"

definition linear_node :: node where
  "linear_node = Node 2 [3, 2] F32 (Cpu 0) metadata_unconstrained
     (Layer (QuantizedLinear input_node weight_node None))"

lemmas validation_defs = validate_value_def canonical_geometry_def dense_geometry_def packed_geometry_def
  checked_product_def checked_mul_def encoded_row_bytes_def ok_or_def as_spec_def metadata_dense_def
  metadata_packed_def metadata_unconstrained_def usize_max_def ggml_k_block_values_def

lemmas inference_defs = metadata_def operation_metadata_def check_metadata_def check_dtype_device_def
  new_node_def check_operand_def node_value_spec_def metadata_value_spec_def wrapping_add_def
  input_node_def weight_node_def linear_node_def is_float.simps

lemma input_node_new: "new_node slots 0 (node_kind input_node) = Ok (input_node, 1)"
  by (simp add: inference_defs validation_defs)

lemma weight_node_new: "new_node slots 1 (node_kind weight_node) = Ok (weight_node, 2)"
  by (simp add: inference_defs validation_defs)

lemma linear_node_new: "new_node slots 2 (node_kind linear_node) = Ok (linear_node, 3)"
  by (simp add: inference_defs validation_defs quantized_linear_meta_def packed_operand_def
      packed_matrix_def same_device_def optional_def)

lemma example_built: "build_step\<^sup>*\<^sup>* ([], 0) ([linear_node, weight_node, input_node], 3)"
proof -
  have "build_step ([], 0) ([input_node], 1)"
    using build [OF _ input_node_new] by (simp add: input_node_def)
  moreover have "build_step ([input_node], 1) ([weight_node, input_node], 2)"
    using build [OF _ weight_node_new] by (simp add: weight_node_def)
  moreover have "build_step ([weight_node, input_node], 2) ([linear_node, weight_node, input_node], 3)"
    using build [OF _ linear_node_new] by (simp add: linear_node_def optional_def)
  ultimately show ?thesis
    by (meson converse_rtranclp_into_rtranclp rtranclp.rtrancl_refl)
qed

lemma built_graph_ok_witness:
  "built_ok [linear_node, weight_node, input_node] linear_node \<and>
   is_packed (meta_representation (node_storage weight_node)) \<and>
   ids_ok [linear_node, weight_node, input_node] 3"
  using built_graph_ok [OF _ example_built]
  by (simp add: new_graph_def linear_node_def weight_node_def metadata_packed_def)

end
