(* ===== verification/ShapeSpecs.thy ===== *)
theory ShapeSpecs
  imports ShapeLaws
begin

text \<open>
  What the inferred shapes mean. Element counts are exact although the code multiplies dimensions
  with wrap-around, because every accepted value was validated; and the shapes inferred for views
  and for element-wise operations are those that the layouts of the runtime
  (\<open>crates/runtime/src/layout.rs\<close>) really take.
\<close>

section \<open>Element counts\<close>

lemma wrapping_product_mod: "wrapping_product xs = prod_list xs mod (usize_max + 1)"
proof -
  have "fold (\<lambda>d n. wrapping_mul n d) xs n = n * prod_list xs mod (usize_max + 1)"
    if "n < usize_max + 1" for n
    using that
  proof (induction xs arbitrary: n)
    case (Cons x xs)
    have "fold (\<lambda>d n. wrapping_mul n d) xs (wrapping_mul n x) =
        wrapping_mul n x * prod_list xs mod (usize_max + 1)"
      by (rule Cons.IH) (simp add: wrapping_mul_def)
    then show ?case by (simp add: wrapping_mul_def mod_mult_left_eq mult.assoc)
  qed simp
  from this [of 1] show ?thesis by (simp add: wrapping_product_def usize_max_def)
qed

text \<open>A valid value has a representable number of elements.\<close>

lemma valid_count: "validate_value v = Ok () \<Longrightarrow> prod_list (logical_shape v) \<le> usize_max"
proof -
  assume "validate_value v = Ok ()"
  then obtain g where g: "geometry_spec v g"
    by (auto simp: validate_value_def outcome_iff canonical_geometry_spec)
  show ?thesis
  proof (cases "spec_representation (value_storage_spec v)")
    case DenseStorage
    have "prod_list (logical_shape v) * 1 \<le> prod_list (logical_shape v) * size_in_bytes (semantic_dtype v)"
      by (rule mult_le_mono2) (simp add: Suc_leI)
    moreover have "prod_list (logical_shape v) * size_in_bytes (semantic_dtype v) \<le> usize_max"
      using g DenseStorage by (simp add: geometry_spec_def Let_def)
    ultimately show ?thesis by linarith
  next
    case (Packed f)
    with g show ?thesis by (cases f) (simp add: geometry_spec_def Let_def)
  qed
qed

lemma metadata_valid_count: "metadata slots k = Ok m \<Longrightarrow> prod_list (md_shape m) \<le> usize_max"
  using valid_count [of "metadata_value_spec m"] metadata_Ok(2) [of slots k m]
  by (simp add: metadata_value_spec_def)

lemma metadata_child_count:
  assumes "metadata slots k = Ok m" "child \<in> set (node_children k)"
  shows "prod_list (node_shape child) \<le> usize_max"
proof -
  obtain role where "role < length (node_children k)" "node_children k ! role = child"
    using assms(2) by (meson in_set_conv_nth)
  then have "validate_value (node_value_spec child) = Ok ()"
    using metadata_Ok(1) [OF assms(1)] by (auto simp: operands_ok_def operand_ok_def)
  from valid_count [OF this] show ?thesis by (simp add: node_value_spec_def)
qed

lemma metadata_shape:
  "metadata slots k = Ok m \<Longrightarrow> (\<And>slot. k \<noteq> Source (Leaf slot)) \<Longrightarrow>
    kind_meta k = Ok (md_shape m, md_dtype m, md_device m)"
  by (auto simp: metadata_eq outcome_iff operation_metadata_def check_metadata_def split: if_splits)

lemma reshape_count:
  assumes "metadata slots (Shape (Reshape a sh)) = Ok m"
  shows "md_shape m = sh \<and> prod_list sh = prod_list (node_shape a)"
proof -
  have m: "md_shape m = sh" "wrapping_product sh = wrapping_product (node_shape a)"
    using metadata_shape [OF assms] by (auto simp: reshape_meta_def like_def split: if_splits)
  moreover have "prod_list (node_shape a) \<le> usize_max"
    using metadata_child_count [OF assms, of a] by simp
  moreover have "prod_list sh \<le> usize_max" using metadata_valid_count [OF assms] m(1) by simp
  ultimately show ?thesis by (simp add: wrapping_product_mod)
qed

lemma permute_meta_Ok:
  "permute_meta a dims = Ok t \<longleftrightarrow>
    length dims = length (node_shape a) \<and> (\<forall>d \<in> set dims. d < length (node_shape a)) \<and> distinct dims \<and>
    t = (map ((!) (node_shape a)) dims, node_dtype a, node_device a)"
proof -
  let ?repeats = "list_ex (\<lambda>i. dims ! i \<in> set (take i dims)) [1..<length dims]"
  have dup: "?repeats \<longleftrightarrow> \<not> distinct dims"
  proof -
    have "distinct dims" if "\<forall>i \<in> {1..<length dims}. dims ! i \<notin> set (take i dims)"
      unfolding distinct_conv_nth
    proof (intro allI impI)
      fix i j assume ij: "i < length dims" "j < length dims" "i \<noteq> j"
      have "dims ! p \<noteq> dims ! q" if "p < q" "q < length dims" for p q
        using that \<open>\<forall>i \<in> {1..<length dims}. _ i\<close> by (fastforce simp: in_set_conv_nth)
      with ij show "dims ! i \<noteq> dims ! j" by (metis linorder_neqE_nat)
    qed
    moreover have "dims ! i \<notin> set (take i dims)" if "distinct dims" "i < length dims" for i
      using that by (auto simp: in_set_conv_nth distinct_conv_nth)
    ultimately show ?thesis by (auto simp: list_ex_iff)
  qed
  have "traverse (\<lambda>d. at (node_shape a) d Ok) dims = Ok out \<longleftrightarrow> out = map ((!) (node_shape a)) dims"
    if "\<forall>d \<in> set dims. d < length (node_shape a)" for out
    using that by (auto simp: traverse_Ok outcome_iff list_eq_iff_nth_eq)
  moreover have "list_ex (\<lambda>d. d \<ge> length (node_shape a)) dims \<longleftrightarrow> \<not> (\<forall>d \<in> set dims. d < length (node_shape a))"
    unfolding list_ex_iff by (meson not_le)
  ultimately show ?thesis
    unfolding permute_meta_def Let_def dup by (auto simp: outcome_iff)
qed

lemma permuted_mset:
  assumes "distinct dims" "length dims = length sh" "\<forall>d \<in> set dims. d < length sh"
  shows "mset (map ((!) sh) dims) = mset sh"
proof -
  have "set dims = {..<length sh}"
    using assms by (metis card_subset_eq distinct_card finite_lessThan card_lessThan lessThan_iff subsetI)
  then have "mset dims = mset [0..<length sh]"
    using assms(1) by (metis atLeast_upt distinct_upt set_eq_iff_mset_eq_distinct)
  then have "mset (map ((!) sh) dims) = mset (map ((!) sh) [0..<length sh])" by simp
  then show ?thesis by (simp add: map_nth)
qed

lemma concat_dims:
  assumes "n \<le> length sa" "length sb = length sa" "dim < length sa"
  shows "fold_outcome (concat_dim sa sb dim) sa [0..<n] = Ok sh \<longleftrightarrow>
    (\<forall>i < n. i \<noteq> dim \<longrightarrow> sa ! i = sb ! i) \<and>
    sh = (if dim < n then sa[dim := wrapping_add (sa ! dim) (sb ! dim)] else sa)"
  using assms(1)
proof (induction n arbitrary: sh)
  case (Suc n)
  have step: "concat_dim sa sb dim sh n = Ok sh' \<longleftrightarrow>
      (if n = dim then sh' = sh[n := wrapping_add (sh ! n) (sb ! n)] else sa ! n = sb ! n \<and> sh' = sh)"
    if "length sh = length sa" for sh sh'
    using Suc.prems assms that by (auto simp: concat_dim_def outcome_iff)
  have "fold_outcome (concat_dim sa sb dim) sa [0..<Suc n] = Ok sh \<longleftrightarrow>
      (\<exists>s. fold_outcome (concat_dim sa sb dim) sa [0..<n] = Ok s \<and> concat_dim sa sb dim s n = Ok sh)"
    by (auto simp: fold_outcome_append outcome_iff)
  also have "\<dots> \<longleftrightarrow> (\<forall>i < Suc n. i \<noteq> dim \<longrightarrow> sa ! i = sb ! i) \<and>
      sh = (if dim < Suc n then sa[dim := wrapping_add (sa ! dim) (sb ! dim)] else sa)"
    using Suc.IH Suc.prems by (auto simp: step less_Suc_eq)
  finally show ?case .
qed auto

lemma concat_meta_Ok:
  "concat_meta a b dim = Ok t \<longleftrightarrow>
    node_dtype a = node_dtype b \<and> length (node_shape a) = length (node_shape b) \<and>
    dim < length (node_shape a) \<and>
    (\<forall>i < length (node_shape a). i \<noteq> dim \<longrightarrow> node_shape a ! i = node_shape b ! i) \<and>
    t = ((node_shape a)[dim := wrapping_add (node_shape a ! dim) (node_shape b ! dim)],
         node_dtype a, node_device a)"
proof (cases "node_dtype a = node_dtype b \<and> length (node_shape b) = length (node_shape a) \<and> dim < length (node_shape a)")
  case True
  then show ?thesis
    using concat_dims [OF order_refl, of "node_shape b" "node_shape a" dim]
    by (auto simp: concat_meta_def Let_def and_then_Ok require_same_dtype_def like_Ok)
next
  case False
  then show ?thesis
    by (auto simp: concat_meta_def Let_def outcome_iff require_same_dtype_def split: if_splits)
qed

lemma prod_list_update:
  "i < length xs \<Longrightarrow> prod_list (xs[i := x]) = x * (prod_list (take i xs) * prod_list (drop (Suc i) xs))"
  for x :: nat
  by (simp add: upd_conv_take_nth_drop)

lemma prod_list_split:
  "i < length xs \<Longrightarrow> prod_list xs = xs ! i * (prod_list (take i xs) * prod_list (drop (Suc i) xs))"
  for xs :: "nat list"
  using prod_list_update [of i xs "xs ! i"] by simp

lemma agree_outside:
  assumes "length a = length b" "dim < length a" "\<forall>i < length a. i \<noteq> dim \<longrightarrow> a ! i = b ! i"
  shows "take dim a = take dim b" "drop (Suc dim) a = drop (Suc dim) b"
  using assms by (auto intro!: nth_equalityI)

lemma concat_count:
  assumes "metadata slots (Shape (Concat a b dim)) = Ok m"
  shows "prod_list (md_shape m) mod (usize_max + 1) =
    (prod_list (node_shape a) + prod_list (node_shape b)) mod (usize_max + 1)"
proof -
  let ?a = "node_shape a" and ?b = "node_shape b"
  have ok: "length ?a = length ?b" "dim < length ?a" "\<forall>i < length ?a. i \<noteq> dim \<longrightarrow> ?a ! i = ?b ! i"
      "md_shape m = ?a[dim := wrapping_add (?a ! dim) (?b ! dim)]"
    using metadata_shape [OF assms] by (simp_all add: concat_meta_Ok)
  define rest where "rest = prod_list (take dim ?a) * prod_list (drop (Suc dim) ?a)"
  have "prod_list ?a = ?a ! dim * rest" "prod_list ?b = ?b ! dim * rest"
    using prod_list_split [of dim ?a] prod_list_split [of dim ?b] ok agree_outside [OF ok(1-3)]
    by (simp_all add: rest_def)
  moreover have "prod_list (md_shape m) = wrapping_add (?a ! dim) (?b ! dim) * rest"
    using ok by (simp add: prod_list_update rest_def)
  ultimately show ?thesis
    by (simp only: wrapping_add_def mod_mult_left_eq distrib_right)
qed

section \<open>Views and broadcasting in the runtime\<close>

lemma padded_dim_aligned: "length a \<le> r \<Longrightarrow> i < r \<Longrightarrow> padded_dim a r i = Ok (aligned_dim a r i)"
  by (simp add: padded_dim_eq aligned_dim_def)

text \<open>The compiler and the runtime agree on the shape of a broadcast.\<close>

lemma broadcast_shapes_runtime:
  "broadcast_shapes a b = Ok out \<longleftrightarrow> broadcast_shape a b = (Ok out :: (nat list, 'e) outcome)"
proof -
  define r where "r = max (length a) (length b)"
  let ?a = "aligned_dim a r" and ?b = "aligned_dim b r"
  have "broadcast_shapes a b = Ok out \<longleftrightarrow>
      length out = r \<and> (\<forall>i < r. (?a i = ?b i \<or> ?a i = 1 \<or> ?b i = 1) \<and> out ! i = max (?a i) (?b i))"
    unfolding broadcast_shapes_def Let_def r_def [symmetric]
    by (auto simp: traverse_Ok padded_dim_aligned r_def outcome_iff)
  also have "\<dots> \<longleftrightarrow> broadcast_shape a b = (Ok out :: (nat list, 'e) outcome)"
    unfolding broadcast_shape_eq Let_def r_def [symmetric]
    by (auto simp: list_eq_iff_nth_eq)
  finally show ?thesis .
qed

lemma broadcast_to_meta_Ok:
  "broadcast_to_meta a sh = Ok t \<longleftrightarrow>
    broadcastable (node_shape a) sh \<and> t = (sh, node_dtype a, node_device a)"
  unfolding broadcast_to_meta_def broadcastable_def Let_def
  by (auto simp: and_then_Ok each_outcome_Ok ball_enumerate at_Ok add.commute)

section \<open>Properties\<close>

lemma moved_elements_parts:
  shows "metadata slots (Shape (Reshape a sh)) = Ok m \<Longrightarrow>
      md_shape m = sh \<and> prod_list sh = prod_list (node_shape a)"
    and "metadata slots (Shape (Permute a dims)) = Ok m \<Longrightarrow>
      mset (md_shape m) = mset (node_shape a) \<and> md_shape m = map ((!) (node_shape a)) dims"
    and "metadata slots (Shape (Concat a b dim)) = Ok m \<Longrightarrow>
      prod_list (md_shape m) mod (usize_max + 1) =
        (prod_list (node_shape a) + prod_list (node_shape b)) mod (usize_max + 1)"
proof -
  show "md_shape m = sh \<and> prod_list sh = prod_list (node_shape a)"
    if "metadata slots (Shape (Reshape a sh)) = Ok m" using reshape_count [OF that] .
  show "mset (md_shape m) = mset (node_shape a) \<and> md_shape m = map ((!) (node_shape a)) dims"
    if "metadata slots (Shape (Permute a dims)) = Ok m"
    using metadata_shape [OF that] permuted_mset [of dims "node_shape a"] by (simp add: permute_meta_Ok)
  show "prod_list (md_shape m) mod (usize_max + 1) =
      (prod_list (node_shape a) + prod_list (node_shape b)) mod (usize_max + 1)"
    if "metadata slots (Shape (Concat a b dim)) = Ok m" using concat_count [OF that] .
qed


definition dense_metadata :: "nat list \<Rightarrow> node_metadata" where
  "dense_metadata sh = \<lparr>md_shape = sh, md_dtype = F32, md_device = Cpu 0, md_storage = metadata_unconstrained\<rparr>"

lemma reshape_example:
  "metadata slots (Shape (Reshape input_node [6, 128])) = Ok (dense_metadata [6, 128])"
  by (simp add: inference_defs validation_defs reshape_meta_def wrapping_product_def wrapping_mul_def
      same_device_def dense_metadata_def like_def)

lemma permute_example:
  "metadata slots (Shape (Permute input_node [1, 0])) = Ok (dense_metadata [256, 3])"
proof -
  have "permute_meta input_node [1, 0] = Ok ([256, 3], F32, Cpu 0)"
    by (simp add: permute_meta_Ok input_node_def)
  then show ?thesis
    by (simp add: inference_defs validation_defs same_device_def dense_metadata_def)
qed

lemma concat_example:
  "metadata slots (Shape (Concat input_node input_node 0)) = Ok (dense_metadata [6, 256])"
proof -
  have "concat_meta input_node input_node 0 = Ok ([6, 256], F32, Cpu 0)"
    by (simp add: concat_meta_Ok input_node_def wrapping_add_def usize_max_def)
  then show ?thesis
    by (simp add: inference_defs validation_defs same_device_def dense_metadata_def)
qed


lemma inferred_shapes_refine_runtime_parts:
  assumes "layout_wf l" and "shape l = node_shape a"
  shows "broadcast_shapes sa sb = Ok out \<longleftrightarrow> broadcast_shape sa sb = (Ok out :: (nat list, 'e) outcome)"
    and "permute_meta a dims = Ok (sh, d, device) \<Longrightarrow>
      \<exists>v. permute l dims = (Ok v :: (layout, 'e) outcome) \<and> shape v = sh"
    and "broadcast_to_meta a sh = Ok (sh, d, device) \<Longrightarrow>
      \<exists>v. broadcast_to l sh = (Ok v :: (layout, 'e) outcome) \<and> shape v = sh"
proof -
  show "broadcast_shapes sa sb = Ok out \<longleftrightarrow> broadcast_shape sa sb = (Ok out :: (nat list, 'e) outcome)"
    by (rule broadcast_shapes_runtime)
  show "\<exists>v. permute l dims = (Ok v :: (layout, 'e) outcome) \<and> shape v = sh"
    if "permute_meta a dims = Ok (sh, d, device)"
    using that assms by (auto simp: permute_meta_Ok permute_Ok layout_wf_def rank_def)
  show "\<exists>v. broadcast_to l sh = (Ok v :: (layout, 'e) outcome) \<and> shape v = sh"
    if "broadcast_to_meta a sh = Ok (sh, d, device)"
    using that assms by (auto simp: broadcast_to_meta_Ok broadcast_to_eq)
qed



text \<open>
  The bounds of a slice are not checked against the operand: inference accepts the slice
  \<open>0..10\<close> of a dimension of length 3 and gives it length 10, and the view that the compiler then
  takes panics.
\<close>

theorem slice_bounds_unchecked:
  "metadata slots (Shape (Slice input_node [(0, 10, 1), (0, 256, 1)])) = Ok (dense_metadata [10, 256]) \<and>
   narrow \<lparr>shape = node_shape input_node, strides = [256, 1], offset = 0\<rparr> 0 0 10 =
     (Panic :: (layout, unit) outcome)"
proof
  have "slice_meta input_node [(0, 10, 1), (0, 256, 1)] = Ok ([10, 256], F32, Cpu 0)"
    by (simp add: slice_meta_def slice_dim_eq input_node_def like_def)
  then show "metadata slots (Shape (Slice input_node [(0, 10, 1), (0, 256, 1)])) = Ok (dense_metadata [10, 256])"
    by (simp add: inference_defs validation_defs same_device_def dense_metadata_def)
qed (simp add: narrow_def wrapping_add_def input_node_def usize_max_def)

end
