(* ===== verification/GraphCopies.thy ===== *)
theory GraphCopies
  imports ShapeLaws
begin

text \<open>
  \<open>remap_children\<close> and shape inference: copying the operands of a kind does not change what is
  inferred for it, family by family.
\<close>

section \<open>Copies of a graph\<close>

definition same_type :: "node \<Rightarrow> node \<Rightarrow> bool" where
  "same_type x y \<longleftrightarrow> node_shape x = node_shape y \<and> node_dtype x = node_dtype y \<and>
     node_device x = node_device y \<and> node_storage x = node_storage y"

text \<open>
  A function that copies nodes: types are kept, and the kind of a copy is rebuilt by
  \<open>remap_children\<close> over nodes of the same types.
\<close>

definition copy_of :: "node \<Rightarrow> node \<Rightarrow> bool" where
  "copy_of y x \<longleftrightarrow> same_type y x \<and>
     (\<exists>h. (\<forall>d. same_type (h d) d) \<and> node_kind y = remap_children h (node_kind x))"

definition copies :: "(node \<Rightarrow> node) \<Rightarrow> bool" where
  "copies f \<longleftrightarrow> (\<forall>x. copy_of (f x) x)"

lemma same_type_simps:
  assumes "same_type y x"
  shows "node_shape y = node_shape x" "node_dtype y = node_dtype x"
    "node_device y = node_device x" "node_storage y = node_storage x"
    "typed_as y = typed_as x" "like sh y = like sh x" "node_value_spec y = node_value_spec x"
  using assms by (auto simp: same_type_def typed_as_def like_def node_value_spec_def)

lemma copy_simps:
  assumes "copies f"
  shows "node_shape (f x) = node_shape x" "node_dtype (f x) = node_dtype x"
    "node_device (f x) = node_device x" "node_storage (f x) = node_storage x"
    "typed_as (f x) = typed_as x" "like sh (f x) = like sh x" "node_value_spec (f x) = node_value_spec x"
  using assms same_type_simps [of "f x" x] by (simp_all add: copies_def copy_of_def)

lemma copy_kind:
  assumes "copies f"
  obtains h where "\<And>d. same_type (h d) d" "node_kind (f x) = map_kind h (node_kind x)"
  using assms unfolding copies_def copy_of_def remap_is_map by blast

lemmas pair_checks = scalar_aware_binary_dtype_def require_same_dtype_def conv_check_def sdpa_check_def
  kda_operand_def kda_check_def head_ce_check_def short_conv_check_def packed_operand_def optimizer_check_def

lemma index_meta_copy: "copies f \<Longrightarrow> index_meta (map_index_kind f k) = index_meta k"
  by (cases k) (simp_all add: copy_simps dim_removed_def top_k_meta_def cumsum_meta_def index_select_meta_def
      scatter_add_meta_def gather_meta_def cross_entropy_meta_def position_embedding_meta_def
      last_token_row_meta_def Let_def cong: if_cong)

lemma pick_map: "(\<And>d. same_type (h d) d) \<Longrightarrow> pick op (map h xs) i = pick op xs i"
  by (simp add: pick_def nth_opt_def same_type_simps split: option.split)

lemma is_sdpa_map [simp]: "is_sdpa (map_kind f k) = is_sdpa k"
  by (cases k rule: is_sdpa.cases) simp_all

lemma is_sdpa_copy: "copies f \<Longrightarrow> is_sdpa (node_kind (f x)) = is_sdpa (node_kind x)"
  using copy_kind [of f x] by (metis is_sdpa_map)

lemma out_metas_copy:
  assumes "copies f"
  shows "sdpa_backward_out_meta (f src) i = sdpa_backward_out_meta src i"
    "kda_backward_out_meta (f src) i = kda_backward_out_meta src i"
    "head_ce_backward_out_meta (f src) i = head_ce_backward_out_meta src i"
    "layer_norm_backward_out_meta (f src) i = layer_norm_backward_out_meta src i"
proof -
  obtain h where h: "\<And>d. same_type (h d) d" "node_kind (f src) = map_kind h (node_kind src)"
    using copy_kind [OF assms] by blast
  note picks = pick_map [OF h(1), of _ "[_, _, _]"] pick_map [OF h(1), of _ "[_, _, _, _, _]"]
  show "sdpa_backward_out_meta (f src) i = sdpa_backward_out_meta src i"
    "kda_backward_out_meta (f src) i = kda_backward_out_meta src i"
    "head_ce_backward_out_meta (f src) i = head_ce_backward_out_meta src i"
    "layer_norm_backward_out_meta (f src) i = layer_norm_backward_out_meta src i"
    using picks
    by (auto simp: sdpa_backward_out_meta_def kda_backward_out_meta_def head_ce_backward_out_meta_def
        layer_norm_backward_out_meta_def copy_simps [OF assms] h(2) same_type_simps [OF h(1)]
        split: kind.split attention_kind.split layer_kind.split)
qed

lemma attention_checks_copy:
  assumes "copies f"
  shows "sdpa_check op (f q) (f k) (f v) = sdpa_check op q k v"
    "kda_check op (f q) (f k) (f v) (f d) (f b) = kda_check op q k v d b"
    "short_conv_check op (f x) (f w) = short_conv_check op x w"
  unfolding sdpa_check_def kda_check_def kda_operand_def short_conv_check_def
  by (simp_all add: copy_simps [OF assms] Let_def cong: if_cong)

lemma attention_meta_copy: "copies f \<Longrightarrow> attention_meta (map_attention_kind f k) = attention_meta k"
  by (cases k) (simp_all add: copy_simps is_sdpa_copy attention_checks_copy out_metas_copy sdpa_meta_def
      sdpa_backward_meta_def kv_attention_meta_def kda_backward_meta_def short_conv_backward_meta_def
      rotary_meta_def rotary_explicit_meta_def rotary_positions_bad_def rotary_backward_meta_def Let_def cong: if_cong)

lemma optimizer_check_copy:
  "copies f \<Longrightarrow> optimizer_check op (f p) (map f ts) (map f ss) = optimizer_check op p ts ss"
  by (simp add: optimizer_check_def copy_simps list_ex_iff Let_def cong: if_cong)

lemma optional_operand_copy:
  assumes "copies f"
  shows "quantized_linear_meta (f x) (f w) (map_option f b) = quantized_linear_meta x w b"
    "rms_norm_meta (f x) (map_option f b) = rms_norm_meta x b"
  by (cases b; simp add: copy_simps [OF assms] quantized_linear_meta_def rms_norm_meta_def
      packed_operand_def cong: if_cong)+

lemma layer_meta_copy:
  assumes "copies f"
  shows "layer_meta (map_layer_kind f k) = layer_meta k"
  using optimizer_check_copy [OF assms, of _ _ "[_, _, _]" "[_, _, _]"]
    optimizer_check_copy [OF assms, of _ _ "[_, _]" "[_, _]"]
  by (cases k) (simp_all add: copy_simps [OF assms] out_metas_copy [OF assms] head_ce_check_def
      head_ce_backward_meta_def layer_norm_meta_def require_same_dtype_def
      layer_norm_backward_meta_def linear_meta_def expert_rows_meta_def optional_operand_copy [OF assms]
      quantized_embedding_meta_def packed_operand_def output_index_def Let_def cong: if_cong split: option.split)

lemma conv_meta_copy: "copies f \<Longrightarrow> conv_meta (map_conv_kind f k) = conv_meta k"
  by (cases k) (simp_all add: copy_simps conv_check_def conv1d_meta_def conv2d_meta_def
      conv_transpose1d_meta_def conv_transpose2d_meta_def conv_backward_w_meta_def Let_def cong: if_cong)

lemma shape_meta_copy: "copies f \<Longrightarrow> shape_meta (map_shape_kind f k) = shape_meta k"
  by (cases k) (simp_all add: copy_simps require_same_dtype_def reshape_meta_def permute_meta_def
      slice_meta_def concat_meta_def broadcast_to_meta_def matmul_meta_def square_meta_def solve_meta_def Let_def cong: if_cong)

lemma kind_meta_copy: "copies f \<Longrightarrow> kind_meta (map_kind f k) = kind_meta k"
  by (cases k) (simp_all add: copy_simps index_meta_copy attention_meta_copy layer_meta_copy conv_meta_copy
      shape_meta_copy arith_meta_def compare_meta_def where_meta_def scalar_aware_binary_dtype_def Let_def cong: if_cong)

lemma is_quantized_op_map [simp]: "is_quantized_op (map_kind f k) = is_quantized_op k"
  by (cases k rule: is_quantized_op.cases) simp_all

lemma kind_storage_map [simp]: "kind_storage (map_kind f k) = kind_storage k"
  by (cases k rule: kind_storage.cases) simp_all

lemma check_operands_copy:
  assumes "copies f"
  shows "each_outcome (check_operand (map_kind f k)) (enumerate n (map f xs)) =
    each_outcome (check_operand k) (enumerate n xs)"
  by (induction xs arbitrary: n) (simp_all add: check_operand_def copy_simps [OF assms])

lemma metadata_copy:
  assumes "copies f"
  shows "metadata slots (remap_children f k) = metadata slots k"
proof -
  have "list_ex (\<lambda>child. \<not> same_device (node_device child) device) (map f xs) =
      list_ex (\<lambda>child. \<not> same_device (node_device child) device) xs" for device xs
    by (simp add: list_ex_iff copy_simps [OF assms])
  then have "operation_metadata (remap_children f k) = operation_metadata k"
    by (simp add: operation_metadata_def remap_is_map kind_meta_copy [OF assms]
        node_children_remap [unfolded remap_is_map] cong: if_cong)
  moreover have "(\<exists>slot. remap_children f k = Source (Leaf slot)) \<longleftrightarrow> (\<exists>slot. k = Source (Leaf slot))"
    by (cases k) simp_all
  ultimately show ?thesis
    by (auto simp: metadata_eq node_children_remap [unfolded remap_is_map] check_operands_copy [OF assms]
        remap_is_map)
qed

lemma copy_of_refl: "copy_of x x"
proof -
  have "node_kind x = remap_children (\<lambda>d. d) (node_kind x)" by (simp add: remap_is_map kind.map_ident)
  then show ?thesis unfolding copy_of_def by (intro conjI exI [of _ "\<lambda>d. d"]) (simp_all add: same_type_def)
qed

text \<open>Only the operands themselves have to be copied.\<close>

lemma metadata_operand_copies:
  assumes "\<forall>c \<in> set (node_children k). copy_of (f c) c"
  shows "metadata slots (remap_children f k) = metadata slots k"
proof -
  define f' where "f' c = (if c \<in> set_kind k then f c else c)" for c
  have "copies f'" using assms copy_of_refl by (simp add: copies_def f'_def set_node_children)
  moreover have "remap_children f k = remap_children f' k"
    unfolding remap_is_map by (rule kind.map_cong) (simp_all add: f'_def)
  ultimately show ?thesis by (simp add: metadata_copy)
qed

text \<open>Fresh identifiers for a whole graph, as a copying pass hands them out.\<close>

primrec renumber :: "(nat \<Rightarrow> nat) \<Rightarrow> node \<Rightarrow> node" where
  "renumber g (Node i sh d device storage k) = Node (g i) sh d device storage (map_kind (renumber g) k)"

lemma copies_renumber: "copies (renumber g)"
proof -
  have types: "same_type (renumber g x) x" for x by (cases x) (simp add: same_type_def)
  moreover have "node_kind (renumber g x) = remap_children (renumber g) (node_kind x)" for x
    by (cases x) (simp add: remap_is_map)
  ultimately show ?thesis unfolding copies_def copy_of_def by blast
qed

text \<open>
  C39. Shape inference depends on operands through their types and the structure of their kinds
  only, never on identifiers: rebuilding a kind with \<open>remap_children\<close> over copies of its operands
  infers the same metadata, refuses with the same error, and panics in the same cases.
\<close>

theorem metadata_of_copies: "copies f \<Longrightarrow> metadata slots (remap_children f k) = metadata slots k"
  by (rule metadata_copy)

lemma metadata_of_copies_witness:
  "metadata (\<lambda>_. None) (remap_children (renumber (\<lambda>i. i + 10)) (node_kind linear_node)) =
   metadata (\<lambda>_. None) (node_kind linear_node)"
  by (rule metadata_of_copies [OF copies_renumber])

end
