(* ===== verification/Schedule.thy ===== *)
theory Schedule
  imports ShapeLaws
begin

text \<open>
  The dense index of a semantic graph (\<open>crates/compiler/src/schedule.rs\<close>): discovery of the graph by
  an iterative depth-first search, and the tables built from its postorder.

  The search is refined to a recursive postorder; the tables are characterised for graphs whose
  nodes are identified by their identifiers (\<open>coherent\<close>), which every graph built by \<open>Node::new\<close> is.
  The hash tables are maps; a stack grows at its head.
\<close>

section \<open>Discovery\<close>

record discovery =
  disc_visited :: "nat set"
  disc_order :: "node list"
  disc_children :: "nat \<Rightarrow> nat list option"
  disc_edges :: nat

abbreviation operands :: "node \<Rightarrow> node list" where
  "operands x \<equiv> node_children (node_kind x)"

definition no_discovery :: discovery where
  "no_discovery = \<lparr>disc_visited = {}, disc_order = [], disc_children = Map.empty, disc_edges = 0\<rparr>"

definition expanded :: "node \<Rightarrow> discovery \<Rightarrow> discovery" where
  "expanded x d = d\<lparr>disc_visited := insert (node_id x) (disc_visited d),
     disc_edges := min usize_max (disc_edges d + length (operands x)),
     disc_children := (disc_children d)(node_id x \<mapsto> map node_id (operands x))\<rparr>"

definition emitted :: "node \<Rightarrow> discovery \<Rightarrow> discovery" where
  "emitted x d = d\<lparr>disc_order := disc_order d @ [x]\<rparr>"

text \<open>The loop ends because the unfolding of a graph is finite.\<close>

function work :: "node \<Rightarrow> nat" where
  "work x = 2 + sum_list (map work (operands x))"
  by auto
termination
  by (relation "measure size") (auto dest: node_children_size)

declare work.simps [simp del]

lemma work_more: "Suc (sum_list (map work (operands x))) < work x"
  by (simp add: work.simps [of x])

lemma work_pos [simp]: "0 < work x"
  using work_more [of x] by simp

fun stack_work :: "node \<times> bool \<Rightarrow> nat" where
  "stack_work (x, processed) = (if processed then 1 else work x)"

function discover_loop :: "(node \<times> bool) list \<Rightarrow> discovery \<Rightarrow> discovery" where
  "discover_loop [] d = d"
| "discover_loop ((x, processed) # stack) d =
     (if processed then discover_loop stack (emitted x d)
      else if node_id x \<in> disc_visited d then discover_loop stack d
      else discover_loop (map (\<lambda>child. (child, False)) (operands x) @ (x, True) # stack) (expanded x d))"
  by pat_completeness auto
termination
  by (relation "measure (\<lambda>(stack, _). sum_list (map stack_work stack))")
    (use work_more in \<open>auto simp: comp_def dest: Suc_lessD\<close>)

definition discover_graph :: "node list \<Rightarrow> discovery" where
  "discover_graph roots = discover_loop (map (\<lambda>root. (root, False)) roots) no_discovery"

section \<open>Slots\<close>

record program_slot =
  slot_scalar :: bool
  slot_shape :: "nat list"
  slot_dtype :: dtype
  slot_storage :: storage_metadata
  slot_device :: device

datatype index_error = TooManyNodes | SlotConflict nat | SlotUnused nat

definition declared_slot :: "node \<Rightarrow> (nat \<times> program_slot) option" where
  "declared_slot x = (case node_kind x of
     Source (Input slot sh d device storage) \<Rightarrow>
       Some (slot, \<lparr>slot_scalar = False, slot_shape = sh, slot_dtype = d, slot_storage = storage,
         slot_device = device\<rparr>)
   | Source (ScalarInput slot d device) \<Rightarrow>
       Some (slot, \<lparr>slot_scalar = True, slot_shape = [], slot_dtype = d, slot_storage = metadata_dense,
         slot_device = device\<rparr>)
   | _ \<Rightarrow> None)"

definition declare_slot ::
    "program_slot option list \<times> (nat \<times> nat) list \<Rightarrow> node \<Rightarrow>
      (program_slot option list \<times> (nat \<times> nat) list, index_error) outcome" where
  "declare_slot s x = (case s of (slots, leaves) \<Rightarrow>
     (case declared_slot x of
        None \<Rightarrow> Ok (slots, leaves)
      | Some (slot, declared) \<Rightarrow>
          let leaves = leaves @ [(node_id x, slot)];
              slots = slots @ replicate (slot + 1 - length slots) None in
          (case slots ! slot of
             Some existing \<Rightarrow>
               if existing \<noteq> declared then Err (SlotConflict slot) else Ok (slots, leaves)
           | None \<Rightarrow> Ok (slots[slot := Some declared], leaves))))"

definition collect_program_slots ::
    "node list \<Rightarrow> (program_slot list \<times> (nat \<times> nat) list, index_error) outcome" where
  "collect_program_slots order =
     and_then (fold_outcome declare_slot ([], []) order) (\<lambda>(slots, leaves).
     and_then (traverse (\<lambda>(slot, declared). ok_or (SlotUnused slot) declared) (enumerate 0 slots)) (\<lambda>out.
     Ok (out, leaves)))"

section \<open>The index\<close>

datatype random_kind = RandnSource | UniformSource

record random_source =
  random_id :: nat
  random_node :: nat
  random_provenance :: nat
  random_source_kind :: random_kind

record generated_binding =
  bound_node :: nat
  bound_id :: nat
  bound_slot :: nat
  bound_shape :: "nat list"
  bound_dtype :: dtype
  bound_storage :: storage_metadata
  bound_device :: device

record graph_index =
  index_order :: "node list"
  index_storage :: "storage_metadata list"
  dense_by_node :: "nat \<Rightarrow> nat option"
  index_children_of :: "nat list list"
  index_consumers :: "nat list list"
  index_roots :: "nat list"
  index_slots :: "program_slot list"
  index_slot_leaves :: "(nat \<times> nat) list"
  index_leaves :: "generated_binding list"
  index_random :: "nat option list"
  index_random_order :: "random_source list"
  index_builds :: nat
  index_node_visits :: nat
  index_edge_visits :: nat

definition assign_dense ::
    "(nat \<Rightarrow> nat option) \<Rightarrow> nat \<times> node \<Rightarrow> (nat \<Rightarrow> nat option, index_error) outcome" where
  "assign_dense table entry = (case entry of (index, x) \<Rightarrow>
     and_then (ok_or TooManyNodes (u32_try_from index)) (\<lambda>dense. Ok (table(node_id x \<mapsto> dense))))"

definition push_consumer :: "nat \<Rightarrow> nat list list \<Rightarrow> nat \<Rightarrow> (nat list list, index_error) outcome" where
  "push_consumer parent consumers child =
     and_then (expect (nth_opt consumers child)) (\<lambda>known. Ok (consumers[child := known @ [parent]]))"

definition index_edges ::
    "(nat \<Rightarrow> nat option) \<Rightarrow> (nat \<Rightarrow> nat list option) \<times> nat list list \<times> nat list list \<Rightarrow> nat \<times> node \<Rightarrow>
      ((nat \<Rightarrow> nat list option) \<times> nat list list \<times> nat list list, index_error) outcome" where
  "index_edges dense s entry = (case s of (table, children, consumers) \<Rightarrow> (case entry of (index, x) \<Rightarrow>
     and_then (expect (u32_try_from index)) (\<lambda>parent.
     let found = (case table (node_id x) of None \<Rightarrow> [] | Some ids \<Rightarrow> ids) in
     and_then (traverse (\<lambda>child. expect (dense child)) found) (\<lambda>dense_children.
     and_then (fold_outcome (push_consumer parent) consumers dense_children) (\<lambda>consumers.
     Ok (table(node_id x := None), children @ [dense_children], consumers))))))"

definition random_kind_of :: "node \<Rightarrow> random_kind option" where
  "random_kind_of x = (case node_kind x of
     Source (Fill Randn _ _ _) \<Rightarrow> Some RandnSource
   | Source (Uniform _ _ _ _ _) \<Rightarrow> Some UniformSource
   | _ \<Rightarrow> None)"

definition leaf_slot_of :: "node \<Rightarrow> nat option" where
  "leaf_slot_of x = (case node_kind x of Source (Leaf slot) \<Rightarrow> Some slot | _ \<Rightarrow> None)"

definition index_sources ::
    "generated_binding list \<times> nat option list \<times> random_source list \<Rightarrow> nat \<times> node \<Rightarrow>
      (generated_binding list \<times> nat option list \<times> random_source list, index_error) outcome" where
  "index_sources s entry = (case s of (leaves, random, random_order) \<Rightarrow> (case entry of (index, x) \<Rightarrow>
     and_then (expect (u32_try_from index)) (\<lambda>dense.
     (case leaf_slot_of x of
        Some slot \<Rightarrow>
          Ok (leaves @ [\<lparr>bound_node = dense, bound_id = node_id x, bound_slot = slot,
                bound_shape = node_shape x, bound_dtype = node_dtype x, bound_storage = node_storage x,
                bound_device = node_device x\<rparr>], random, random_order)
      | None \<Rightarrow>
          (case random_kind_of x of
             Some k \<Rightarrow>
               and_then (expect (u32_try_from (length random_order))) (\<lambda>source.
               Ok (leaves, random[index := Some source],
                   random_order @ [\<lparr>random_id = source, random_node = dense,
                     random_provenance = node_id x, random_source_kind = k\<rparr>]))
           | None \<Rightarrow> Ok (leaves, random, random_order))))))"

definition new_index :: "node list \<Rightarrow> (graph_index, index_error) outcome" where
  "new_index roots =
     (let found = discover_graph roots; order = disc_order found in
      and_then (fold_outcome assign_dense Map.empty (enumerate 0 order)) (\<lambda>dense.
      and_then (fold_outcome (index_edges dense)
          (disc_children found, [], replicate (length order) []) (enumerate 0 order))
        (\<lambda>(_, children, consumers).
      and_then (traverse (\<lambda>root. expect (dense (node_id root))) roots) (\<lambda>dense_roots.
      and_then (collect_program_slots order) (\<lambda>(slots, slot_leaves).
      and_then (traverse (\<lambda>(x, slot). and_then (expect (dense x)) (\<lambda>leaf. Ok (leaf, slot))) slot_leaves)
        (\<lambda>dense_leaves.
      and_then (fold_outcome index_sources ([], replicate (length order) None, []) (enumerate 0 order))
        (\<lambda>(leaves, random, random_order).
      Ok \<lparr>index_order = order, index_storage = map node_storage order, dense_by_node = dense,
          index_children_of = children, index_consumers = consumers, index_roots = dense_roots,
          index_slots = slots, index_slot_leaves = dense_leaves, index_leaves = leaves,
          index_random = random, index_random_order = random_order, index_builds = 1,
          index_node_visits = length order, index_edge_visits = disc_edges found\<rparr>)))))))"

definition dense_id :: "graph_index \<Rightarrow> nat \<Rightarrow> nat option" where
  "dense_id g x = dense_by_node g x"

definition index_node :: "graph_index \<Rightarrow> nat \<Rightarrow> node option" where
  "index_node g i = nth_opt (index_order g) i"

definition index_value_spec :: "graph_index \<Rightarrow> nat \<Rightarrow> value_spec option" where
  "index_value_spec g i = (case index_node g i of None \<Rightarrow> None | Some x \<Rightarrow>
     (case nth_opt (index_storage g) i of None \<Rightarrow> None | Some storage \<Rightarrow>
        Some \<lparr>semantic_dtype = node_dtype x, logical_shape = node_shape x,
          value_storage_spec = as_spec storage\<rparr>))"

definition children_of :: "graph_index \<Rightarrow> nat \<Rightarrow> nat list option" where
  "children_of g i = nth_opt (index_children_of g) i"

definition consumers_of :: "graph_index \<Rightarrow> nat \<Rightarrow> nat list option" where
  "consumers_of g i = nth_opt (index_consumers g) i"

section \<open>The recursive postorder\<close>

function visit :: "node \<Rightarrow> discovery \<Rightarrow> discovery" where
  "visit x d =
     (if node_id x \<in> disc_visited d then d
      else emitted x (fold visit (operands x) (expanded x d)))"
  by auto
termination
  by (relation "measure (\<lambda>(x, _). size x)") (auto dest: node_children_size)

declare visit.simps [simp del]

lemma discover_loop_visit:
  "discover_loop (map (\<lambda>x. (x, False)) xs @ stack) d = discover_loop stack (fold visit xs d)"
proof (induction "sum_list (map work xs)" arbitrary: xs stack d rule: less_induct)
  case less
  show ?case
  proof (cases xs)
    case (Cons x ys)
    have tail: "discover_loop (map (\<lambda>x. (x, False)) ys @ stack) d' = discover_loop stack (fold visit ys d')" for d'
      by (rule less) (use work_more [of x] in \<open>simp add: Cons\<close>)
    have inner: "discover_loop (map (\<lambda>x. (x, False)) (operands x) @ stack') d' =
        discover_loop stack' (fold visit (operands x) d')" for stack' d'
      by (rule less) (use work_more [of x] in \<open>simp add: Cons\<close>)
    show ?thesis
      by (simp add: Cons tail inner visit.simps [of x d])
  qed simp
qed

lemma discover_is_postorder: "discover_graph roots = fold visit roots no_discovery"
  using discover_loop_visit [of roots "[]" no_discovery] by (simp add: discover_graph_def)

section \<open>Invariant of the search\<close>

text \<open>\<open>grey\<close> holds the nodes that are expanded and not yet emitted.\<close>

definition edge_count :: "node list \<Rightarrow> nat" where
  "edge_count xs = sum_list (map (\<lambda>x. length (operands x)) xs)"

definition search_inv :: "node set \<Rightarrow> discovery \<Rightarrow> bool" where
  "search_inv grey d \<longleftrightarrow>
     disc_visited d = node_id ` (set (disc_order d) \<union> grey) \<and>
     distinct (map node_id (disc_order d)) \<and>
     node_id ` grey \<inter> node_id ` set (disc_order d) = {} \<and>
     dom (disc_children d) = disc_visited d \<and>
     (\<forall>x \<in> set (disc_order d). disc_children d (node_id x) = Some (map node_id (operands x)) \<and>
        node_id ` set (operands x) \<subseteq> disc_visited d)"

definition search_grows :: "discovery \<Rightarrow> discovery \<Rightarrow> bool" where
  "search_grows d d' \<longleftrightarrow> disc_visited d \<subseteq> disc_visited d' \<and>
     (\<forall>i \<in> disc_visited d. disc_children d' i = disc_children d i) \<and>
     (\<exists>new. disc_order d' = disc_order d @ new \<and>
        disc_edges d' = min usize_max (disc_edges d + edge_count new))"

lemma search_grows_trans: "search_grows a b \<Longrightarrow> search_grows b c \<Longrightarrow> search_grows a c"
  by (fastforce simp: search_grows_def edge_count_def)

lemma search_grows_refl: "disc_edges d \<le> usize_max \<Longrightarrow> search_grows d d"
  by (auto simp: search_grows_def edge_count_def)

lemma search_grows_edges: "search_grows d d' \<Longrightarrow> disc_edges d' \<le> usize_max"
  by (auto simp: search_grows_def)

lemma fold_visit_search:
  assumes "\<And>x grey d. x \<in> set xs \<Longrightarrow> search_inv grey d \<Longrightarrow> disc_edges d \<le> usize_max \<Longrightarrow>
      search_inv grey (visit x d) \<and> search_grows d (visit x d) \<and> node_id x \<in> disc_visited (visit x d)"
    and "search_inv grey d" "disc_edges d \<le> usize_max"
  shows "search_inv grey (fold visit xs d) \<and> search_grows d (fold visit xs d) \<and>
    node_id ` set xs \<subseteq> disc_visited (fold visit xs d)"
  using assms
proof (induction xs arbitrary: d)
  case (Cons x xs)
  have v: "search_inv grey (visit x d)" "search_grows d (visit x d)" "node_id x \<in> disc_visited (visit x d)"
    using Cons.prems by auto
  have "search_inv grey (fold visit xs (visit x d)) \<and> search_grows (visit x d) (fold visit xs (visit x d)) \<and>
      node_id ` set xs \<subseteq> disc_visited (fold visit xs (visit x d))"
    by (rule Cons.IH) (use Cons.prems(1) v search_grows_edges [OF v(2)] in auto)
  then have rest: "search_inv grey (fold visit xs (visit x d))" "search_grows (visit x d) (fold visit xs (visit x d))"
      "node_id ` set xs \<subseteq> disc_visited (fold visit xs (visit x d))"
    by blast+
  have "node_id x \<in> disc_visited (fold visit xs (visit x d))"
    using v(3) rest(2) by (auto simp: search_grows_def)
  then show ?case using rest(1,3) search_grows_trans [OF v(2) rest(2)] by simp
qed (simp add: search_grows_refl)

lemma expanded_search:
  assumes "search_inv grey d" "node_id x \<notin> disc_visited d"
  shows "search_inv (insert x grey) (expanded x d)"
proof -
  have "disc_visited d = node_id ` (set (disc_order d) \<union> grey)"
    using assms(1) by (simp add: search_inv_def)
  then have other: "node_id y \<noteq> node_id x" if "y \<in> set (disc_order d) \<union> grey" for y
    using assms(2) that by (metis imageI)
  have known: "node_id ` set (operands y) \<subseteq> disc_visited d" if "y \<in> set (disc_order d)" for y
    using assms(1) that unfolding search_inv_def by blast
  have "node_id ` insert x grey \<inter> node_id ` set (disc_order d) = {}"
    using assms(1) other by (force simp: search_inv_def)
  then show ?thesis
    using assms(1) other known by (simp add: search_inv_def expanded_def subset_insertI2)
qed

lemma emitted_search:
  assumes "search_inv (insert x grey) d" "node_id x \<notin> node_id ` grey"
    "disc_children d (node_id x) = Some (map node_id (operands x))"
    "node_id ` set (operands x) \<subseteq> disc_visited d"
  shows "search_inv grey (emitted x d)"
proof -
  have v: "disc_visited d = node_id ` (set (disc_order d) \<union> insert x grey)"
    and i: "distinct (map node_id (disc_order d))"
      "node_id ` insert x grey \<inter> node_id ` set (disc_order d) = {}"
    and c: "dom (disc_children d) = disc_visited d"
      "\<forall>x \<in> set (disc_order d). disc_children d (node_id x) = Some (map node_id (operands x)) \<and>
        node_id ` set (operands x) \<subseteq> disc_visited d"
    using assms(1) unfolding search_inv_def by blast+
  show ?thesis
    unfolding search_inv_def
  proof (intro conjI)
    show "disc_visited (emitted x d) = node_id ` (set (disc_order (emitted x d)) \<union> grey)"
      by (simp add: emitted_def v)
    show "distinct (map node_id (disc_order (emitted x d)))"
      "node_id ` grey \<inter> node_id ` set (disc_order (emitted x d)) = {}"
      using i assms(2) by (auto simp: emitted_def)
    show "dom (disc_children (emitted x d)) = disc_visited (emitted x d)" using c(1) by (simp add: emitted_def)
    show "\<forall>y \<in> set (disc_order (emitted x d)).
        disc_children (emitted x d) (node_id y) = Some (map node_id (operands y)) \<and>
        node_id ` set (operands y) \<subseteq> disc_visited (emitted x d)"
      using c(2) assms(3,4) by (simp add: emitted_def)
  qed
qed

lemma visit_search:
  assumes "search_inv grey d" "disc_edges d \<le> usize_max"
  shows "search_inv grey (visit x d) \<and> search_grows d (visit x d) \<and> node_id x \<in> disc_visited (visit x d)"
  using assms
proof (induction x arbitrary: grey d rule: measure_induct_rule [of size])
  case (less x)
  show ?case
  proof (cases "node_id x \<in> disc_visited d")
    case True
    then show ?thesis using less.prems by (simp add: visit.simps [of x] search_grows_refl)
  next
    case False
    let ?e = "expanded x d"
    let ?f = "fold visit (operands x) ?e"
    have "search_inv (insert x grey) ?f \<and> search_grows ?e ?f \<and> node_id ` set (operands x) \<subseteq> disc_visited ?f"
      by (rule fold_visit_search)
        (use less.IH node_children_size expanded_search [OF less.prems(1) False] in \<open>auto simp: expanded_def\<close>)
    then have f: "search_inv (insert x grey) ?f" "search_grows ?e ?f"
        "node_id ` set (operands x) \<subseteq> disc_visited ?f" by auto
    have own: "disc_children ?f (node_id x) = Some (map node_id (operands x))"
      using f(2) by (simp add: search_grows_def expanded_def)
    have "node_id x \<notin> node_id ` grey" using False less.prems(1) by (auto simp: search_inv_def)
    then have "search_inv grey (emitted x ?f)"
      using emitted_search [OF f(1) _ own f(3)] by simp
    moreover have "search_grows d (emitted x ?f)"
      using f(2) False by (fastforce simp: search_grows_def emitted_def expanded_def edge_count_def)
    moreover have "node_id x \<in> disc_visited (emitted x ?f)"
      using f(2) by (auto simp: search_grows_def emitted_def expanded_def)
    ultimately show ?thesis using False by (simp add: visit.simps [of x])
  qed
qed

lemma discover_search:
  "search_inv {} (discover_graph roots) \<and> node_id ` set roots \<subseteq> disc_visited (discover_graph roots) \<and>
   disc_edges (discover_graph roots) = min usize_max (edge_count (disc_order (discover_graph roots)))"
proof -
  have "search_inv {} no_discovery" by (simp add: search_inv_def no_discovery_def)
  then have "search_inv {} (discover_graph roots) \<and> search_grows no_discovery (discover_graph roots) \<and>
      node_id ` set roots \<subseteq> disc_visited (discover_graph roots)"
    unfolding discover_is_postorder
    by (intro fold_visit_search visit_search) (auto simp: no_discovery_def)
  then show ?thesis by (auto simp: search_grows_def no_discovery_def)
qed

section \<open>Coherent graphs\<close>

inductive reachable :: "node list \<Rightarrow> node \<Rightarrow> bool" for roots where
  root: "x \<in> set roots \<Longrightarrow> reachable roots x"
| operand: "reachable roots x \<Longrightarrow> y \<in> set (operands x) \<Longrightarrow> reachable roots y"

definition coherent :: "node list \<Rightarrow> bool" where
  "coherent roots \<longleftrightarrow> inj_on node_id {x. reachable roots x}"

definition topological :: "node list \<Rightarrow> bool" where
  "topological xs \<longleftrightarrow> (\<forall>i < length xs. set (operands (xs ! i)) \<subseteq> set (take i xs))"

lemma topological_Nil [simp]: "topological []"
  by (simp add: topological_def)

lemma topological_snoc: "topological (xs @ [x]) \<longleftrightarrow> topological xs \<and> set (operands x) \<subseteq> set xs"
  by (auto simp: topological_def nth_append less_Suc_eq)

lemma topological_closed: "topological xs \<Longrightarrow> x \<in> set xs \<Longrightarrow> set (operands x) \<subseteq> set xs"
  unfolding topological_def in_set_conv_nth by (meson set_take_subset subset_trans)

definition ordered :: "node list \<Rightarrow> node set \<Rightarrow> discovery \<Rightarrow> bool" where
  "ordered roots grey d \<longleftrightarrow> search_inv grey d \<and> disc_edges d \<le> usize_max \<and> topological (disc_order d) \<and>
     (\<forall>x \<in> set (disc_order d) \<union> grey. reachable roots x)"

lemma ordered_member:
  assumes "coherent roots" "ordered roots grey d" "reachable roots x" "\<forall>g \<in> grey. size x < size g"
    "node_id x \<in> disc_visited d"
  shows "x \<in> set (disc_order d)"
proof -
  have "node_id x \<in> node_id ` (set (disc_order d) \<union> grey)"
    using assms(2,5) by (simp add: ordered_def search_inv_def)
  then obtain y where y: "y \<in> set (disc_order d) \<union> grey" "node_id y = node_id x"
    by (metis imageE)
  then have "y = x" using assms(1-3) by (auto simp: coherent_def ordered_def inj_on_def)
  with y(1) assms(4) show ?thesis by auto
qed

lemma fold_visit_ordered:
  assumes "\<And>x d. x \<in> set xs \<Longrightarrow> ordered roots grey d \<Longrightarrow> ordered roots grey (visit x d)"
    and "ordered roots grey d"
  shows "ordered roots grey (fold visit xs d)"
  using assms by (induction xs arbitrary: d) auto

lemma visit_ordered:
  assumes "coherent roots" "ordered roots grey d" "reachable roots x" "\<forall>g \<in> grey. size x < size g"
  shows "ordered roots grey (visit x d)"
  using assms
proof (induction x arbitrary: grey d rule: measure_induct_rule [of size])
  case (less x)
  show ?case
  proof (cases "node_id x \<in> disc_visited d")
    case True
    then show ?thesis using less.prems by (simp add: visit.simps [of x])
  next
    case False
    let ?e = "expanded x d"
    let ?f = "fold visit (operands x) ?e"
    have smaller: "\<forall>g \<in> insert x grey. size y < size g" if "y \<in> set (operands x)" for y
      using node_children_size [OF that] less.prems(4) by auto
    have e: "ordered roots (insert x grey) ?e"
      using less.prems expanded_search [of grey d x] False by (auto simp: ordered_def expanded_def)
    have f: "ordered roots (insert x grey) ?f"
    proof (rule fold_visit_ordered [OF _ e])
      show "ordered roots (insert x grey) (visit y d')"
        if "y \<in> set (operands x)" "ordered roots (insert x grey) d'" for y d'
        by (rule less.IH [OF node_children_size [OF that(1)] less.prems(1) that(2)
              reachable.operand [OF less.prems(3) that(1)] smaller [OF that(1)]])
    qed
    have "node_id ` set (operands x) \<subseteq> disc_visited ?f"
      using fold_visit_search [of "operands x" "insert x grey" ?e] visit_search e
      by (auto simp: ordered_def)
    then have "set (operands x) \<subseteq> set (disc_order ?f)"
      using ordered_member [OF less.prems(1) f] smaller less.prems(3) by (auto intro: reachable.operand)
    then have "topological (disc_order (visit x d))"
      using f False by (simp add: visit.simps [of x] emitted_def topological_snoc ordered_def)
    moreover have "\<forall>y \<in> set (disc_order (visit x d)) \<union> grey. reachable roots y"
      using f False by (auto simp: visit.simps [of x] emitted_def ordered_def)
    ultimately show ?thesis
      using visit_search [of grey d x] less.prems(2) search_grows_edges by (auto simp: ordered_def)
  qed
qed

lemma discover_ordered:
  assumes "coherent roots"
  shows "topological (disc_order (discover_graph roots))"
    and "set (disc_order (discover_graph roots)) = {x. reachable roots x}"
proof -
  let ?d = "discover_graph roots"
  have "ordered roots {} no_discovery"
    by (simp add: ordered_def search_inv_def no_discovery_def)
  then have d: "ordered roots {} ?d"
    unfolding discover_is_postorder
    by (intro fold_visit_ordered visit_ordered [OF assms]) (auto intro: reachable.root)
  then show top: "topological (disc_order ?d)" by (simp add: ordered_def)
  have "x \<in> set (disc_order ?d)" if "reachable roots x" for x
    using that
  proof induction
    case (root x)
    then show ?case
      using ordered_member [OF assms d reachable.root [OF root]] discover_search [of roots] by auto
  next
    case (operand x y)
    then show ?case using topological_closed [OF top] by auto
  qed
  then show "set (disc_order ?d) = {x. reachable roots x}"
    using d by (auto simp: ordered_def)
qed

section \<open>Tables\<close>

lemma fold_enumerate_upto:
  "fold_outcome f s (enumerate 0 xs) = fold_outcome (\<lambda>s k. f s (k, xs ! k)) s [0..<length xs]"
proof -
  have "fold_outcome f s (map (\<lambda>k. (k, xs ! k)) ks) = fold_outcome (\<lambda>s k. f s (k, xs ! k)) s ks" for s ks
    by (induction ks arbitrary: s) simp_all
  moreover have "enumerate 0 xs = map (\<lambda>k. (k, xs ! k)) [0..<length xs]"
    by (intro nth_equalityI) (simp_all add: nth_enumerate_eq)
  ultimately show ?thesis by metis
qed

lemma fold_enumerate_case:
  assumes "P 0 s"
    and "\<And>k s. k < length xs \<Longrightarrow> P k s \<Longrightarrow>
      case f s (k, xs ! k) of Ok s' \<Rightarrow> P (Suc k) s' | Err e \<Rightarrow> E e | Panic \<Rightarrow> False"
  shows "case fold_outcome f s (enumerate 0 xs) of Ok s' \<Rightarrow> P (length xs) s' | Err e \<Rightarrow> E e | Panic \<Rightarrow> False"
  unfolding fold_enumerate_upto by (rule fold_outcome_upto [of P]) (use assms in auto)

lemma fold_enumerate_Ok:
  assumes "P 0 s"
    and "\<And>k s. k < length xs \<Longrightarrow> P k s \<Longrightarrow> \<exists>s'. f s (k, xs ! k) = Ok s' \<and> P (Suc k) s'"
  obtains t where "fold_outcome f s (enumerate 0 xs) = Ok t" "P (length xs) t"
proof -
  have "case fold_outcome f s (enumerate 0 xs) of Ok s' \<Rightarrow> P (length xs) s' | Err e \<Rightarrow> False | Panic \<Rightarrow> False"
    by (rule fold_enumerate_case [of P]) (use assms in \<open>force split: outcome.split\<close>)+
  then show thesis using that by (auto split: outcome.splits)
qed

subsection \<open>Dense identifiers\<close>

definition dense_ok :: "node list \<Rightarrow> (nat \<Rightarrow> nat option) \<Rightarrow> bool" where
  "dense_ok order dense \<longleftrightarrow> dom dense = node_id ` set order \<and>
     (\<forall>i < length order. dense (node_id (order ! i)) = Some i)"

lemma dense_ok_Some:
  "dense_ok order dense \<Longrightarrow> dense i = Some j \<Longrightarrow> j < length order \<and> node_id (order ! j) = i"
proof -
  assume ok: "dense_ok order dense" and i: "dense i = Some j"
  then have "i \<in> node_id ` set order" by (auto simp: dense_ok_def)
  then obtain k where "k < length order" "node_id (order ! k) = i" by (auto simp: in_set_conv_nth)
  with ok i show ?thesis by (auto simp: dense_ok_def)
qed

lemma assign_dense_case:
  assumes "distinct (map node_id order)"
  shows "case fold_outcome assign_dense Map.empty (enumerate 0 order) of
      Ok dense \<Rightarrow> length order \<le> u32_max + 1 \<and> dense_ok order dense
    | Err e \<Rightarrow> e = TooManyNodes \<and> u32_max + 1 < length order
    | Panic \<Rightarrow> False"
proof -
  let ?P = "\<lambda>k dense. k \<le> u32_max + 1 \<and> dom dense = node_id ` set (take k order) \<and>
    (\<forall>i < k. dense (node_id (order ! i)) = Some i)"
  let ?E = "\<lambda>e. e = TooManyNodes \<and> u32_max + 1 < length order"
  have "case fold_outcome assign_dense Map.empty (enumerate 0 order) of
      Ok dense \<Rightarrow> ?P (length order) dense | Err e \<Rightarrow> ?E e | Panic \<Rightarrow> False"
  proof (rule fold_enumerate_case [of ?P])
    fix k and dense :: "nat \<Rightarrow> nat option"
    assume k: "k < length order" and P: "?P k dense"
    have "node_id (order ! i) \<noteq> node_id (order ! k)" if "i < k" for i
      using assms k that nth_eq_iff_index_eq [OF assms, of i k] by simp
    then show "case assign_dense dense (k, order ! k) of
        Ok dense \<Rightarrow> ?P (Suc k) dense | Err e \<Rightarrow> ?E e | Panic \<Rightarrow> False"
      using k P by (auto simp: assign_dense_def u32_try_from_def ok_or_def take_Suc_conv_app_nth less_Suc_eq)
  qed simp
  then show ?thesis by (auto simp: dense_ok_def split: outcome.splits)
qed

subsection \<open>Edges\<close>

lemma push_consumers:
  assumes "\<forall>c \<in> set cs. c < length consumers"
  shows "fold_outcome (push_consumer parent) consumers cs =
    Ok (map (\<lambda>j. consumers ! j @ replicate (count_list cs j) parent) [0..<length consumers])"
  using assms
proof (induction cs arbitrary: consumers)
  case (Cons c cs)
  have "push_consumer parent consumers c = Ok (consumers[c := consumers ! c @ [parent]])"
    using Cons.prems by (simp add: push_consumer_def expect_def nth_opt_def)
  then show ?case
    using Cons by (auto simp: nth_list_update intro!: map_cong)
qed (simp add: map_nth)

definition dense_operands :: "(nat \<Rightarrow> nat option) \<Rightarrow> node \<Rightarrow> nat list" where
  "dense_operands dense x = map (\<lambda>c. the (dense (node_id c))) (operands x)"

definition consumers_at :: "nat list list \<Rightarrow> nat \<Rightarrow> nat list" where
  "consumers_at children j =
     concat (map (\<lambda>i. replicate (count_list (children ! i) j) i) [0..<length children])"

lemma index_edges_Ok:
  assumes dense: "dense_ok order dense" and small: "length order \<le> u32_max + 1"
    and ids: "distinct (map node_id order)"
    and table: "\<forall>x \<in> set order. table (node_id x) = Some (map node_id (operands x)) \<and>
      node_id ` set (operands x) \<subseteq> dom dense"
  obtains table' where "fold_outcome (index_edges dense) (table, [], replicate (length order) [])
      (enumerate 0 order) = Ok (table', map (dense_operands dense) order,
        map (consumers_at (map (dense_operands dense) order)) [0..<length order])"
proof -
  let ?n = "length order" and ?d = "\<lambda>k. map (dense_operands dense) (take k order)"
  let ?P = "\<lambda>k (table, children, consumers).
    (\<forall>j. k \<le> j \<and> j < ?n \<longrightarrow> table (node_id (order ! j)) = Some (map node_id (operands (order ! j)))) \<and>
    children = ?d k \<and> consumers = map (consumers_at (?d k)) [0..<?n]"
  show thesis
  proof (rule fold_enumerate_Ok [of ?P "(table, [], replicate ?n [])" order "index_edges dense"])
    show "?P 0 (table, [], replicate ?n [])"
      using table by (auto simp: consumers_at_def intro: nth_equalityI)
  next
    fix k s assume k: "k < ?n" and "?P k s"
    then obtain table where s: "s = (table, ?d k, map (consumers_at (?d k)) [0..<?n])"
      and t: "\<forall>j. k \<le> j \<and> j < ?n \<longrightarrow> table (node_id (order ! j)) = Some (map node_id (operands (order ! j)))"
      by auto
    let ?x = "order ! k" and ?cs = "dense_operands dense (order ! k)"
    have dom: "node_id ` set (operands ?x) \<subseteq> dom dense"
      using table assms(4) k by auto
    have found: "traverse (\<lambda>child. expect (dense child)) (map node_id (operands ?x)) =
        (Ok ?cs :: (nat list, index_error) outcome)"
      using dom by (auto simp: traverse_Ok dense_operands_def expect_Ok domD subset_iff)
    have cs: "\<forall>c \<in> set ?cs. c < ?n"
      using dom dense_ok_Some [OF dense] by (force simp: dense_operands_def)
    have next_d: "?d (Suc k) = ?d k @ [?cs]" using k by (simp add: take_Suc_conv_app_nth)
    have more: "consumers_at (?d k @ [?cs]) j = consumers_at (?d k) j @ replicate (count_list ?cs j) k" for j
      using k by (auto simp: consumers_at_def nth_append intro!: arg_cong [of _ _ concat])
    have push: "fold_outcome (push_consumer k) (map (consumers_at (?d k)) [0..<?n]) ?cs =
        Ok (map (consumers_at (?d k @ [?cs])) [0..<?n])"
      using cs by (simp add: push_consumers more)
    have "expect (u32_try_from k) = (Ok k :: (nat, index_error) outcome)"
      using k small by (simp add: u32_try_from_def expect_def)
    then have "index_edges dense s (k, ?x) = Ok (table(node_id ?x := None), ?d k @ [?cs],
        map (consumers_at (?d k @ [?cs])) [0..<?n])"
      using t k by (simp add: s index_edges_def found push)
    moreover have "node_id (order ! j) \<noteq> node_id ?x" if "Suc k \<le> j" "j < ?n" for j
      using nth_eq_iff_index_eq [OF ids, of j k] that k by simp
    ultimately show "\<exists>s'. index_edges dense s (k, ?x) = Ok s' \<and> ?P (Suc k) s'"
      using t by (auto simp: next_d)
  next
    fix t assume "fold_outcome (index_edges dense) (table, [], replicate ?n []) (enumerate 0 order) = Ok t"
      "?P ?n t"
    then show thesis by (intro that [of "fst t"]) auto
  qed
qed

subsection \<open>Slots\<close>

definition slot_uses :: "node list \<Rightarrow> (nat \<times> nat) list" where
  "slot_uses order = concat (map (\<lambda>x. case declared_slot x of
     None \<Rightarrow> [] | Some (slot, _) \<Rightarrow> [(node_id x, slot)]) order)"

lemma slot_uses_snoc:
  "slot_uses (order @ [x]) = slot_uses order @
     (case declared_slot x of None \<Rightarrow> [] | Some (slot, _) \<Rightarrow> [(node_id x, slot)])"
  by (simp add: slot_uses_def)

definition declares :: "node list \<Rightarrow> nat \<Rightarrow> program_slot \<Rightarrow> bool" where
  "declares order slot d \<longleftrightarrow> (\<exists>x \<in> set order. declared_slot x = Some (slot, d))"

definition slots_so_far :: "node list \<Rightarrow> program_slot option list \<Rightarrow> bool" where
  "slots_so_far order slots \<longleftrightarrow>
     (\<forall>slot d. declares order slot d \<longleftrightarrow> slot < length slots \<and> slots ! slot = Some d) \<and>
     (slots \<noteq> [] \<longrightarrow> last slots \<noteq> None)"

definition slot_conflict :: "node list \<Rightarrow> nat \<Rightarrow> bool" where
  "slot_conflict order slot \<longleftrightarrow> (\<exists>d d'. declares order slot d \<and> declares order slot d' \<and> d \<noteq> d')"

definition skipped :: "node list \<Rightarrow> nat \<Rightarrow> bool" where
  "skipped order slot \<longleftrightarrow> (\<forall>d. \<not> declares order slot d) \<and> (\<exists>above > slot. \<exists>d. declares order above d)"

lemma declares_snoc:
  "declares (order @ [x]) slot d \<longleftrightarrow> declares order slot d \<or> declared_slot x = Some (slot, d)"
  by (auto simp: declares_def)

lemma declare_slot_step:
  assumes "slots_so_far order slots" "declared_slot x = Some (slot, d)"
  shows "case declare_slot (slots, leaves) x of
      Ok (slots', leaves') \<Rightarrow> slots_so_far (order @ [x]) slots' \<and> leaves' = leaves @ [(node_id x, slot)]
    | Err e \<Rightarrow> e = SlotConflict slot \<and> slot_conflict (order @ [x]) slot
    | Panic \<Rightarrow> False"
proof -
  let ?wide = "slots @ replicate (slot + 1 - length slots) None"
  have len: "slot < length ?wide" by simp
  have wide: "declares order s e \<longleftrightarrow> s < length ?wide \<and> ?wide ! s = Some e" for s e
    using assms(1) by (auto simp: slots_so_far_def nth_append)
  show ?thesis
  proof (cases "?wide ! slot")
    case None
    have "declares (order @ [x]) s e \<longleftrightarrow>
        s < length (?wide[slot := Some d]) \<and> ?wide[slot := Some d] ! s = Some e" for s e
      using None len assms(2) unfolding declares_snoc wide by (auto simp: nth_list_update)
    moreover have "last (?wide[slot := Some d]) \<noteq> None"
    proof (cases "slot < length slots")
      case True
      then have "slots \<noteq> []" by auto
      with True show ?thesis using assms(1) by (auto simp: slots_so_far_def last_list_update)
    next
      case False
      then have wide_len: "length ?wide = Suc slot" by simp
      then have "?wide[slot := Some d] \<noteq> []" by (metis length_greater_0_conv length_list_update zero_less_Suc)
      then have "last (?wide[slot := Some d]) = Some d"
        unfolding last_conv_nth [OF \<open>?wide[slot := Some d] \<noteq> []\<close>] length_list_update wide_len
        using len by simp
      then show ?thesis by simp
    qed
    ultimately have "slots_so_far (order @ [x]) (?wide[slot := Some d])"
      by (simp add: slots_so_far_def)
    then show ?thesis using None assms(2) by (simp add: declare_slot_def Let_def)
  next
    case (Some e)
    then have "slot < length slots" by (auto simp: nth_append split: if_splits)
    have "declares order slot e" using wide Some len by blast
    then have "slot_conflict (order @ [x]) slot" if "e \<noteq> d"
      using that assms(2) by (auto simp: slot_conflict_def declares_snoc)
    moreover have "slots_so_far (order @ [x]) slots" if "e = d"
      using assms that \<open>declares order slot e\<close> by (auto simp: slots_so_far_def declares_snoc)
    ultimately show ?thesis
      using Some assms(2) \<open>slot < length slots\<close> by (simp add: declare_slot_def Let_def Suc_leI)
  qed
qed

lemma slot_conflict_mono: "slot_conflict order slot \<Longrightarrow> slot_conflict (order @ rest) slot"
  by (auto simp: slot_conflict_def declares_def)

lemma declare_slots_case:
  "case fold_outcome declare_slot ([], []) order of
      Ok (slots, leaves) \<Rightarrow> slots_so_far order slots \<and> leaves = slot_uses order
    | Err e \<Rightarrow> \<exists>slot. e = SlotConflict slot \<and> slot_conflict order slot
    | Panic \<Rightarrow> False"
proof (induction order rule: rev_induct)
  case (snoc x order)
  show ?case
  proof (cases "fold_outcome declare_slot ([], []) order")
    case (Ok s)
    obtain slots leaves where s: "s = (slots, leaves)" by (cases s)
    have so_far: "slots_so_far order slots" "leaves = slot_uses order" using snoc Ok s by auto
    have fold: "fold_outcome declare_slot ([], []) (order @ [x]) = declare_slot (slots, leaves) x"
      using Ok by (cases "declare_slot s x") (simp_all add: fold_outcome_append s)
    show ?thesis
    proof (cases "declared_slot x")
      case None
      then have "slots_so_far (order @ [x]) slots"
        using so_far(1) by (simp add: slots_so_far_def declares_snoc)
      with None show ?thesis
        using so_far(2) unfolding fold by (simp add: declare_slot_def slot_uses_snoc)
    next
      case (Some p)
      obtain slot d where p: "p = (slot, d)" by (cases p)
      show ?thesis
        using declare_slot_step [OF so_far(1) Some [unfolded p], of leaves] so_far(2) Some p
        by (auto simp: fold slot_uses_snoc split: outcome.splits)
    qed
  next
    case (Err e)
    then show ?thesis using snoc by (auto simp: fold_outcome_append intro: slot_conflict_mono)
  next
    case Panic
    then show ?thesis using snoc by simp
  qed
qed (simp add: slots_so_far_def declares_def slot_uses_def)

lemma collect_program_slots_case:
  "case collect_program_slots order of
      Ok (slots, leaves) \<Rightarrow>
        (\<forall>slot d. declares order slot d \<longleftrightarrow> slot < length slots \<and> slots ! slot = d) \<and>
        leaves = slot_uses order
    | Err (SlotConflict slot) \<Rightarrow> slot_conflict order slot
    | Err (SlotUnused slot) \<Rightarrow> skipped order slot
    | Err TooManyNodes \<Rightarrow> False
    | Panic \<Rightarrow> False"
proof (cases "fold_outcome declare_slot ([], []) order")
  case (Ok s)
  obtain slots leaves where s: "s = (slots, leaves)" by (cases s)
  have so_far: "slots_so_far order slots" "leaves = slot_uses order"
    using declare_slots_case [of order] Ok s by auto
  let ?check = "\<lambda>(slot, declared). ok_or (SlotUnused slot) declared"
  have total: "traverse ?check (enumerate 0 slots) \<noteq> Panic"
    by (rule traverse_Panic) (auto simp: outcome_iff)
  show ?thesis
  proof (cases "traverse ?check (enumerate 0 slots)")
    case (Ok out)
    then have "length out = length slots" "\<forall>i < length slots. slots ! i = Some (out ! i)"
      by (auto simp: traverse_Ok nth_enumerate_eq outcome_iff)
    then show ?thesis
      using so_far Ok \<open>fold_outcome _ _ _ = _\<close>
      by (simp add: collect_program_slots_def s slots_so_far_def cong: conj_cong)
  next
    case (Err e)
    then obtain slot where slot: "slot < length slots" "slots ! slot = None" "e = SlotUnused slot"
      using traverse_Err [OF Err] by (auto simp: outcome_iff)
    have ne: "slots \<noteq> []" using slot(1) by auto
    then obtain d where d: "slots ! (length slots - 1) = Some d"
      using so_far(1) by (auto simp: slots_so_far_def last_conv_nth)
    then have "slot \<noteq> length slots - 1" using slot(2) by auto
    then have "declares order (length slots - 1) d" "slot < length slots - 1"
      using so_far(1) ne slot(1) d by (simp_all add: slots_so_far_def)
    moreover have "\<not> declares order slot d'" for d'
      using so_far(1) slot by (simp add: slots_so_far_def)
    ultimately have "skipped order slot" by (auto simp: skipped_def)
    then show ?thesis
      using Err slot(3) \<open>fold_outcome _ _ _ = _\<close> by (simp add: collect_program_slots_def s)
  qed (use total in simp)
qed (use declare_slots_case [of order] in \<open>auto simp: collect_program_slots_def\<close>)

subsection \<open>Random sources\<close>

definition random_positions :: "node list \<Rightarrow> nat \<Rightarrow> nat list" where
  "random_positions order k = filter (\<lambda>j. random_kind_of (order ! j) \<noteq> None) [0..<k]"

text \<open>The draws in postorder: dense identities, the node of each, and the identity of each random node.\<close>

definition random_ok :: "node list \<Rightarrow> nat \<Rightarrow> nat option list \<Rightarrow> random_source list \<Rightarrow> bool" where
  "random_ok order k random sources \<longleftrightarrow>
     map random_node sources = random_positions order k \<and>
     map random_id sources = [0..<length sources] \<and>
     (\<forall>r \<in> set sources. random_provenance r = node_id (order ! random_node r) \<and>
        Some (random_source_kind r) = random_kind_of (order ! random_node r)) \<and>
     random = map (\<lambda>j. if j < k \<and> random_kind_of (order ! j) \<noteq> None
       then Some (length (random_positions order j)) else None) [0..<length order]"

definition leaf_bindings :: "node list \<Rightarrow> nat \<Rightarrow> generated_binding list" where
  "leaf_bindings order k = concat (map (\<lambda>j. case leaf_slot_of (order ! j) of
     None \<Rightarrow> []
   | Some slot \<Rightarrow> [\<lparr>bound_node = j, bound_id = node_id (order ! j), bound_slot = slot,
       bound_shape = node_shape (order ! j), bound_dtype = node_dtype (order ! j),
       bound_storage = node_storage (order ! j), bound_device = node_device (order ! j)\<rparr>]) [0..<k])"

lemma leaf_not_random: "leaf_slot_of x = Some slot \<Longrightarrow> random_kind_of x = None"
  by (auto simp: leaf_slot_of_def random_kind_of_def split: kind.splits source_kind.splits)

lemma random_positions_Suc:
  "random_positions order (Suc k) = random_positions order k @
     (if random_kind_of (order ! k) = None then [] else [k])"
  by (simp add: random_positions_def)

lemma random_ok_skip:
  "random_ok order k random sources \<Longrightarrow> random_kind_of (order ! k) = None \<Longrightarrow>
    random_ok order (Suc k) random sources"
  by (auto simp: random_ok_def random_positions_Suc less_Suc_eq)

lemma random_ok_draw:
  assumes "random_ok order k random sources" "random_kind_of (order ! k) = Some c" "k < length order"
  shows "random_ok order (Suc k) (random[k := Some (length sources)])
    (sources @ [\<lparr>random_id = length sources, random_node = k,
       random_provenance = node_id (order ! k), random_source_kind = c\<rparr>])"
proof -
  have "length sources = length (random_positions order k)"
    using assms(1) by (metis random_ok_def length_map)
  then have "random[k := Some (length sources)] =
      map (\<lambda>j. if j < Suc k \<and> random_kind_of (order ! j) \<noteq> None
        then Some (length (random_positions order j)) else None) [0..<length order]"
    (is "_ = ?new")
  proof (intro nth_equalityI)
    have random: "random = map (\<lambda>j. if j < k \<and> random_kind_of (order ! j) \<noteq> None
        then Some (length (random_positions order j)) else None) [0..<length order]"
      using assms(1) by (simp add: random_ok_def)
    show "length (random[k := Some (length sources)]) = length ?new" by (simp add: random)
    show "random[k := Some (length sources)] ! j = ?new ! j"
      if "j < length (random[k := Some (length sources)])" for j
      using that assms(2,3) \<open>length sources = _\<close>
      by (cases "k = j") (simp_all add: random nth_list_update less_Suc_eq)
  qed
  then show ?thesis
    using assms by (simp add: random_ok_def random_positions_Suc)
qed

lemma index_sources_Ok:
  assumes "length order \<le> u32_max + 1"
  obtains random sources where
    "fold_outcome index_sources ([], replicate (length order) None, []) (enumerate 0 order) =
      (Ok (leaf_bindings order (length order), random, sources))"
    "random_ok order (length order) random sources"
proof -
  let ?P = "\<lambda>k (leaves, random, sources). leaves = leaf_bindings order k \<and> random_ok order k random sources"
  show thesis
  proof (rule fold_enumerate_Ok [of ?P "([], replicate (length order) None, [])" order index_sources])
    show "?P 0 ([], replicate (length order) None, [])"
      by (auto simp: leaf_bindings_def random_ok_def random_positions_def intro: nth_equalityI)
  next
    fix k s assume k: "k < length order" and "?P k s"
    then obtain random sources where s: "s = (leaf_bindings order k, random, sources)"
      and r: "random_ok order k random sources" by auto
    have "length sources \<le> k"
      using r by (metis random_ok_def length_map random_positions_def length_filter_le length_upt diff_zero)
    then have small: "u32_try_from k = Some k" "u32_try_from (length sources) = Some (length sources)"
      using k assms by (simp_all add: u32_try_from_def)
    show "\<exists>s'. index_sources s (k, order ! k) = Ok s' \<and> ?P (Suc k) s'"
    proof (cases "leaf_slot_of (order ! k)")
      case None
      then have leaves: "leaf_bindings order (Suc k) = leaf_bindings order k" by (simp add: leaf_bindings_def)
      show ?thesis
      proof (cases "random_kind_of (order ! k)")
        case None
        then show ?thesis
          using \<open>leaf_slot_of _ = None\<close> random_ok_skip [OF r None] leaves small
          by (simp add: s index_sources_def expect_def)
      next
        case (Some c)
        then show ?thesis
          using \<open>leaf_slot_of _ = None\<close> random_ok_draw [OF r Some k] leaves small
          by (simp add: s index_sources_def expect_def)
      qed
    next
      case (Some slot)
      then show ?thesis
        using random_ok_skip [OF r leaf_not_random [OF Some]] small
        by (simp add: s index_sources_def expect_def leaf_bindings_def)
    qed
  next
    fix t assume "fold_outcome index_sources ([], replicate (length order) None, []) (enumerate 0 order) = Ok t"
      "?P (length order) t"
    then show thesis by (intro that [of "fst (snd t)" "snd (snd t)"]) auto
  qed
qed

section \<open>The whole index\<close>

definition index_ok :: "node list \<Rightarrow> graph_index \<Rightarrow> bool" where
  "index_ok roots g \<longleftrightarrow> (let order = index_order g; n = length order; dense = dense_by_node g in
     order = disc_order (discover_graph roots) \<and> distinct (map node_id order) \<and>
     index_storage g = map node_storage order \<and> dense_ok order dense \<and>
     index_children_of g = map (dense_operands dense) order \<and>
     index_consumers g = map (consumers_at (index_children_of g)) [0..<n] \<and>
     index_roots g = map (\<lambda>r. the (dense (node_id r))) roots \<and>
     (\<forall>slot d. declares order slot d \<longleftrightarrow> slot < length (index_slots g) \<and> index_slots g ! slot = d) \<and>
     index_slot_leaves g = map (\<lambda>(x, slot). (the (dense x), slot)) (slot_uses order) \<and>
     index_leaves g = leaf_bindings order n \<and>
     random_ok order n (index_random g) (index_random_order g) \<and>
     index_builds g = 1 \<and> index_node_visits g = n \<and>
     index_edge_visits g = min usize_max (edge_count order))"

lemma slot_uses_ids: "(x, slot) \<in> set (slot_uses order) \<Longrightarrow> x \<in> node_id ` set order"
  by (auto simp: slot_uses_def split: option.splits)

lemma new_index_case:
  "case new_index roots of
      Ok g \<Rightarrow> index_ok roots g
    | Err TooManyNodes \<Rightarrow> u32_max + 1 < length (disc_order (discover_graph roots))
    | Err (SlotConflict slot) \<Rightarrow> slot_conflict (disc_order (discover_graph roots)) slot
    | Err (SlotUnused slot) \<Rightarrow> skipped (disc_order (discover_graph roots)) slot
    | Panic \<Rightarrow> False"
proof -
  let ?found = "discover_graph roots"
  let ?order = "disc_order ?found"
  have found: "search_inv {} ?found" "node_id ` set roots \<subseteq> disc_visited ?found"
      "disc_edges ?found = min usize_max (edge_count ?order)"
    using discover_search by auto
  have visited: "disc_visited ?found = node_id ` set ?order" and ids: "distinct (map node_id ?order)"
    using found(1) by (simp_all add: search_inv_def)
  have table: "\<forall>x \<in> set ?order. disc_children ?found (node_id x) = Some (map node_id (operands x)) \<and>
      node_id ` set (operands x) \<subseteq> node_id ` set ?order"
    using found(1) unfolding search_inv_def visited by blast
  show ?thesis
  proof (cases "fold_outcome assign_dense Map.empty (enumerate 0 ?order)")
    case (Ok dense)
    have small: "length ?order \<le> u32_max + 1" and dense: "dense_ok ?order dense"
      using assign_dense_case [OF ids] Ok by auto
    have dom: "dom dense = node_id ` set ?order" using dense by (simp add: dense_ok_def)
    obtain table' where edges: "fold_outcome (index_edges dense)
        (disc_children ?found, [], replicate (length ?order) []) (enumerate 0 ?order) =
        Ok (table', map (dense_operands dense) ?order,
          map (consumers_at (map (dense_operands dense) ?order)) [0..<length ?order])"
      using index_edges_Ok [OF dense small ids] table unfolding dom by metis
    have known: "dense (node_id r) = Some (the (dense (node_id r)))" if "r \<in> set roots" for r
    proof -
      have "node_id r \<in> dom dense" using found(2) that unfolding dom visited by blast
      then show ?thesis by auto
    qed
    have roots: "traverse (\<lambda>root. expect (dense (node_id root))) roots =
        (Ok (map (\<lambda>r. the (dense (node_id r))) roots) :: (nat list, index_error) outcome)"
      by (auto simp: traverse_Ok expect_Ok intro: known [OF nth_mem])
    obtain random sources where src: "fold_outcome index_sources
        ([], replicate (length ?order) None, []) (enumerate 0 ?order) =
        Ok (leaf_bindings ?order (length ?order), random, sources)"
        "random_ok ?order (length ?order) random sources"
      using index_sources_Ok [OF small] .
    have leaves: "traverse (\<lambda>(x, slot). and_then (expect (dense x)) (\<lambda>leaf. Ok (leaf, slot))) (slot_uses ?order) =
        (Ok (map (\<lambda>(x, slot). (the (dense x), slot)) (slot_uses ?order)) :: ((nat \<times> nat) list, index_error) outcome)"
    proof -
      have "\<exists>y. dense x = Some y" if "(x, slot) \<in> set (slot_uses ?order)" for x slot
        using slot_uses_ids [OF that] dom by auto
      then show ?thesis
        by (fastforce simp: traverse_Ok outcome_iff split: prod.split dest: nth_mem)
    qed
    show ?thesis
    proof (cases "collect_program_slots ?order")
      case (Ok s)
      then show ?thesis
        using collect_program_slots_case [of ?order] leaves src found(3) ids dense
        by (cases s) (simp add: new_index_def Let_def \<open>fold_outcome assign_dense _ _ = _\<close> edges roots index_ok_def)
    next
      case (Err e)
      then show ?thesis
        using collect_program_slots_case [of ?order]
        by (cases e) (simp_all add: new_index_def Let_def \<open>fold_outcome assign_dense _ _ = _\<close> edges roots)
    next
      case Panic
      then show ?thesis using collect_program_slots_case [of ?order] by simp
    qed
  next
    case (Err e)
    then show ?thesis using assign_dense_case [OF ids] by (simp add: new_index_def Let_def)
  next
    case Panic
    then show ?thesis using assign_dense_case [OF ids] by simp
  qed
qed

lemma count_consumers:
  assumes "i < length children"
  shows "count_list (consumers_at children j) i = count_list (children ! i) j"
proof -
  have same: "count_list (replicate n x) x = n" for n and x :: nat by (induction n) simp_all
  have "count_list (concat (map (\<lambda>i. replicate (f i) i) [0..<n])) i = (if i < n then f i else 0)" for f n
    by (induction n) (auto simp: less_Suc_eq same)
  with assms show ?thesis by (simp add: consumers_at_def)
qed

lemma sorted_consumers: "sorted (consumers_at children j)"
proof -
  have "sorted (concat (map (\<lambda>i. replicate (f i) i) [0..<n]))" for f n
    by (induction n) (auto simp: sorted_append)
  then show ?thesis by (simp add: consumers_at_def)
qed

lemma nth_dense: "dense_ok order dense \<Longrightarrow> x \<in> set order \<Longrightarrow> inj_on node_id (set order) \<Longrightarrow>
    the (dense (node_id x)) < length order \<and> order ! the (dense (node_id x)) = x"
  by (auto simp: dense_ok_def in_set_conv_nth inj_on_def)

text \<open>The tables describe the graph itself when nodes are identified by their identifiers.\<close>

lemma index_ok_graph:
  assumes "index_ok roots g" "coherent roots"
  shows "set (index_order g) = {x. reachable roots x} \<and>
    (\<forall>i < length (index_order g).
       map ((!) (index_order g)) (index_children_of g ! i) = operands (index_order g ! i) \<and>
       (\<forall>c \<in> set (index_children_of g ! i). c < i)) \<and>
    map ((!) (index_order g)) (index_roots g) = roots"
proof (intro conjI allI impI ballI)
  let ?order = "index_order g"
  have order: "?order = disc_order (discover_graph roots)" and ids: "distinct (map node_id ?order)"
    and dense: "dense_ok ?order (dense_by_node g)"
    and children: "index_children_of g = map (dense_operands (dense_by_node g)) ?order"
    and roots: "index_roots g = map (\<lambda>r. the (dense_by_node g (node_id r))) roots"
    using assms(1) unfolding index_ok_def Let_def by blast+
  show set: "set ?order = {x. reachable roots x}"
    using discover_ordered [OF assms(2)] order by simp
  have top: "topological ?order" using discover_ordered(1) [OF assms(2)] order by simp
  have inj: "inj_on node_id (set ?order)" using assms(2) set by (simp add: coherent_def)
  note at = nth_dense [OF dense _ inj]
  show "map ((!) ?order) (index_roots g) = roots"
    using at set reachable.root [of _ roots] by (auto simp: roots intro!: map_idI)
  fix i assume i: "i < length ?order"
  have below: "set (operands (?order ! i)) \<subseteq> set (take i ?order)" using top i by (simp add: topological_def)
  then have in_order: "c \<in> set ?order" if "c \<in> set (operands (?order ! i))" for c
    using that by (meson in_mono set_take_subset)
  show "map ((!) ?order) (index_children_of g ! i) = operands (?order ! i)"
    using i at in_order by (auto simp: children dense_operands_def intro!: map_idI)
  fix c assume "c \<in> set (index_children_of g ! i)"
  then obtain y where y: "y \<in> set (operands (?order ! i))" "c = the (dense_by_node g (node_id y))"
    using i by (auto simp: children dense_operands_def)
  then have "y \<in> set (take i ?order)" using below by blast
  then obtain k where "k < i" "?order ! k = y"
    using i by (auto simp: in_set_conv_nth)
  moreover have "dense_by_node g (node_id (?order ! k)) = Some k"
    using dense \<open>k < i\<close> i by (simp add: dense_ok_def)
  ultimately show "c < i" using y by simp
qed

lemma reachable_built:
  assumes "\<forall>x \<in> set built. built_ok built x" "set roots \<subseteq> set built" "reachable roots x"
  shows "x \<in> set built"
  using assms(3) by induction (use assms(1,2) in \<open>auto simp: built_ok_def\<close>)

text \<open>Every graph that \<open>Node::new\<close> built from fewer than 2^64 nodes is coherent.\<close>

lemma built_coherent:
  assumes "graph_ok (built, next)" "length built \<le> usize_max + 1" "set roots \<subseteq> set built"
  shows "coherent roots"
proof -
  have "map node_id (rev built) = [0..<length built]" using assms(1,2) by (simp add: ids_ok_def)
  then have "distinct (map node_id (rev built))" by simp
  then have "inj_on node_id (set built)" by (simp add: distinct_map)
  moreover have "{x. reachable roots x} \<subseteq> set built"
    using reachable_built [of built roots] assms(1,3) by auto
  ultimately show ?thesis by (auto simp: coherent_def intro: inj_on_subset)
qed

section \<open>Properties\<close>

text \<open>
  C7. The iterative search with its explicit stack is the recursive postorder: it visits the same
  nodes, emits them in the same order, records the same edges and counts the same work.
\<close>

theorem discovery_refines_postorder: "discover_graph roots = fold visit roots no_discovery"
  by (rule discover_is_postorder)

text \<open>
  C35. Building an index always returns. It succeeds with consistent tables, or it refuses a graph of
  more than 2^32 nodes, a slot that two leaves declare differently, or a slot number that no leaf
  declares although a higher one is declared; the \<open>expect\<close>s of the code never fail.
\<close>

theorem new_index_outcome:
  "case new_index roots of
      Ok g \<Rightarrow> index_ok roots g
    | Err TooManyNodes \<Rightarrow> u32_max + 1 < length (disc_order (discover_graph roots))
    | Err (SlotConflict slot) \<Rightarrow> slot_conflict (disc_order (discover_graph roots)) slot
    | Err (SlotUnused slot) \<Rightarrow> skipped (disc_order (discover_graph roots)) slot
    | Panic \<Rightarrow> False"
  by (rule new_index_case)

lemma index_of_built_graph_parts:
  assumes "new_graph s" and "build_step\<^sup>*\<^sup>* s (built, next)" and "length built \<le> usize_max + 1"
    and "set roots \<subseteq> set built" and "new_index roots = Ok g"
  shows "distinct (index_order g) \<and> set (index_order g) = {x. reachable roots x}"
    and "i < length (index_order g) \<Longrightarrow>
      map ((!) (index_order g)) (index_children_of g ! i) = operands (index_order g ! i) \<and>
      (\<forall>c \<in> set (index_children_of g ! i). c < i)"
    and "j < length (index_order g) \<Longrightarrow> sorted (index_consumers g ! j) \<and>
      (\<forall>i < length (index_order g). count_list (index_consumers g ! j) i = count_list (index_children_of g ! i) j)"
    and "map ((!) (index_order g)) (index_roots g) = roots"
proof -
  have ok: "index_ok roots g" using new_index_case [of roots] assms(5) by simp
  have "graph_ok (built, next)" using building.reachable_inv [OF assms(1,2)] .
  note graph = index_ok_graph [OF ok built_coherent [OF this assms(3,4)]]
  show "distinct (index_order g) \<and> set (index_order g) = {x. reachable roots x}"
    using graph ok by (auto simp: index_ok_def Let_def distinct_map)
  show "map ((!) (index_order g)) (index_children_of g ! i) = operands (index_order g ! i) \<and>
      (\<forall>c \<in> set (index_children_of g ! i). c < i)" if "i < length (index_order g)"
    using graph that by blast
  have "index_consumers g = map (consumers_at (index_children_of g)) [0..<length (index_order g)]"
    "length (index_children_of g) = length (index_order g)"
    using ok by (auto simp: index_ok_def Let_def)
  then show "sorted (index_consumers g ! j) \<and>
      (\<forall>i < length (index_order g). count_list (index_consumers g ! j) i = count_list (index_children_of g ! i) j)"
    if "j < length (index_order g)"
    using that by (simp add: sorted_consumers count_consumers)
  show "map ((!) (index_order g)) (index_roots g) = roots" using graph by blast
qed

text \<open>
  C6. The index of a graph built by \<open>Node::new\<close> is a topological order of the reachable nodes. Each
  node occurs once and after its operands; the dense children of a node are its operands in order,
  duplicates included; the consumers of a node are listed in ascending order, once per use; and
  the dense roots are the roots.
\<close>

theorem index_of_built_graph:
  assumes "new_graph s" and "build_step\<^sup>*\<^sup>* s (built, next)" and "length built \<le> usize_max + 1"
    and "set roots \<subseteq> set built" and "new_index roots = Ok g"
  shows "distinct (index_order g) \<and> set (index_order g) = {x. reachable roots x} \<and>
    (\<forall>i < length (index_order g).
      map ((!) (index_order g)) (index_children_of g ! i) = operands (index_order g ! i) \<and>
      (\<forall>c \<in> set (index_children_of g ! i). c < i)) \<and>
    (\<forall>j < length (index_order g). sorted (index_consumers g ! j) \<and>
      (\<forall>i < length (index_order g). count_list (index_consumers g ! j) i = count_list (index_children_of g ! i) j)) \<and>
    map ((!) (index_order g)) (index_roots g) = roots"
  using index_of_built_graph_parts [OF assms] by simp

definition example_order :: "node list" where
  "example_order = [input_node, weight_node, linear_node]"

definition example_index :: graph_index where
  "example_index = \<lparr>index_order = example_order, index_storage = map node_storage example_order,
     dense_by_node = [0 \<mapsto> 0, 1 \<mapsto> 1, 2 \<mapsto> 2],
     index_children_of = [[], [], [0, 1]], index_consumers = [[2], [2], []], index_roots = [2, 0],
     index_slots =
       [\<lparr>slot_scalar = False, slot_shape = [3, 256], slot_dtype = F32, slot_storage = metadata_dense,
          slot_device = Cpu 0\<rparr>,
        \<lparr>slot_scalar = False, slot_shape = [2, 256], slot_dtype = F32, slot_storage = metadata_packed Q4K,
          slot_device = Cpu 0\<rparr>],
     index_slot_leaves = [(0, 0), (1, 1)], index_leaves = [], index_random = [None, None, None],
     index_random_order = [], index_builds = 1, index_node_visits = 3, index_edge_visits = 2\<rparr>"

lemma example_fields [simp]:
  "node_id input_node = 0" "node_id weight_node = 1" "node_id linear_node = 2"
  "operands input_node = []" "operands weight_node = []" "operands linear_node = [input_node, weight_node]"
  by (simp_all add: input_node_def weight_node_def linear_node_def optional_def)

lemma example_discovery:
  "discover_graph [linear_node, input_node] =
     \<lparr>disc_visited = {2, 0, 1}, disc_order = example_order,
      disc_children = [2 \<mapsto> [0, 1], 0 \<mapsto> [], 1 \<mapsto> []], disc_edges = 2\<rparr>"
  by (simp add: discover_graph_def no_discovery_def expanded_def emitted_def example_order_def usize_max_def
      insert_commute)

lemma example_slots:
  "collect_program_slots example_order = Ok (index_slots example_index, [(0, 0), (1, 1)])"
  by (simp add: collect_program_slots_def declare_slot_def declared_slot_def example_order_def
      input_node_def weight_node_def linear_node_def ok_or_def example_index_def)

lemma example_new_index: "new_index [linear_node, input_node] = Ok example_index"
proof -
  have sources: "random_kind_of x = None" "leaf_slot_of x = None" if "x \<in> set example_order" for x
    using that by (auto simp: random_kind_of_def leaf_slot_of_def example_order_def input_node_def
        weight_node_def linear_node_def)
  show ?thesis
    unfolding new_index_def Let_def example_discovery discovery.simps example_slots
    using sources
    by (simp add: assign_dense_def index_edges_def push_consumer_def index_sources_def example_index_def
        example_order_def u32_try_from_def u32_max_def ok_or_def expect_def nth_opt_def numeral_2_eq_2)
qed

lemma index_of_built_graph_witness:
  "set (index_order example_index) = {x. reachable [linear_node, input_node] x} \<and>
   map ((!) (index_order example_index)) (index_children_of example_index ! 2) = [input_node, weight_node] \<and>
   sorted (index_consumers example_index ! 0) \<and>
   map ((!) (index_order example_index)) (index_roots example_index) = [linear_node, input_node]"
proof -
  have start: "new_graph ([], 0)" "length [linear_node, weight_node, input_node] \<le> usize_max + 1"
    "set [linear_node, input_node] \<subseteq> set [linear_node, weight_node, input_node]"
    by (auto simp: new_graph_def usize_max_def)
  note graph = index_of_built_graph [OF start(1) example_built start(2,3) example_new_index]
  have "length (index_order example_index) = 3" "index_order example_index ! 2 = linear_node"
    by (simp_all add: example_index_def example_order_def)
  with graph show ?thesis by auto
qed

end
