(* ===== verification/Program.thy ===== *)
theory Program
  imports Storage
begin

text \<open>
  The calling convention of compiled programs (\<open>crates/runtime/src/program.rs\<close>, with the placements
  and buffer handles of \<open>crates/runtime/src/backend.rs\<close>): declarations, invocations, and the
  validation of an invocation against its signature, in the order of the code's checks.
\<close>

section \<open>Declarations\<close>

record placement =
  place_device :: string
  memory_space :: "string option"

definition placement_new :: "string \<Rightarrow> placement" where
  "placement_new device = \<lparr>place_device = device, memory_space = None\<rparr>"

definition with_memory_space :: "string \<Rightarrow> string \<Rightarrow> placement" where
  "with_memory_space device space = \<lparr>place_device = device, memory_space = Some space\<rparr>"

datatype binding_layout = Exact layout | ContiguousLayout | ZeroOffsetContiguous | AnyStrided

datatype layout_policy = Require binding_layout | Canonicalize layout

datatype binding_aliasing = MayAlias | Disjoint | Exclusive

record binding_decl =
  decl_storage :: storage_metadata
  decl_shape :: "nat list"
  decl_dtype :: dtype
  decl_placement :: placement
  decl_policy :: layout_policy
  decl_aliasing :: binding_aliasing

fun policy_constraint :: "layout_policy \<Rightarrow> layout_constraint" where
  "policy_constraint (Require (Exact l)) = SpecDenseStrided l"
| "policy_constraint (Require ZeroOffsetContiguous) = SpecCanonical"
| "policy_constraint (Require ContiguousLayout) = SpecUnconstrained"
| "policy_constraint (Require AnyStrided) = SpecUnconstrained"
| "policy_constraint (Canonicalize _) = SpecUnconstrained"

text \<open>The layout constraint of a dense value is replaced; a packed value keeps its own.\<close>

definition constrain :: "layout_constraint \<Rightarrow> storage_spec \<Rightarrow> storage_spec" where
  "constrain c storage =
     (if spec_representation storage = DenseStorage then storage\<lparr>spec_layout := c\<rparr> else storage)"

definition decl_value_spec :: "binding_decl \<Rightarrow> value_spec" where
  "decl_value_spec b = \<lparr>semantic_dtype = decl_dtype b, logical_shape = decl_shape b,
     value_storage_spec = constrain (policy_constraint (decl_policy b)) (as_spec (decl_storage b))\<rparr>"

datatype scalar_type = BoolType | U32Type | I64Type | F32Type | F64Type

datatype scalar_value = BoolValue bool | U32Value "32 word" | I64Value "64 word"
  | F32Value "32 word" | F64Value "64 word"

fun scalar_type_of :: "scalar_value \<Rightarrow> scalar_type" where
  "scalar_type_of (BoolValue _) = BoolType"
| "scalar_type_of (U32Value _) = U32Type"
| "scalar_type_of (I64Value _) = I64Type"
| "scalar_type_of (F32Value _) = F32Type"
| "scalar_type_of (F64Value _) = F64Type"

record scalar_decl =
  scalar_name :: string
  scalar_decl_type :: scalar_type

datatype runtime_value_kind = U64Kind nat nat | U32ArrayKind nat nat nat

record runtime_value_decl =
  runtime_name :: string
  runtime_kind :: runtime_value_kind

definition decl_u64 :: "string \<Rightarrow> nat \<Rightarrow> nat \<Rightarrow> runtime_value_decl" where
  "decl_u64 name low high = \<lparr>runtime_name = name, runtime_kind = U64Kind low high\<rparr>"

definition decl_u32_array :: "string \<Rightarrow> nat \<Rightarrow> runtime_value_decl" where
  "decl_u32_array name max_len = \<lparr>runtime_name = name, runtime_kind = U32ArrayKind max_len 0 u32_max\<rparr>"

datatype runtime_value = U64Argument nat | U32ArrayArgument "nat list"

datatype runtime_value_error =
    InvalidDeclaration string
  | KindMismatch string
  | OutOfBounds string nat nat nat
  | TooLong string nat nat
  | ElementOutOfBounds string nat nat nat nat

definition check_element ::
    "string \<Rightarrow> nat \<Rightarrow> nat \<Rightarrow> nat \<times> nat \<Rightarrow> (unit, runtime_value_error) outcome" where
  "check_element name low high entry = (case entry of (index, element) \<Rightarrow>
     if element < low \<or> element > high then Err (ElementOutOfBounds name index element low high)
     else Ok ())"

definition validate_runtime_value ::
    "runtime_value_decl \<Rightarrow> runtime_value \<Rightarrow> (unit, runtime_value_error) outcome" where
  "validate_runtime_value d v = (let name = runtime_name d in (case (runtime_kind d, v) of
     (U64Kind low high, U64Argument n) \<Rightarrow>
       if low > high then Err (InvalidDeclaration name)
       else if n < low \<or> n > high then Err (OutOfBounds name n low high)
       else Ok ()
   | (U32ArrayKind max_len low high, U32ArrayArgument elements) \<Rightarrow>
       if length elements > max_len then Err (TooLong name (length elements) max_len)
       else if low > high then Err (InvalidDeclaration name)
       else each_outcome (check_element name low high) (enumerate 0 elements)
   | _ \<Rightarrow> Err (KindMismatch name)))"

record rng_invocation =
  rng_seed :: nat
  rng_nonce :: nat
  rng_counters :: "nat list"

record invocation_signature =
  sig_scalars :: "scalar_decl list"
  sig_runtime_values :: "runtime_value_decl list"
  sig_rng :: "nat option"

record output_signature =
  output_storage :: storage_metadata
  output_shape :: "nat list"
  output_dtype :: dtype
  output_placement :: placement

definition output_value_spec :: "output_signature \<Rightarrow> value_spec" where
  "output_value_spec s = \<lparr>semantic_dtype = output_dtype s, logical_shape = output_shape s,
     value_storage_spec = as_spec (output_storage s)\<rparr>"

record program_signature =
  sig_bindings :: "binding_decl list"
  sig_invocation :: invocation_signature
  sig_outputs :: "output_signature list"

text \<open>What a type-erased buffer shows of itself.\<close>

record buffer =
  owner :: nat
  buffer_placement :: placement
  buffer_value :: value_spec
  buffer_layout :: layout

record invocation =
  inv_bindings :: "buffer list"
  inv_scalars :: "scalar_value list"
  inv_runtime_values :: "runtime_value list"
  inv_rng :: "rng_invocation option"

datatype count_kind = Bindings | Scalars | RuntimeValues

datatype invocation_error =
    CountError count_kind nat nat
  | InvalidOwner nat nat nat
  | DTypeMismatch nat dtype dtype
  | RepresentationMismatch nat storage_representation storage_representation
  | InvalidStorage nat storage_error
  | ExtentOverflow nat
  | TargetOverflow nat
  | PlacementMismatch nat
  | ShapeMismatch nat
  | LayoutMismatch nat
  | ScalarTypeMismatch nat
  | RuntimeValueError nat runtime_value_error
  | RngPresence bool bool
  | RngCounterCount nat nat

type_synonym checked_invocation = "(unit, invocation_error) outcome"

section \<open>Validation\<close>

definition validate_count :: "count_kind \<Rightarrow> nat \<Rightarrow> nat \<Rightarrow> checked_invocation" where
  "validate_count k expected actual =
     (if expected = actual then Ok () else Err (CountError k expected actual))"

definition validate_invocation_counts ::
    "program_signature \<Rightarrow> nat \<Rightarrow> nat \<Rightarrow> nat \<Rightarrow> nat option \<Rightarrow> checked_invocation" where
  "validate_invocation_counts s bindings scalars runtime_values counters =
     and_then (validate_count Bindings (length (sig_bindings s)) bindings) (\<lambda>_.
     and_then (validate_count Scalars (length (sig_scalars (sig_invocation s))) scalars) (\<lambda>_.
     and_then (validate_count RuntimeValues (length (sig_runtime_values (sig_invocation s))) runtime_values) (\<lambda>_.
     (case (sig_rng (sig_invocation s), counters) of
        (None, None) \<Rightarrow> Ok ()
      | (Some expected, Some actual) \<Rightarrow>
          if actual = expected then Ok () else Err (RngCounterCount expected actual)
      | (expected, actual) \<Rightarrow> Err (RngPresence (expected \<noteq> None) (actual \<noteq> None))))))"

fun layout_matches :: "layout_policy \<Rightarrow> layout \<Rightarrow> bool" where
  "layout_matches (Require (Exact expected)) l \<longleftrightarrow> l = expected"
| "layout_matches (Require ContiguousLayout) l \<longleftrightarrow> is_contiguous l"
| "layout_matches (Require ZeroOffsetContiguous) l \<longleftrightarrow> is_contiguous l \<and> offset l = 0"
| "layout_matches (Require AnyStrided) l \<longleftrightarrow> True"
| "layout_matches (Canonicalize _) l \<longleftrightarrow> True"

definition check_target ::
    "nat \<Rightarrow> binding_decl \<Rightarrow> dtype \<Rightarrow> checked_invocation" where
  "check_target index b physical = (case decl_policy b of
     Canonicalize target \<Rightarrow>
       let spec = (decl_value_spec b)\<lparr>value_storage_spec :=
             constrain (SpecDenseStrided target) (value_storage_spec (decl_value_spec b))\<rparr> in
       and_then (ok_or (TargetOverflow index) (checked_byte_size target physical)) (\<lambda>extent.
       map_err (InvalidStorage index) (validate_buffer spec physical target extent))
   | Require _ \<Rightarrow> Ok ())"

definition validate_storage ::
    "nat \<Rightarrow> binding_decl \<Rightarrow> value_spec \<Rightarrow> layout \<Rightarrow> checked_invocation" where
  "validate_storage index b v l =
     and_then (map_err (InvalidStorage index) (validate_value v)) (\<lambda>_.
     and_then (map_err (InvalidStorage index) (canonical_geometry v)) (\<lambda>geometry.
     let physical = physical_dtype geometry in
     and_then (ok_or (ExtentOverflow index) (checked_byte_size l physical)) (\<lambda>extent.
     and_then (map_err (InvalidStorage index) (validate_buffer v physical l extent)) (\<lambda>_.
     and_then (map_err (InvalidStorage index) (validate_buffer (decl_value_spec b) physical l extent)) (\<lambda>_.
     check_target index b physical)))))"

definition validate_binding_metadata ::
    "program_signature \<Rightarrow> nat \<Rightarrow> value_spec \<Rightarrow> placement \<Rightarrow> layout \<Rightarrow> checked_invocation" where
  "validate_binding_metadata s index v place l = (case nth_opt (sig_bindings s) index of
     None \<Rightarrow> Err (CountError Bindings (length (sig_bindings s)) (min usize_max (index + 1)))
   | Some b \<Rightarrow>
       if semantic_dtype v \<noteq> decl_dtype b then Err (DTypeMismatch index (decl_dtype b) (semantic_dtype v))
       else if place \<noteq> decl_placement b then Err (PlacementMismatch index)
       else if logical_shape v \<noteq> decl_shape b then Err (ShapeMismatch index)
       else if spec_representation (value_storage_spec v) \<noteq> meta_representation (decl_storage b)
       then Err (RepresentationMismatch index (meta_representation (decl_storage b))
              (spec_representation (value_storage_spec v)))
       else if \<not> layout_matches (decl_policy b) l then Err (LayoutMismatch index)
       else validate_storage index b v l)"

definition validate_scalar_metadata :: "program_signature \<Rightarrow> nat \<Rightarrow> scalar_type \<Rightarrow> checked_invocation" where
  "validate_scalar_metadata s index t = (let scalars = sig_scalars (sig_invocation s) in
     (case nth_opt scalars index of
        None \<Rightarrow> Err (CountError Scalars (length scalars) (min usize_max (index + 1)))
      | Some d \<Rightarrow> if scalar_decl_type d \<noteq> t then Err (ScalarTypeMismatch index) else Ok ()))"

definition validate_runtime_value_metadata ::
    "program_signature \<Rightarrow> nat \<Rightarrow> runtime_value \<Rightarrow> checked_invocation" where
  "validate_runtime_value_metadata s index v =
     (let values = sig_runtime_values (sig_invocation s) in
     (case nth_opt values index of
        None \<Rightarrow> Err (CountError RuntimeValues (length values) (min usize_max (index + 1)))
      | Some d \<Rightarrow> map_err (RuntimeValueError index) (validate_runtime_value d v)))"

definition validate_owned_binding ::
    "program_signature \<Rightarrow> nat \<Rightarrow> nat \<times> buffer \<Rightarrow> checked_invocation" where
  "validate_owned_binding s runtime entry = (case entry of (index, b) \<Rightarrow>
     if owner b \<noteq> runtime then Err (InvalidOwner index runtime (owner b))
     else validate_binding_metadata s index (buffer_value b) (buffer_placement b) (buffer_layout b))"

definition validate_invocation ::
    "program_signature \<Rightarrow> nat \<Rightarrow> invocation \<Rightarrow> checked_invocation" where
  "validate_invocation s runtime i =
     and_then (validate_invocation_counts s (length (inv_bindings i)) (length (inv_scalars i))
         (length (inv_runtime_values i)) (map_option (length \<circ> rng_counters) (inv_rng i))) (\<lambda>_.
     and_then (each_outcome (validate_owned_binding s runtime) (enumerate 0 (inv_bindings i))) (\<lambda>_.
     and_then (each_outcome (\<lambda>(index, v). validate_scalar_metadata s index (scalar_type_of v))
         (enumerate 0 (inv_scalars i))) (\<lambda>_.
     each_outcome (\<lambda>(index, v). validate_runtime_value_metadata s index v)
         (enumerate 0 (inv_runtime_values i)))))"

section \<open>What an accepted invocation satisfies\<close>

text \<open>A layout holds a value: it has the physical shape, obeys the constraint and has a representable extent.\<close>

definition holds_value :: "value_spec \<Rightarrow> layout \<Rightarrow> bool" where
  "holds_value v l \<longleftrightarrow> validate_value v = Ok () \<and> (\<exists>g extent.
     geometry_spec v g \<and> shape l = physical_shape g \<and>
     check_layout (spec_layout (value_storage_spec v)) l = Ok () \<and>
     checked_byte_size l (physical_dtype g) = Some extent \<and>
     (is_packed (spec_representation (value_storage_spec v)) \<longrightarrow> extent = geometry_bytes g))"

definition target_spec :: "binding_decl \<Rightarrow> layout \<Rightarrow> value_spec" where
  "target_spec b target = (decl_value_spec b)\<lparr>value_storage_spec :=
     constrain (SpecDenseStrided target) (value_storage_spec (decl_value_spec b))\<rparr>"

fun target_holds :: "binding_decl \<Rightarrow> layout_policy \<Rightarrow> bool" where
  "target_holds b (Canonicalize target) \<longleftrightarrow> holds_value (target_spec b target) target"
| "target_holds b (Require _) \<longleftrightarrow> True"

definition binding_conforms :: "nat \<Rightarrow> binding_decl \<Rightarrow> buffer \<Rightarrow> bool" where
  "binding_conforms runtime b x \<longleftrightarrow>
     owner x = runtime \<and> buffer_placement x = decl_placement b \<and>
     semantic_dtype (buffer_value x) = decl_dtype b \<and> logical_shape (buffer_value x) = decl_shape b \<and>
     spec_representation (value_storage_spec (buffer_value x)) = meta_representation (decl_storage b) \<and>
     layout_matches (decl_policy b) (buffer_layout x) \<and>
     holds_value (buffer_value x) (buffer_layout x) \<and>
     holds_value (decl_value_spec b) (buffer_layout x) \<and> target_holds b (decl_policy b)"

fun in_domain :: "runtime_value_kind \<Rightarrow> runtime_value \<Rightarrow> bool" where
  "in_domain (U64Kind low high) (U64Argument n) \<longleftrightarrow> low \<le> n \<and> n \<le> high"
| "in_domain (U32ArrayKind max_len low high) (U32ArrayArgument elements) \<longleftrightarrow>
     length elements \<le> max_len \<and> low \<le> high \<and> (\<forall>x \<in> set elements. low \<le> x \<and> x \<le> high)"
| "in_domain _ _ \<longleftrightarrow> False"

definition conforms :: "program_signature \<Rightarrow> nat \<Rightarrow> invocation \<Rightarrow> bool" where
  "conforms s runtime i \<longleftrightarrow>
     list_all2 (binding_conforms runtime) (sig_bindings s) (inv_bindings i) \<and>
     map scalar_decl_type (sig_scalars (sig_invocation s)) = map scalar_type_of (inv_scalars i) \<and>
     list_all2 in_domain (map runtime_kind (sig_runtime_values (sig_invocation s))) (inv_runtime_values i) \<and>
     map_option (length \<circ> rng_counters) (inv_rng i) = sig_rng (sig_invocation s)"

lemma check_element_Ok: "check_element name low high (index, x) = Ok () \<longleftrightarrow> low \<le> x \<and> x \<le> high"
  by (auto simp: check_element_def)

lemma check_elements_Ok:
  "each_outcome (check_element name low high) (enumerate 0 xs) = Ok () \<longleftrightarrow> (\<forall>x \<in> set xs. low \<le> x \<and> x \<le> high)"
  unfolding each_outcome_Ok ball_enumerate check_element_Ok by (simp add: all_set_conv_all_nth)

lemma validate_runtime_value_Ok:
  "validate_runtime_value d v = Ok () \<longleftrightarrow> in_domain (runtime_kind d) v"
  by (cases "(runtime_kind d, v)" rule: in_domain.cases)
    (auto simp: validate_runtime_value_def Let_def check_elements_Ok not_less split: if_splits)

lemma validate_runtime_value_total: "validate_runtime_value d v \<noteq> Panic"
proof -
  have "each_outcome (check_element name low high) xs \<noteq> Panic" for name low high xs
    by (rule each_outcome_Panic) (auto simp: check_element_def split: if_splits)
  then show ?thesis
    by (cases "(runtime_kind d, v)" rule: in_domain.cases) (auto simp: validate_runtime_value_def Let_def)
qed

lemma validate_counts_Ok:
  "validate_invocation_counts s bindings scalars runtime_values counters = Ok () \<longleftrightarrow>
    length (sig_bindings s) = bindings \<and> length (sig_scalars (sig_invocation s)) = scalars \<and>
    length (sig_runtime_values (sig_invocation s)) = runtime_values \<and>
    counters = sig_rng (sig_invocation s)"
  by (auto simp: validate_invocation_counts_def validate_count_def outcome_iff
      split: option.split if_splits)

lemma validate_counts_total: "validate_invocation_counts s b n r c \<noteq> Panic"
  by (auto simp: validate_invocation_counts_def validate_count_def outcome_iff
      split: option.split if_splits)

lemma geometry_spec_cong:
  assumes "semantic_dtype v = semantic_dtype w" "logical_shape v = logical_shape w"
    "spec_representation (value_storage_spec v) = spec_representation (value_storage_spec w)"
  shows "geometry_spec v g \<longleftrightarrow> geometry_spec w g"
  unfolding geometry_spec_def assms by (rule refl)

lemma geometry_unique: "geometry_spec v g \<Longrightarrow> geometry_spec v h \<longleftrightarrow> h = g"
  by (metis canonical_geometry_spec outcome.inject(1))

text \<open>The checks of a buffer with exactly the extent of its layout.\<close>

lemma holds_value_iff:
  assumes "geometry_spec v g"
  shows "holds_value v l \<longleftrightarrow> (\<exists>extent. checked_byte_size l (physical_dtype g) = Some extent \<and>
    validate_buffer v (physical_dtype g) l extent = Ok ())"
  unfolding holds_value_def validate_buffer_iff geometry_unique [OF assms]
  by (auto simp: checked_byte_size_Some)

lemma validate_storage_Ok:
  assumes "semantic_dtype v = decl_dtype b" "logical_shape v = decl_shape b"
    "spec_representation (value_storage_spec v) = meta_representation (decl_storage b)"
  shows "validate_storage index b v l = Ok () \<longleftrightarrow>
    holds_value v l \<and> holds_value (decl_value_spec b) l \<and> target_holds b (decl_policy b)"
proof (cases "\<exists>g. geometry_spec v g")
  case False
  then show ?thesis
    by (auto simp: holds_value_def validate_storage_def outcome_iff canonical_geometry_spec)
next
  case True
  then obtain g where g: "geometry_spec v g" by auto
  have rep: "spec_representation (value_storage_spec (decl_value_spec b)) = meta_representation (decl_storage b)"
    "spec_representation (value_storage_spec (target_spec b t)) = meta_representation (decl_storage b)" for t
    by (auto simp: decl_value_spec_def target_spec_def constrain_def as_spec_def)
  have d: "geometry_spec (decl_value_spec b) g" and t: "geometry_spec (target_spec b t) g" for t
    using geometry_spec_cong [of v "decl_value_spec b" g] geometry_spec_cong [of v "target_spec b t" g]
      g assms rep by (simp_all add: decl_value_spec_def target_spec_def)
  have "check_target index b (physical_dtype g) = Ok () \<longleftrightarrow> target_holds b (decl_policy b)"
    by (cases "decl_policy b")
      (simp_all add: check_target_def Let_def and_then_Ok map_err_Ok ok_or_Ok holds_value_iff [OF t]
        flip: target_spec_def)
  moreover have "canonical_geometry v = Ok g" using g by (simp add: canonical_geometry_spec)
  then have "validate_storage index b v l = Ok () \<longleftrightarrow> validate_value v = Ok () \<and>
      (\<exists>extent. checked_byte_size l (physical_dtype g) = Some extent \<and>
        validate_buffer v (physical_dtype g) l extent = Ok () \<and>
        validate_buffer (decl_value_spec b) (physical_dtype g) l extent = Ok ()) \<and>
      check_target index b (physical_dtype g) = Ok ()"
    by (auto simp: validate_storage_def Let_def and_then_Ok map_err_Ok ok_or_Ok)
  moreover have "validate_value v = Ok ()" if "validate_buffer v dt l n = Ok ()" for dt n
    using that unfolding validate_buffer_iff by blast
  ultimately show ?thesis
    unfolding holds_value_iff [OF g] holds_value_iff [OF d] by (metis option.inject)
qed

lemma validate_binding_metadata_Ok:
  assumes "index < length (sig_bindings s)"
  shows "validate_owned_binding s runtime (index, x) = Ok () \<longleftrightarrow>
    binding_conforms runtime (sig_bindings s ! index) x"
proof -
  let ?b = "sig_bindings s ! index"
  have b: "nth_opt (sig_bindings s) index = Some ?b" using assms by simp
  show ?thesis
    using validate_storage_Ok [of "buffer_value x" ?b index "buffer_layout x"]
    unfolding validate_owned_binding_def validate_binding_metadata_def binding_conforms_def prod.case b option.case
    by auto
qed

lemma validate_buffer_total [simp]: "validate_buffer v dt l n \<noteq> Panic"
  by (rule validate_buffer_not_Panic)

lemma validate_binding_total: "validate_owned_binding s runtime entry \<noteq> Panic"
  by (auto simp: validate_owned_binding_def validate_binding_metadata_def validate_storage_def check_target_def
      Let_def outcome_iff split: prod.split option.split layout_policy.split)

lemma list_all2_enumerate:
  assumes "length ds = length xs" "\<And>i x. i < length ds \<Longrightarrow> f (i, x) = Ok () \<longleftrightarrow> P (ds ! i) x"
  shows "each_outcome f (enumerate 0 xs) = Ok () \<longleftrightarrow> list_all2 P ds xs"
  using assms by (simp add: each_outcome_Ok ball_enumerate list_all2_conv_all_nth)

lemma validate_invocation_Ok: "validate_invocation s runtime i = Ok () \<longleftrightarrow> conforms s runtime i"
proof (cases "length (sig_bindings s) = length (inv_bindings i) \<and>
    length (sig_scalars (sig_invocation s)) = length (inv_scalars i) \<and>
    length (sig_runtime_values (sig_invocation s)) = length (inv_runtime_values i) \<and>
    map_option (length \<circ> rng_counters) (inv_rng i) = sig_rng (sig_invocation s)")
  case True
  let ?scalars = "sig_scalars (sig_invocation s)" and ?runtimes = "sig_runtime_values (sig_invocation s)"
  have "each_outcome (\<lambda>(index, v). validate_scalar_metadata s index (scalar_type_of v))
      (enumerate 0 (inv_scalars i)) = Ok () \<longleftrightarrow>
      list_all2 (\<lambda>d v. scalar_decl_type d = scalar_type_of v) ?scalars (inv_scalars i)"
    using True by (intro list_all2_enumerate) (auto simp: validate_scalar_metadata_def Let_def nth_opt_def)
  moreover have "each_outcome (\<lambda>(index, v). validate_runtime_value_metadata s index v)
      (enumerate 0 (inv_runtime_values i)) = Ok () \<longleftrightarrow>
      list_all2 (\<lambda>d v. in_domain (runtime_kind d) v) ?runtimes (inv_runtime_values i)"
    using True by (intro list_all2_enumerate)
      (auto simp: validate_runtime_value_metadata_def Let_def nth_opt_def map_err_Ok validate_runtime_value_Ok)
  moreover have "each_outcome (validate_owned_binding s runtime) (enumerate 0 (inv_bindings i)) = Ok () \<longleftrightarrow>
      list_all2 (binding_conforms runtime) (sig_bindings s) (inv_bindings i)"
    using True by (intro list_all2_enumerate) (auto simp: validate_binding_metadata_Ok)
  moreover have "list_all2 (\<lambda>d v. scalar_decl_type d = scalar_type_of v) ?scalars (inv_scalars i) \<longleftrightarrow>
      map scalar_decl_type ?scalars = map scalar_type_of (inv_scalars i)"
    by (auto simp: list_eq_iff_nth_eq list_all2_conv_all_nth)
  ultimately show ?thesis
    using True by (simp add: validate_invocation_def and_then_Ok validate_counts_Ok conforms_def list_all2_map1 ex_unit)
next
  case False
  then show ?thesis
    by (auto simp: validate_invocation_def and_then_Ok validate_counts_Ok conforms_def
        dest: list_all2_lengthD map_eq_imp_length_eq)
qed

lemma validate_invocation_total: "validate_invocation s runtime i \<noteq> Panic"
proof -
  have "each_outcome (\<lambda>(index, v). validate_scalar_metadata s index (scalar_type_of v)) xs \<noteq> Panic"
    "each_outcome (\<lambda>(index, v). validate_runtime_value_metadata s index v) ys \<noteq> Panic"
    "each_outcome (validate_owned_binding s runtime) zs \<noteq> Panic" for xs ys zs
    by (rule each_outcome_Panic; auto simp: validate_scalar_metadata_def validate_runtime_value_metadata_def
        Let_def map_err_Panic validate_runtime_value_total validate_binding_total split: option.splits if_splits)+
  then show ?thesis
    by (auto simp: validate_invocation_def and_then_Panic validate_counts_total)
qed

lemma holds_value_inside:
  assumes "holds_value v l" "layout_wf l" "in_bounds c (shape l)" "geometry_spec v g"
    "checked_byte_size l (physical_dtype g) = Some extent"
  shows "(address l c + 1) * size_in_bytes (physical_dtype g) \<le> extent"
proof -
  obtain m where m: "checked_max_index l = Some m" "extent = m * size_in_bytes (physical_dtype g)"
    using assms(5) by (auto simp: checked_byte_size_Some)
  have "0 \<notin> set (shape l)"
    using assms(3) by (auto simp: in_bounds_def in_set_conv_nth dest: list_all2_nthD2)
  from checked_max_index_bound [OF assms(2) this m(1) assms(3)] have "address l c + 1 \<le> m" by simp
  then show ?thesis unfolding m(2) by (rule mult_le_mono1)
qed

section \<open>Properties\<close>

lemma validate_invocation_exact_parts:
  shows "validate_invocation s runtime i \<noteq> Panic"
    and "validate_invocation s runtime i = Ok () \<longleftrightarrow> conforms s runtime i"
    and "validate_invocation s runtime i = Ok () \<Longrightarrow> k < length (sig_bindings s) \<Longrightarrow>
      layout_wf (buffer_layout (inv_bindings i ! k)) \<Longrightarrow>
      \<exists>g extent. geometry_spec (decl_value_spec (sig_bindings s ! k)) g \<and> extent \<le> usize_max \<and>
        (\<forall>c. in_bounds c (physical_shape g) \<longrightarrow>
          (address (buffer_layout (inv_bindings i ! k)) c + 1) * size_in_bytes (physical_dtype g) \<le> extent)"
proof -
  show "validate_invocation s runtime i \<noteq> Panic" by (rule validate_invocation_total)
  show "validate_invocation s runtime i = Ok () \<longleftrightarrow> conforms s runtime i" by (rule validate_invocation_Ok)
  let ?b = "sig_bindings s ! k" and ?l = "buffer_layout (inv_bindings i ! k)"
  assume "validate_invocation s runtime i = Ok ()" and k: "k < length (sig_bindings s)" and wf: "layout_wf ?l"
  then have "holds_value (decl_value_spec ?b) ?l"
    by (auto simp: validate_invocation_Ok conforms_def binding_conforms_def list_all2_conv_all_nth)
  then obtain g extent where g: "geometry_spec (decl_value_spec ?b) g" "shape ?l = physical_shape g"
      "checked_byte_size ?l (physical_dtype g) = Some extent"
    by (auto simp: holds_value_def)
  have "extent \<le> usize_max" using g(3) by (auto simp: checked_byte_size_Some)
  moreover have "(address ?l c + 1) * size_in_bytes (physical_dtype g) \<le> extent"
    if "in_bounds c (physical_shape g)" for c
    using holds_value_inside [OF \<open>holds_value _ _\<close> wf _ g(1,3)] that g(2) by simp
  ultimately show "\<exists>g extent. geometry_spec (decl_value_spec ?b) g \<and> extent \<le> usize_max \<and>
      (\<forall>c. in_bounds c (physical_shape g) \<longrightarrow> (address ?l c + 1) * size_in_bytes (physical_dtype g) \<le> extent)"
    using g(1) by blast
qed

text \<open>
  C8. An invocation is accepted exactly when it conforms to its signature: each buffer belongs to the
  runtime and has the declared placement, type, shape and representation, its layout obeys the
  declared policy and holds the declared value (for a canonicalised binding, so does the target);
  scalar types agree, runtime values lie in their declared domains, and the number of RNG counters
  is the declared one. Validation never panics. In an accepted binding every element that the
  layout addresses lies whole inside the extent that was checked, which fits \<open>usize\<close>.
\<close>

theorem validate_invocation_exact:
  "validate_invocation s runtime i \<noteq> Panic \<and>
   (validate_invocation s runtime i = Ok () \<longleftrightarrow> conforms s runtime i) \<and>
   (validate_invocation s runtime i = Ok () \<longrightarrow>
     (\<forall>k < length (sig_bindings s). layout_wf (buffer_layout (inv_bindings i ! k)) \<longrightarrow>
       (\<exists>g extent. geometry_spec (decl_value_spec (sig_bindings s ! k)) g \<and> extent \<le> usize_max \<and>
         (\<forall>c. in_bounds c (physical_shape g) \<longrightarrow>
           (address (buffer_layout (inv_bindings i ! k)) c + 1) * size_in_bytes (physical_dtype g) \<le> extent))))"
  using validate_invocation_exact_parts [of s runtime i] by blast

text \<open>An example: a transposed view accepted for a canonicalised binding, and one array of token numbers.\<close>

definition example_binding :: binding_decl where
  "example_binding = \<lparr>decl_storage = metadata_dense, decl_shape = [2, 3], decl_dtype = F32,
     decl_placement = placement_new ''cpu:0'',
     decl_policy = Canonicalize \<lparr>shape = [2, 3], strides = [3, 1], offset = 0\<rparr>, decl_aliasing = MayAlias\<rparr>"

definition example_signature :: program_signature where
  "example_signature = \<lparr>sig_bindings = [example_binding],
     sig_invocation = \<lparr>sig_scalars = [\<lparr>scalar_name = ''rate'', scalar_decl_type = F32Type\<rparr>],
       sig_runtime_values = [decl_u32_array ''tokens'' 4], sig_rng = None\<rparr>, sig_outputs = []\<rparr>"

definition example_buffer :: buffer where
  "example_buffer = \<lparr>owner = 7, buffer_placement = placement_new ''cpu:0'',
     buffer_value = \<lparr>semantic_dtype = F32, logical_shape = [2, 3],
       value_storage_spec = as_spec metadata_unconstrained\<rparr>,
     buffer_layout = \<lparr>shape = [2, 3], strides = [1, 2], offset = 0\<rparr>\<rparr>"

definition example_invocation :: invocation where
  "example_invocation = \<lparr>inv_bindings = [example_buffer], inv_scalars = [F32Value 1],
     inv_runtime_values = [U32ArrayArgument [5, 9]], inv_rng = None\<rparr>"

lemma example_holds:
  assumes "semantic_dtype v = F32" "logical_shape v = [2, 3]"
    "spec_representation (value_storage_spec v) = DenseStorage"
    "spec_layout (value_storage_spec v) = SpecUnconstrained \<or> spec_layout (value_storage_spec v) = SpecDenseStrided l"
    "shape l = [2, 3]" "checked_byte_size l F32 = Some 24"
  shows "holds_value v l"
proof -
  let ?g = "\<lparr>physical_shape = [2, 3], physical_dtype = F32, geometry_bytes = 24\<rparr>"
  have g: "geometry_spec v ?g"
    using assms(1-3) by (simp add: geometry_spec_def usize_max_def numeral_2_eq_2)
  then have "validate_value v = Ok ()"
    using assms by (auto simp: validate_value_def outcome_iff simp flip: canonical_geometry_spec)
  moreover have "check_layout (spec_layout (value_storage_spec v)) l = Ok ()"
    using assms(4) by (auto simp: check_layout_def)
  ultimately show ?thesis
    using g assms(3,5,6) unfolding holds_value_def by (intro conjI exI [of _ ?g] exI [of _ 24]) auto
qed

lemma example_extents:
  "checked_byte_size \<lparr>shape = [2, 3], strides = [1, 2], offset = 0\<rparr> F32 = Some 24"
  "checked_byte_size \<lparr>shape = [2, 3], strides = [3, 1], offset = 0\<rparr> F32 = Some 24"
  by (simp_all add: checked_byte_size_def checked_max_index_def checked_mul_def checked_add_def usize_max_def)

lemma example_conforms: "conforms example_signature 7 example_invocation"
proof -
  let ?l = "\<lparr>shape = [2, 3], strides = [1, 2], offset = 0\<rparr>"
  let ?t = "\<lparr>shape = [2, 3], strides = [3, 1], offset = 0\<rparr>"
  have "holds_value (buffer_value example_buffer) ?l" "holds_value (decl_value_spec example_binding) ?l"
    "holds_value (target_spec example_binding ?t) ?t"
    by (rule example_holds; simp add: example_buffer_def decl_value_spec_def target_spec_def constrain_def
        example_binding_def as_spec_def metadata_dense_def metadata_unconstrained_def example_extents
        del: One_nat_def)+
  then have "binding_conforms 7 example_binding example_buffer"
    by (simp add: binding_conforms_def example_buffer_def example_binding_def metadata_dense_def
        metadata_unconstrained_def as_spec_def del: One_nat_def)
  then show ?thesis
    by (simp add: conforms_def example_signature_def example_invocation_def decl_u32_array_def u32_max_def)
qed

lemma validate_invocation_exact_witness:
  "validate_invocation example_signature 7 example_invocation = Ok () \<and>
   (\<exists>g extent. geometry_spec (decl_value_spec example_binding) g \<and>
      (address (buffer_layout example_buffer) [1, 2] + 1) * size_in_bytes (physical_dtype g) \<le> extent)"
proof
  show ok: "validate_invocation example_signature 7 example_invocation = Ok ()"
    using validate_invocation_exact [of example_signature 7 example_invocation] example_conforms by blast
  have fields: "sig_bindings example_signature ! 0 = example_binding"
    "inv_bindings example_invocation ! 0 = example_buffer" "0 < length (sig_bindings example_signature)"
    "layout_wf (buffer_layout example_buffer)"
    by (simp_all add: example_signature_def example_invocation_def layout_wf_def example_buffer_def)
  obtain g extent where g: "geometry_spec (decl_value_spec example_binding) g"
    and inside: "\<forall>c. in_bounds c (physical_shape g) \<longrightarrow>
      (address (buffer_layout example_buffer) c + 1) * size_in_bytes (physical_dtype g) \<le> extent"
    using validate_invocation_exact [of example_signature 7 example_invocation] ok fields by metis
  have "physical_shape g = [2, 3]"
    using g by (simp add: geometry_spec_def Let_def decl_value_spec_def example_binding_def constrain_def
        as_spec_def metadata_dense_def)
  then have "in_bounds [1, 2] (physical_shape g)" by simp
  with g inside show "\<exists>g extent. geometry_spec (decl_value_spec example_binding) g \<and>
      (address (buffer_layout example_buffer) [1, 2] + 1) * size_in_bytes (physical_dtype g) \<le> extent"
    by blast
qed

end
