(* ===== verification/Spec2Isabelle.thy ===== *)
theory Spec2Isabelle
  imports Sampling Workspace Plan KQuant GgufFormat ShapeSpecs GraphCopies Schedule Program
begin

text \<open>
  A verification library for the core of effect-torch, a tensor runtime with a graph compiler.

  \<^bold>\<open>The program.\<close> A client builds an immutable graph of tensor operations (\<open>crates/graph\<close>); every node is
  typed when it is made. The compiler (\<open>crates/compiler\<close>) indexes the graph, partitions and lowers it
  to a table of instructions over values, and plans the memory of those values. A backend
  (\<open>crates/runtime-cpu\<close>, \<open>runtime-metal\<close>, \<open>runtime-cuda\<close>) runs the lowered program: it checks each
  invocation against the signature of the program, leases the planned segments from a workspace pool,
  reads weights from GGUF files, decodes packed weights, and samples the next token from the logits
  (\<open>crates/runtime\<close>). The library models the machine-neutral crates \<open>graph\<close>, \<open>compiler\<close> and
  \<open>runtime\<close>.

  \<^bold>\<open>Theories and what they model.\<close> File names are under \<open>src/crates\<close>.
  \<^item> \<open>Prelude\<close>: machine integers (\<open>usize\<close> is a natural number below \<open>usize_max\<close>, every operation writes its
    overflow out), outcomes (\<open>Ok\<close>, \<open>Err\<close>, \<open>Panic\<close>), loops, iterators, and the locale
    \<open>invariant_system\<close> of step relations with an invariant. \<open>Floats\<close>: binary32 and binary64 arithmetic with
    rounding to nearest.
  \<^item> \<open>Dense\<close> (\<open>runtime/src/dense.rs\<close>), \<open>Layout\<close> (\<open>runtime/src/dtype.rs\<close>, \<open>layout.rs\<close>): identifiers and
    ranges, element types, strided layouts and views. The locale \<open>layout_view\<close> is interpreted for permuted,
    narrowed and broadcast views.
  \<^item> \<open>Storage\<close>, \<open>KQuant\<close> (\<open>runtime/src/storage.rs\<close>): representations, geometry and validation of stored
    values; the decoders of the GGML K-quant blocks.
  \<^item> \<open>Gguf\<close>, \<open>GgufReader\<close>, \<open>GgufFormat\<close> (\<open>runtime/src/gguf.rs\<close>): the bounded header parser, selection and
    the payload reader; the contract of its primitive effects as the locale \<open>header_relation\<close>; the format as
    an encoder.
  \<^item> \<open>Graph\<close>, \<open>Shapes\<close>, \<open>ShapeLaws\<close>, \<open>ShapeSpecs\<close>, \<open>GraphCopies\<close> (\<open>graph/src/lib.rs\<close>): all node kinds,
    their operands and rebuilding, shape inference with every check, what an accepted node satisfies, and
    how inferred shapes relate to the layouts of the runtime and to copies of a graph.
  \<^item> \<open>Schedule\<close> (\<open>compiler/src/schedule.rs\<close>): the discovery of a graph and its dense index.
  \<^item> \<open>Lowered\<close> (\<open>compiler/src/lowered.rs\<close>), \<open>Planner\<close>, \<open>Liveness\<close>, \<open>Packing\<close>, \<open>Plan\<close>
    (\<open>compiler/src/planner.rs\<close>), \<open>Memory\<close> (\<open>runtime/src/memory.rs\<close>): lowered programs, the memory planner
    from validation and alias normalisation through live intervals and segment packing to the plan with
    its reuse edges and report, and the validation of a plan.
  \<^item> \<open>Workspace\<close> (\<open>runtime/src/workspace.rs\<close>): the pool that leases segments.
  \<^item> \<open>Program\<close> (\<open>runtime/src/program.rs\<close>, \<open>backend.rs\<close>): signatures, invocations and their validation.
  \<^item> \<open>Sampling\<close> (\<open>runtime/src/sampling.rs\<close>): random numbers, next-token sampling and speculative acceptance.

  \<^bold>\<open>What the lemmas show.\<close> The planner never lets two live values share memory, orders every reuse by an edge,
  places every value aligned and in bounds, and always returns; validation of a plan accepts exactly the
  sound ones. The pool keeps its counters exact, is all-or-nothing on errors and evicts by age. Graphs built
  by \<open>Node::new\<close> are well typed, shape inference panics in three cases only, and the index of such a graph is
  a topological order with exact tables. Files in the GGUF format parse back to what was written; what any
  parse returns is safe. Decoded blocks hold the values that the formats store. An invocation is accepted
  exactly when it conforms. Sampling returns tokens of the top-k, and random numbers are exact. Where the code
  does not do what it means to, a theorem shows the input: an empty value that defeats planning, and a token of
  weight zero that is drawn.

  \<^bold>\<open>Bounds and termination.\<close> No definition takes fuel. \<open>usize\<close> and \<open>u64\<close> are 64 bits, \<open>u32\<close> 32 bits; release
  semantics apply (unchecked arithmetic wraps). The graph search ends because the unfolding of a graph is
  finite (the measure \<open>work\<close>), alias resolution because a path never repeats a value, header parsing because
  every loop is counted by a field that the parser bounded before.

  \<^bold>\<open>Conventions.\<close> A shared \<open>Arc<Node>\<close> is a value with its identifier. Hash tables are maps or association
  lists in the order of insertion; where the code iterates over one, the order does not matter or is a
  parameter. Error texts are constructors. Allocation, file reads, cancellation flags and the exponential
  function are parameters.

  \<^bold>\<open>Not modelled.\<close>
  \<^item> The kernels and executables of the backends, their device code and their drivers: they are floating-point
    loops, generated shader text and foreign calls, and rest on libraries that are not part of the repository.
  \<^item> The bindings to JavaScript and the TypeScript packages: glue over the crates.
  \<^item> The optimizer, legalization, decode specialization and the driver of the compiler: region selection is driven by
    tables of the targets, the driver only sequences and times callbacks.
  \<^item> Texts of errors, \<open>Display\<close> and diagnostics.
\<close>

end
